(* ===== verification/Prelude.thy ===== *)
theory Prelude
  imports Main "HOL-Library.Word" "HOL-Library.Sublist"
begin

section \<open>C strings, decimal text and lists\<close>

text \<open>
  Shared vocabulary of the development. A C string is a \<^typ>\<open>string\<close> without the byte 0;
  a buffer of \<open>n\<close> bytes that receives a string with \<open>snprintf\<close>, or with \<open>strncpy\<close> and a
  terminator written in its last byte, keeps the first \<open>n - 1\<close> characters (\<open>clip\<close>).
  A pointer into a string is the suffix that starts there, and the null pointer is
  \<^const>\<open>None\<close>. The functions of the C library that the sources call
  (\<open>isspace\<close>, \<open>isdigit\<close>, \<open>strchr\<close>, \<open>strstr\<close>, \<open>strncmp\<close>, \<open>strtol\<close>, \<open>atoi\<close>, the conversion
  \<open>%ld\<close>) are defined here once, with the facts about them that the components use.
\<close>

named_theorems frame \<open>fields that an operation leaves unchanged\<close>

subsection \<open>Bytes and characters\<close>

abbreviation nul :: char where
  "nul \<equiv> CHR 0x00"

definition code_of :: "char \<Rightarrow> int" where
  "code_of c = int (of_char c)"

definition isspace :: "char \<Rightarrow> bool" where
  "isspace c \<longleftrightarrow> c = CHR '' '' \<or> 9 \<le> code_of c \<and> code_of c \<le> 13"

definition isdigit :: "char \<Rightarrow> bool" where
  "isdigit c \<longleftrightarrow> 48 \<le> code_of c \<and> code_of c \<le> 57"

definition digit_val :: "char \<Rightarrow> int" where
  "digit_val c = code_of c - 48"

definition digit_char :: "nat \<Rightarrow> char" where
  "digit_char d = char_of (48 + d)"

definition cstr :: "string \<Rightarrow> string" where
  "cstr bs = takeWhile (\<lambda>c. c \<noteq> nul) bs"

definition is_cstr :: "string \<Rightarrow> bool" where
  "is_cstr s \<longleftrightarrow> nul \<notin> set s"

definition clip :: "nat \<Rightarrow> string \<Rightarrow> string" where
  "clip n s = take (n - 1) s"

lemma digit_val_range: "isdigit c \<Longrightarrow> 0 \<le> digit_val c \<and> digit_val c \<le> 9"
  by (simp add: isdigit_def digit_val_def)

lemma code_of_digit_char [simp]: "d < 10 \<Longrightarrow> code_of (digit_char d) = 48 + int d"
  by (simp add: code_of_def digit_char_def)

lemma isdigit_digit_char [simp]: "d < 10 \<Longrightarrow> isdigit (digit_char d)"
  by (simp add: isdigit_def)

lemma digit_val_digit_char [simp]: "d < 10 \<Longrightarrow> digit_val (digit_char d) = int d"
  by (simp add: digit_val_def)

lemma isdigit_not_space: "isdigit c \<Longrightarrow> \<not> isspace c"
  by (auto simp: isdigit_def isspace_def code_of_def)

lemma length_clip [simp]: "length (clip n s) = min (n - 1) (length s)"
  by (simp add: clip_def min.commute)

lemma clip_idem [simp]: "clip n (clip n s) = clip n s"
  by (simp add: clip_def)

lemma clip_id: "length s < n \<Longrightarrow> clip n s = s"
  by (simp add: clip_def)

lemma is_cstr_clip [intro]: "is_cstr s \<Longrightarrow> is_cstr (clip n s)"
  unfolding is_cstr_def clip_def by (meson in_set_takeD)

lemma is_cstr_cstr [simp]: "is_cstr (cstr bs)"
  unfolding is_cstr_def cstr_def by (auto dest: set_takeWhileD)

lemma cstr_id: "is_cstr s \<Longrightarrow> cstr s = s"
  by (simp add: is_cstr_def cstr_def takeWhile_eq_all_conv) blast

lemma cstr_append_nul: "is_cstr s \<Longrightarrow> cstr (s @ nul # bs) = s"
  unfolding is_cstr_def cstr_def by (subst takeWhile_append2) auto

subsection \<open>Searching\<close>

fun strchr :: "string \<Rightarrow> char \<Rightarrow> string option" where
  "strchr [] c = None"
| "strchr (x # xs) c = (if x = c then Some (x # xs) else strchr xs c)"

fun strstr :: "string \<Rightarrow> string \<Rightarrow> string option" where
  "strstr [] t = (if t = [] then Some [] else None)"
| "strstr (x # xs) t = (if prefix t (x # xs) then Some (x # xs) else strstr xs t)"

definition strncmp_eq :: "string \<Rightarrow> string \<Rightarrow> bool" where
  \<comment> \<open>\<open>strncmp(s, lit, strlen(lit)) == 0\<close>\<close>
  "strncmp_eq s lit = prefix lit s"

fun skip :: "(char \<Rightarrow> bool) \<Rightarrow> string \<Rightarrow> string" where
  "skip P [] = []"
| "skip P (c # cs) = (if P c then skip P cs else c # cs)"

lemma skip_dropWhile: "skip P s = dropWhile P s"
  by (induction s) auto

lemma strchr_Some_iff:
  "strchr s c = Some r \<longleftrightarrow> (\<exists>u. s = u @ r \<and> c \<notin> set u \<and> r \<noteq> [] \<and> hd r = c)"
proof (induction s)
  case Nil
  show ?case by simp
next
  case (Cons x xs)
  show ?case
  proof (cases "x = c")
    case True
    have "r = x # xs \<longleftrightarrow> (\<exists>u. x # xs = u @ r \<and> c \<notin> set u \<and> r \<noteq> [] \<and> hd r = c)"
      using True by (auto simp: Cons_eq_append_conv)
    with True show ?thesis by auto
  next
    case False
    with Cons show ?thesis by (force simp: Cons_eq_append_conv)
  qed
qed

lemma strchr_None_iff: "strchr s c = None \<longleftrightarrow> c \<notin> set s"
  by (induction s) auto

lemma strstr_suffix: "strstr s t = Some r \<Longrightarrow> \<exists>u. s = u @ r"
  by (induction s) (auto split: if_splits intro: exI [of _ "_ # _"])

lemma strstr_prefix: "strstr s t = Some r \<Longrightarrow> prefix t r"
  by (induction s) (auto split: if_splits)

lemma strstr_None_iff: "strstr s t = None \<longleftrightarrow> \<not> sublist t s"
  by (induction s) (auto simp: sublist_Cons_right)

lemma strstr_Some_sublist: "strstr s t = Some r \<Longrightarrow> sublist t s"
  using strstr_None_iff [of s t] by simp

lemma strstr_clip:
  assumes "length u + length t < n"
  shows "strstr (clip n (u @ t @ x)) t \<noteq> None"
proof -
  have "clip n (u @ t @ x) = u @ t @ take (n - 1 - length u - length t) x"
    using assms by (simp add: clip_def)
  then show ?thesis by (simp only: strstr_None_iff sublist_appendI simp_thms)
qed

subsection \<open>Decimal text\<close>

fun show_nat :: "nat \<Rightarrow> string" where
  "show_nat n = (if n < 10 then [digit_char n] else show_nat (n div 10) @ [digit_char (n mod 10)])"

declare show_nat.simps [simp del]

definition show_int :: "int \<Rightarrow> string" where
  \<comment> \<open>the conversion \<open>%ld\<close>\<close>
  "show_int i = (if i < 0 then CHR ''-'' # show_nat (nat (- i)) else show_nat (nat i))"

fun scan_digits :: "int \<Rightarrow> string \<Rightarrow> int" where
  "scan_digits acc [] = acc"
| "scan_digits acc (c # cs) =
     (if isdigit c then scan_digits (10 * acc + digit_val c) cs else acc)"

definition long_max :: int where
  "long_max = 9223372036854775807"

definition long_min :: int where
  "long_min = - 9223372036854775808"

definition clamp_long :: "int \<Rightarrow> int" where
  "clamp_long v = (if v > long_max then long_max else if v < long_min then long_min else v)"

definition strtol :: "string \<Rightarrow> int" where
  \<comment> \<open>base 10, 64-bit \<open>long\<close>: saturates on overflow, 0 when there is no digit\<close>
  "strtol s =
     (case skip isspace s of
        [] \<Rightarrow> 0
      | c # cs \<Rightarrow>
          if c = CHR ''-'' then clamp_long (- scan_digits 0 cs)
          else if c = CHR ''+'' then clamp_long (scan_digits 0 cs)
          else clamp_long (scan_digits 0 (c # cs)))"

definition to_int32 :: "int \<Rightarrow> int" where
  \<comment> \<open>conversion of a wider integer to a 32-bit \<open>int\<close>\<close>
  "to_int32 v = (v + 2147483648) mod 4294967296 - 2147483648"

definition atoi :: "string \<Rightarrow> int" where
  "atoi s = to_int32 (strtol s)"

lemma to_int32_range: "- 2147483648 \<le> to_int32 v \<and> to_int32 v \<le> 2147483647"
proof -
  have "0 \<le> (v + 2147483648) mod 4294967296" "(v + 2147483648) mod 4294967296 < 4294967296"
    by simp_all
  then show ?thesis unfolding to_int32_def by linarith
qed

lemma to_int32_id: "- 2147483648 \<le> v \<Longrightarrow> v \<le> 2147483647 \<Longrightarrow> to_int32 v = v"
  by (simp add: to_int32_def)

lemma atoi_range: "- 2147483648 \<le> atoi s \<and> atoi s \<le> 2147483647"
  unfolding atoi_def by (rule to_int32_range)

lemma scan_digits_append:
  "\<forall>c \<in> set xs. isdigit c \<Longrightarrow> scan_digits acc (xs @ ys) = scan_digits (scan_digits acc xs) ys"
  by (induction xs arbitrary: acc) auto

lemma show_nat_digits: "\<forall>c \<in> set (show_nat n). isdigit c"
proof (induction n rule: show_nat.induct)
  case (1 n)
  then show ?case by (subst show_nat.simps) auto
qed

lemma show_nat_nonempty: "show_nat n \<noteq> []"
  by (subst show_nat.simps) simp

lemma scan_show_nat: "scan_digits 0 (show_nat n) = int n"
proof (induction n rule: show_nat.induct)
  case (1 n)
  show ?case
  proof (cases "n < 10")
    case True
    then show ?thesis by (subst show_nat.simps) simp
  next
    case False
    with "1.IH" have "scan_digits 0 (show_nat (n div 10)) = int (n div 10)" by simp
    moreover have "10 * int (n div 10) + int (n mod 10) = int n"
      by (simp add: zdiv_int zmod_int)
    ultimately show ?thesis
      using False by (subst show_nat.simps) (simp add: scan_digits_append show_nat_digits)
  qed
qed

lemma show_nat_Cons: "\<exists>c cs. show_nat n = c # cs \<and> isdigit c"
  using show_nat_nonempty [of n] show_nat_digits [of n] by (cases "show_nat n") auto

lemma is_cstr_show_nat: "is_cstr (show_nat n)"
  using show_nat_digits [of n] unfolding is_cstr_def by (auto simp: isdigit_def code_of_def)

lemma skip_digit: "isdigit c \<Longrightarrow> skip isspace (c # cs) = c # cs"
  by (simp add: isdigit_not_space)

lemma isdigit_not_sign: "isdigit c \<Longrightarrow> c \<noteq> CHR ''-'' \<and> c \<noteq> CHR ''+''"
  by (auto simp: isdigit_def code_of_def)

lemma strtol_show_int:
  assumes "long_min \<le> i" and "i \<le> long_max"
  shows "strtol (show_int i) = i"
proof (cases "i < 0")
  case True
  then have "skip isspace (show_int i) = CHR ''-'' # show_nat (nat (- i))"
    by (simp add: show_int_def isspace_def code_of_def)
  with True assms show ?thesis
    by (simp add: strtol_def scan_show_nat clamp_long_def)
next
  case False
  obtain c cs where c: "show_nat (nat i) = c # cs" and d: "isdigit c"
    using show_nat_Cons by blast
  from c d False have "skip isspace (show_int i) = c # cs"
    by (simp add: show_int_def skip_digit isdigit_not_space)
  moreover have "scan_digits 0 (c # cs) = i"
    using scan_show_nat [of "nat i"] c False by simp
  ultimately show ?thesis
    using assms isdigit_not_sign [OF d] by (simp add: strtol_def clamp_long_def)
qed

lemma atoi_show_int:
  assumes "- 2147483648 \<le> i" and "i \<le> 2147483647"
  shows "atoi (show_int i) = i"
  using assms by (simp add: atoi_def strtol_show_int long_min_def long_max_def to_int32_id)

subsection \<open>Options and lists\<close>

lemma option_eqI:
  assumes "\<And>q. x = Some q \<longleftrightarrow> y = Some q"
  shows "x = y"
  using assms by (metis option.exhaust)

lemma map_eq_Ball:
  assumes "map f xs = map f ys" and "\<forall>x \<in> set xs. P (f x)"
  shows "\<forall>y \<in> set ys. P (f y)"
proof -
  have "\<forall>z \<in> set (map f xs). P z" using assms(2) by simp
  then have "\<forall>z \<in> set (map f ys). P z" by (simp only: assms(1))
  then show ?thesis by simp
qed

fun remove_first :: "('a \<Rightarrow> bool) \<Rightarrow> 'a list \<Rightarrow> 'a list" where
  "remove_first P [] = []"
| "remove_first P (x # xs) = (if P x then xs else x # remove_first P xs)"

lemma set_remove_first: "set (remove_first P xs) \<subseteq> set xs"
  by (induction xs) auto

lemma length_remove_first:
  "length (remove_first P xs) = (if \<exists>x \<in> set xs. P x then length xs - 1 else length xs)"
  by (induction xs) (use length_pos_if_in_set in fastforce)+

lemma remove_first_id: "\<forall>x \<in> set xs. \<not> P x \<Longrightarrow> remove_first P xs = xs"
  by (induction xs) auto

lemma distinct_remove_first: "distinct xs \<Longrightarrow> distinct (remove_first P xs)"
  by (induction xs) (use set_remove_first in fastforce)+

lemma remove_first_find:
  "find P xs = Some x \<Longrightarrow> \<exists>us vs. xs = us @ x # vs \<and> remove_first P xs = us @ vs \<and> P x"
proof (induction xs)
  case Nil
  then show ?case by simp
next
  case (Cons y ys)
  show ?case
  proof (cases "P y")
    case True
    with Cons.prems show ?thesis by (auto intro: exI [of _ "[]"])
  next
    case False
    with Cons.prems Cons.IH obtain us vs
      where "ys = us @ x # vs" "remove_first P ys = us @ vs" "P x" by auto
    with False have "y # ys = (y # us) @ x # vs \<and> remove_first P (y # ys) = (y # us) @ vs \<and> P x"
      by simp
    then show ?thesis by blast
  qed
qed

end
