(* ===== verification/Queues.thy ===== *)
theory Queues
  imports Prelude
begin

section \<open>Linked queues\<close>

text \<open>
  What the thread pool and the reversal worker share: singly linked lists of nodes in a heap, the
  predicate \<open>chain\<close> that says which addresses a head pointer leads through, the effect of the pointer
  assignments on it, and the interface of a FIFO queue as a locale, which the pool's job queue
  implements.
\<close>

fun chain :: "(nat \<Rightarrow> 'n option) \<Rightarrow> ('n \<Rightarrow> nat option) \<Rightarrow> nat option \<Rightarrow> nat list \<Rightarrow> bool" where
  "chain h nx p [] \<longleftrightarrow> p = None"
| "chain h nx p (a # as) \<longleftrightarrow> p = Some a \<and> (case h a of None \<Rightarrow> False | Some n \<Rightarrow> chain h nx (nx n) as)"

lemma chain_unique: "chain h nx p as \<Longrightarrow> chain h nx p bs \<Longrightarrow> as = bs"
proof (induction as arbitrary: p bs)
  case Nil
  then show ?case by (cases bs) auto
next
  case (Cons a as)
  then show ?case by (cases bs) (auto split: option.splits)
qed

lemma chain_dom: "chain h nx p as \<Longrightarrow> a \<in> set as \<Longrightarrow> h a \<noteq> None"
  by (induction as arbitrary: p) (auto split: option.splits)

lemma chain_head: "chain h nx p as \<Longrightarrow> p = (case as of [] \<Rightarrow> None | a # _ \<Rightarrow> Some a)"
  by (cases as) auto

lemma chain_cong:
  assumes "chain h nx p as" and "\<forall>a \<in> set as. map_option nx (h' a) = map_option nx (h a)"
  shows "chain h' nx p as"
  using assms
proof (induction as arbitrary: p)
  case Nil
  then show ?case by simp
next
  case (Cons a as)
  obtain n where n: "h a = Some n" and c: "chain h nx (nx n) as" and p: "p = Some a"
    using Cons.prems(1) by (auto split: option.splits)
  obtain n' where "h' a = Some n'" "nx n' = nx n"
    using Cons.prems(2) n by auto
  with Cons.IH [OF c] Cons.prems(2) p show ?case by auto
qed

lemma chain_fresh: "chain h nx p as \<Longrightarrow> a \<notin> set as \<Longrightarrow> chain (h(a := v)) nx p as"
  by (erule chain_cong) auto

lemma chain_nth:
  "chain h nx p as \<Longrightarrow> i < length as \<Longrightarrow>
     \<exists>n. h (as ! i) = Some n \<and> nx n = (if Suc i < length as then Some (as ! Suc i) else None)"
proof (induction as arbitrary: p i)
  case Nil
  then show ?case by simp
next
  case (Cons a as)
  then obtain n where n: "h a = Some n" and c: "chain h nx (nx n) as" by (auto split: option.splits)
  show ?case
  proof (cases i)
    case 0
    with n chain_head [OF c] show ?thesis by (cases as) auto
  next
    case (Suc j)
    with Cons.IH [OF c, of j] Cons.prems(2) show ?thesis by (auto split: if_splits)
  qed
qed

lemma chainI:
  assumes "p = (case as of [] \<Rightarrow> None | a # _ \<Rightarrow> Some a)"
    and "\<And>i. i < length as \<Longrightarrow> \<exists>n. h (as ! i) = Some n \<and>
        nx n = (if Suc i < length as then Some (as ! Suc i) else None)"
  shows "chain h nx p as"
  using assms
proof (induction as arbitrary: p)
  case Nil
  then show ?case by simp
next
  case (Cons a as)
  obtain n where n: "h a = Some n" "nx n = (case as of [] \<Rightarrow> None | b # _ \<Rightarrow> Some b)"
    using Cons.prems(2) [of 0] by (cases as) auto
  have "chain h nx (nx n) as"
  proof (rule Cons.IH [OF n(2)])
    fix i assume "i < length as"
    then show "\<exists>n. h (as ! i) = Some n \<and> nx n = (if Suc i < length as then Some (as ! Suc i) else None)"
      using Cons.prems(2) [of "Suc i"] by (auto split: if_splits)
  qed
  with n(1) Cons.prems(1) show ?case by simp
qed

lemma chain_snoc:
  \<comment> \<open>the assignment \<open>last->next = t\<close> for a fresh node\<close>
  assumes "chain h nx p as" and "distinct as" and "as \<noteq> []" and "t \<notin> set as"
    and "h t = Some m" and "nx m = None"
    and "h (last as) = Some n" and "nx n' = Some t"
  shows "chain (h(last as \<mapsto> n')) nx p (as @ [t])"
proof (rule chainI)
  show "p = (case as @ [t] of [] \<Rightarrow> None | a # _ \<Rightarrow> Some a)"
    using chain_head [OF assms(1)] assms(3) by (cases as) auto
  fix i assume i: "i < length (as @ [t])"
  consider "Suc i < length as" | "Suc i = length as" | "i = length as" using i by force
  then show "\<exists>n. (h(last as \<mapsto> n')) ((as @ [t]) ! i) = Some n \<and>
      nx n = (if Suc i < length (as @ [t]) then Some ((as @ [t]) ! Suc i) else None)"
  proof cases
    case 1
    then have "as ! i \<noteq> last as"
      using assms(2,3) by (simp add: last_conv_nth nth_eq_iff_index_eq)
    with 1 chain_nth [OF assms(1), of i] show ?thesis by (simp add: nth_append)
  next
    case 2
    then have "as ! i = last as" using assms(3) by (metis diff_Suc_1 last_conv_nth)
    with 2 assms(8) show ?thesis by (simp add: nth_append)
  next
    case 3
    have "t \<noteq> last as" using assms(3,4) by auto
    with 3 assms(5,6) show ?thesis by (simp add: nth_append)
  qed
qed

lemma chain_unlink:
  \<comment> \<open>the assignment \<open>prev->next = cur->next\<close>\<close>
  assumes "chain h nx p (us @ x # c # vs)" and "distinct (us @ x # c # vs)"
    and "h x = Some n" and "h c = Some m" and "nx n' = nx m"
  shows "chain (h(x \<mapsto> n')) nx p (us @ x # vs)"
proof (rule chainI)
  show "p = (case us @ x # vs of [] \<Rightarrow> None | a # _ \<Rightarrow> Some a)"
    using chain_head [OF assms(1)] by (cases us) auto
  let ?as = "us @ x # c # vs"
  let ?k = "length us"
  have m: "nx m = (case vs of [] \<Rightarrow> None | v # _ \<Rightarrow> Some v)"
    using chain_nth [OF assms(1), of "Suc ?k"] assms(4) by (cases vs) (auto simp: nth_append)
  fix i assume i: "i < length (us @ x # vs)"
  consider "i < ?k" | "i = ?k" | "?k < i" by linarith
  then show "\<exists>n. (h(x \<mapsto> n')) ((us @ x # vs) ! i) = Some n \<and>
      nx n = (if Suc i < length (us @ x # vs) then Some ((us @ x # vs) ! Suc i) else None)"
  proof cases
    case 1
    then have "us ! i \<noteq> x" using assms(2) nth_mem by fastforce
    moreover have "Suc i < ?k \<or> Suc i = ?k" using 1 by linarith
    ultimately show ?thesis
      using 1 chain_nth [OF assms(1), of i] by (auto simp: nth_append)
  next
    case 2
    with m assms(5) show ?thesis by (cases vs) (auto simp: nth_append)
  next
    case 3
    then obtain j where j: "i = Suc (?k + j)" using less_imp_Suc_add by auto
    with i have jl: "j < length vs" by simp
    then have "vs ! j \<noteq> x" using assms(2) nth_mem by fastforce
    with jl j chain_nth [OF assms(1), of "Suc (Suc (?k + j))"] show ?thesis
      by (auto simp: nth_append)
  qed
qed

subsection \<open>The interface of a FIFO queue\<close>

text \<open>
  A queue that serves in order: \<open>push\<close> appends a fresh element, and \<open>pop\<close> yields the first element.
\<close>

locale fifo_queue =
  fixes ok :: "'q \<Rightarrow> bool"
    and items :: "'q \<Rightarrow> nat list"
    and fresh :: "nat \<Rightarrow> 'q \<Rightarrow> bool"
    and push :: "nat \<Rightarrow> 'q \<Rightarrow> 'q"
  assumes push_ok: "ok q \<Longrightarrow> fresh x q \<Longrightarrow> ok (push x q)"
    and push_items: "ok q \<Longrightarrow> fresh x q \<Longrightarrow> items (push x q) = items q @ [x]"
begin

fun pushes :: "nat list \<Rightarrow> 'q \<Rightarrow> 'q" where
  "pushes [] q = q"
| "pushes (x # xs) q = pushes xs (push x q)"

fun all_fresh :: "nat list \<Rightarrow> 'q \<Rightarrow> bool" where
  "all_fresh [] q \<longleftrightarrow> True"
| "all_fresh (x # xs) q \<longleftrightarrow> fresh x q \<and> all_fresh xs (push x q)"

lemma pushes_items:
  assumes "ok q" and "all_fresh xs q"
  shows "ok (pushes xs q) \<and> items (pushes xs q) = items q @ xs"
  using assms by (induction xs arbitrary: q) (simp_all add: push_ok push_items)

end

locale fifo_server = fifo_queue +
  fixes pop :: "'a \<Rightarrow> nat option \<times> 'a"
  assumes pop_empty: "ok q \<Longrightarrow> items q = [] \<Longrightarrow> pop q = (None, q)"
    and pop_first: "ok q \<Longrightarrow> items q = x # xs \<Longrightarrow>
          fst (pop q) = Some x \<and> ok (snd (pop q)) \<and> items (snd (pop q)) = xs"
begin

fun pops :: "nat \<Rightarrow> 'a \<Rightarrow> nat list \<times> 'a" where
  "pops 0 q = ([], q)"
| "pops (Suc n) q =
     (case pop q of
        (None, q) \<Rightarrow> ([], q)
      | (Some x, q) \<Rightarrow> (let (xs, q) = pops n q in (x # xs, q)))"

lemma pops_in_order:
  assumes "ok q"
  shows "fst (pops n q) = take n (items q) \<and> ok (snd (pops n q)) \<and> items (snd (pops n q)) = drop n (items q)"
  using assms
proof (induction n arbitrary: q)
  case 0
  then show ?case by simp
next
  case (Suc n)
  show ?case
  proof (cases "items q")
    case Nil
    with Suc.prems pop_empty show ?thesis by simp
  next
    case (Cons x xs)
    obtain q' where p: "pop q = (Some x, q')" "ok q'" "items q' = xs"
      using pop_first [OF Suc.prems Cons] by (cases "pop q") auto
    with Suc.IH [OF p(2)] Cons show ?thesis by (simp add: case_prod_beta)
  qed
qed

lemma first_in_first_out:
  assumes "ok q" and "items q = []" and "all_fresh xs q"
  shows "fst (pops (length xs) (pushes xs q)) = xs"
  using pushes_items [OF assms(1,3)] pops_in_order [of "pushes xs q" "length xs"] assms(2) by simp

end

end
