(* ===== verification/Metrics.thy ===== *)
theory Metrics
  imports Prelude
begin

section \<open>Metrics counters (server/metrics.c)\<close>

text \<open>
  The process-wide counters of \<open>server/metrics.c\<close>: each is an \<open>unsigned long\<close> that
  \<open>__sync_fetch_and_add\<close> increments atomically, so a \<^typ>\<open>64 word\<close> whose addition wraps.
  The increments of different counters commute, and a counter read as a number counts its
  increments as long as there are fewer than \<open>2 ^ 64\<close> of them.
\<close>

type_synonym ulong = "64 word"

record metrics =
  g_total :: ulong
  g_approved :: ulong
  g_declined :: ulong
  g_server_busy :: ulong
  g_risk_declined :: ulong
  g_2pc_committed :: ulong
  g_2pc_aborted :: ulong
  g_cb_short_circuit :: ulong
  g_rev_enq :: ulong
  g_rev_ok :: ulong
  g_rev_fail :: ulong

definition metrics_init :: "metrics \<Rightarrow> metrics" where
  "metrics_init m =
     m\<lparr>g_total := 0, g_approved := 0, g_declined := 0, g_server_busy := 0, g_risk_declined := 0,
       g_2pc_committed := 0, g_2pc_aborted := 0, g_cb_short_circuit := 0,
       g_rev_enq := 0, g_rev_ok := 0, g_rev_fail := 0\<rparr>"

definition metrics_inc_total :: "metrics \<Rightarrow> metrics" where
  "metrics_inc_total m = m\<lparr>g_total := g_total m + 1\<rparr>"

definition metrics_inc_approved :: "metrics \<Rightarrow> metrics" where
  "metrics_inc_approved m = m\<lparr>g_approved := g_approved m + 1\<rparr>"

definition metrics_inc_declined :: "metrics \<Rightarrow> metrics" where
  "metrics_inc_declined m = m\<lparr>g_declined := g_declined m + 1\<rparr>"

definition metrics_inc_server_busy :: "metrics \<Rightarrow> metrics" where
  "metrics_inc_server_busy m = m\<lparr>g_server_busy := g_server_busy m + 1\<rparr>"

definition metrics_inc_risk_declined :: "metrics \<Rightarrow> metrics" where
  "metrics_inc_risk_declined m = m\<lparr>g_risk_declined := g_risk_declined m + 1\<rparr>"

definition metrics_inc_2pc_committed :: "metrics \<Rightarrow> metrics" where
  "metrics_inc_2pc_committed m = m\<lparr>g_2pc_committed := g_2pc_committed m + 1\<rparr>"

definition metrics_inc_2pc_aborted :: "metrics \<Rightarrow> metrics" where
  "metrics_inc_2pc_aborted m = m\<lparr>g_2pc_aborted := g_2pc_aborted m + 1\<rparr>"

definition metrics_inc_cb_short_circuit :: "metrics \<Rightarrow> metrics" where
  "metrics_inc_cb_short_circuit m = m\<lparr>g_cb_short_circuit := g_cb_short_circuit m + 1\<rparr>"

definition metrics_inc_reversal_enqueued :: "metrics \<Rightarrow> metrics" where
  "metrics_inc_reversal_enqueued m = m\<lparr>g_rev_enq := g_rev_enq m + 1\<rparr>"

definition metrics_inc_reversal_succeeded :: "metrics \<Rightarrow> metrics" where
  "metrics_inc_reversal_succeeded m = m\<lparr>g_rev_ok := g_rev_ok m + 1\<rparr>"

definition metrics_inc_reversal_failed :: "metrics \<Rightarrow> metrics" where
  "metrics_inc_reversal_failed m = m\<lparr>g_rev_fail := g_rev_fail m + 1\<rparr>"

definition metrics_snapshot :: "metrics \<Rightarrow> ulong \<times> ulong \<times> ulong \<times> ulong" where
  "metrics_snapshot m = (g_total m, g_approved m, g_declined m, g_server_busy m)"

lemmas metrics_inc_defs =
  metrics_inc_total_def metrics_inc_approved_def metrics_inc_declined_def
  metrics_inc_server_busy_def metrics_inc_risk_declined_def metrics_inc_2pc_committed_def
  metrics_inc_2pc_aborted_def metrics_inc_cb_short_circuit_def metrics_inc_reversal_enqueued_def
  metrics_inc_reversal_succeeded_def metrics_inc_reversal_failed_def

definition metrics_zero :: metrics where
  \<comment> \<open>the static initialisers\<close>
  "metrics_zero = \<lparr>g_total = 0, g_approved = 0, g_declined = 0, g_server_busy = 0,
     g_risk_declined = 0, g_2pc_committed = 0, g_2pc_aborted = 0, g_cb_short_circuit = 0,
     g_rev_enq = 0, g_rev_ok = 0, g_rev_fail = 0\<rparr>"

lemma metrics_init_zero: "metrics_init m = metrics_zero"
  by (simp add: metrics_init_def metrics_zero_def)

lemma unat_counter_iterate:
  fixes w :: ulong
  shows "unat (((\<lambda>x. x + 1) ^^ n) w) = (unat w + n) mod 2 ^ 64"
proof (induction n)
  case 0
  have "unat w < 2 ^ 64" using unsigned_less [of w] by simp
  then show ?case by simp
next
  case (Suc n)
  then show ?case by (simp add: unat_word_ariths mod_Suc_eq)
qed

end
