(* ===== verification/Sys.thy ===== *)
theory Sys
  imports Metrics
begin

section \<open>The process: environment, clock, allocator and observable effects\<close>

text \<open>
  The state every component of the server shares. What the operating system answers is a
  source that is part of the state: reading number \<open>k\<close> of \<open>time(NULL)\<close> is \<open>time_src k\<close>,
  draw number \<open>k\<close> of \<open>rand()\<close> is \<open>rand_src k\<close>, and allocation number \<open>k\<close> succeeds when
  \<open>alloc_src k\<close>; theorems hold for all sources. Successful allocations give distinct
  addresses. Effects that leave the process or that a reader of the code can observe are
  appended to \<open>trace\<close>: the JSON log lines of \<open>log_message_json\<close>, the lines of the
  transaction log file, the participant callbacks the coordinator makes, the requests to the
  clearing service, the commands given to libpq, sleeps, the bytes written to the client, and \<open>Fault\<close> events for accesses
  to freed memory. After a \<open>Fault\<close> the C program has no defined behaviour: the model goes on
  as if the access had no effect, and a theorem about a run that contains a fault describes this
  continuation; \<open>txn_commit_abort_use_after_free\<close>, \<open>begin_failure_uses_freed_context\<close> and
  \<open>split_body_crashes\<close> say where faults occur.
  Components add their globals by extending the record \<open>sys\<close>.
\<close>

datatype pgptr = Conn nat | Cast_dbc nat
  \<comment> \<open>a \<open>PGconn *\<close>: a connection that libpq returned, or the address of a \<open>DBConnection\<close> cast to it\<close>

datatype callback = Prepare | Commit | Abort

datatype event =
    Log string string "string option" string int
      \<comment> \<open>\<open>log_message_json(level, event, request_id, status, latency_us)\<close>\<close>
  | TxnLog int string string string
      \<comment> \<open>one line \<open>time|transaction_id|state|action\<close> of \<open>logs/transactions.log\<close>\<close>
  | Call string string callback int
      \<comment> \<open>participant name, transaction id, callback, its result\<close>
  | Usleep int
  | Request string int
      \<comment> \<open>a request to the clearing service: payload and result\<close>
  | Sql pgptr string "string list"
      \<comment> \<open>a command given to \<open>PQexec\<close> or \<open>PQexecParams\<close>, with its parameters\<close>
  | Write string
      \<comment> \<open>bytes written to the client\<close>
  | Fault string nat
      \<comment> \<open>access to freed memory: the kind of object and its address\<close>

record sys =
  env_src :: "string \<Rightarrow> string option"
  time_src :: "nat \<Rightarrow> int"
  time_calls :: nat
  rand_src :: "nat \<Rightarrow> int"
  rand_calls :: nat
  alloc_src :: "nat \<Rightarrow> bool"
  allocs :: nat
  trace :: "event list"
  metrics :: metrics

definition time_null :: "'a sys_scheme \<Rightarrow> int \<times> 'a sys_scheme" where
  "time_null s = (time_src s (time_calls s), s\<lparr>time_calls := Suc (time_calls s)\<rparr>)"

definition c_rand :: "'a sys_scheme \<Rightarrow> int \<times> 'a sys_scheme" where
  "c_rand s = (rand_src s (rand_calls s), s\<lparr>rand_calls := Suc (rand_calls s)\<rparr>)"

definition malloc :: "'a sys_scheme \<Rightarrow> nat option \<times> 'a sys_scheme" where
  "malloc s = (if alloc_src s (allocs s) then Some (allocs s) else None,
               s\<lparr>allocs := Suc (allocs s)\<rparr>)"

definition emit :: "event \<Rightarrow> 'a sys_scheme \<Rightarrow> 'a sys_scheme" where
  "emit e s = s\<lparr>trace := trace s @ [e]\<rparr>"

definition logj :: "string \<Rightarrow> string \<Rightarrow> string option \<Rightarrow> string \<Rightarrow> 'a sys_scheme \<Rightarrow> 'a sys_scheme" where
  \<comment> \<open>\<open>log_message_json(level, event, request_id, status, -1)\<close>\<close>
  "logj lvl ev rid st s = emit (Log lvl ev rid st (- 1)) s"

definition with_metrics :: "(metrics \<Rightarrow> metrics) \<Rightarrow> 'a sys_scheme \<Rightarrow> 'a sys_scheme" where
  "with_metrics f s = s\<lparr>metrics := f (metrics s)\<rparr>"

definition no_fault :: "event list \<Rightarrow> bool" where
  "no_fault es \<longleftrightarrow> (\<forall>k a. Fault k a \<notin> set es)"

lemmas sys_defs = time_null_def c_rand_def malloc_def emit_def logj_def with_metrics_def

lemma trace_emit [simp]: "trace (emit e s) = trace s @ [e]"
  by (simp add: emit_def)

lemma trace_logj [simp]: "trace (logj l e r st s) = trace s @ [Log l e r st (- 1)]"
  by (simp add: logj_def)

lemma trace_with_metrics [simp]: "trace (with_metrics f s) = trace s"
  by (simp add: with_metrics_def)

lemma trace_time_null [simp]: "trace (snd (time_null s)) = trace s"
  by (simp add: time_null_def)

lemma metrics_emit [simp]: "metrics (emit e s) = metrics s"
  by (simp add: emit_def)

lemma metrics_logj [simp]: "metrics (logj l e r st s) = metrics s"
  by (simp add: logj_def)

lemma metrics_with_metrics [simp]: "metrics (with_metrics f s) = f (metrics s)"
  by (simp add: with_metrics_def)

lemma metrics_time_null [simp]: "metrics (snd (time_null s)) = metrics s"
  by (simp add: time_null_def)

lemma no_fault_simps [simp]:
  "no_fault []"
  "no_fault (es @ fs) \<longleftrightarrow> no_fault es \<and> no_fault fs"
  "no_fault (Log l e r st n # es) \<longleftrightarrow> no_fault es"
  "no_fault (TxnLog i x y z # es) \<longleftrightarrow> no_fault es"
  "no_fault (Call nm t cb n # es) \<longleftrightarrow> no_fault es"
  "no_fault (Usleep n # es) \<longleftrightarrow> no_fault es"
  "no_fault (Request p n # es) \<longleftrightarrow> no_fault es"
  "no_fault (Write w # es) \<longleftrightarrow> no_fault es"
  "no_fault (Sql pc q vs # es) \<longleftrightarrow> no_fault es"
  "\<not> no_fault (Fault k a # es)"
  by (auto simp: no_fault_def)

end
