(* ===== verification/Threadpool.thy ===== *)
theory Threadpool
  imports Queues Sys "HOL-Library.Multiset"
begin

section \<open>The thread pool (server/threadpool.c)\<close>

text \<open>
  The pool's bounded job queue, a linked list with head and tail pointers in the heap \<open>jobs\<close>, and
  the pool as a concurrent system. Code under the pool's mutex is one atomic step:
  \<open>worker_locked\<close> is the worker's critical section after the lock is taken, \<open>tp_enqueue\<close> the one of
  \<open>threadpool_submit\<close>. The system state adds where each worker is (about to take the lock, asleep on
  the condition variable, running a job, or gone) and, for the statements, the jobs accepted,
  started and executed so far.
\<close>

record job =
  fn :: nat
  arg :: nat
  jnext :: "nat option"

record pool =
  num_threads :: nat
  head :: "nat option"
  tail :: "nat option"
  qsize :: nat
  cap :: nat
  shutting_down :: bool
  jobs :: "nat \<Rightarrow> job option"

definition threadpool_create ::
    "int \<Rightarrow> int \<Rightarrow> (nat \<Rightarrow> bool) \<Rightarrow> 'a sys_scheme \<Rightarrow> pool option \<times> 'a sys_scheme" where
  \<comment> \<open>\<open>spawn i\<close>: whether the \<open>i\<close>-th \<open>pthread_create\<close> succeeds\<close>
  "threadpool_create n queue_cap spawn s =
     (let n = (if n \<le> 0 then 4 else n) in
      case malloc s of
        (None, s) \<Rightarrow> (None, s)
      | (Some _, s) \<Rightarrow>
          (case malloc s of
             (None, s) \<Rightarrow> (None, s)
           | (Some _, s) \<Rightarrow>
               if list_all spawn [0..<nat n]
               then (Some \<lparr>num_threads = nat n, head = None, tail = None, qsize = 0,
                           cap = (if queue_cap > 0 then nat queue_cap else 1024),
                           shutting_down = False, jobs = (\<lambda>_. None)\<rparr>, s)
               else (None, s)))"

definition tp_enqueue :: "nat \<Rightarrow> pool \<Rightarrow> pool" where
  \<comment> \<open>\<open>if (tail) tail->next = job; else head = job; tail = job; size++\<close>\<close>
  "tp_enqueue j p =
     (let p = (case tail p of
                 Some t \<Rightarrow> p\<lparr>jobs := (jobs p)(t := map_option (\<lambda>n. n\<lparr>jnext := Some j\<rparr>) (jobs p t))\<rparr>
               | None \<Rightarrow> p\<lparr>head := Some j\<rparr>)
      in p\<lparr>tail := Some j, qsize := qsize p + 1\<rparr>)"

definition tp_submit_locked :: "nat \<Rightarrow> pool \<Rightarrow> int \<times> pool" where
  \<comment> \<open>the critical section of \<open>threadpool_submit\<close>\<close>
  "tp_submit_locked j p = (if qsize p \<ge> cap p then (- 1, p) else (0, tp_enqueue j p))"

definition threadpool_submit ::
    "nat option \<Rightarrow> nat \<Rightarrow> pool option \<Rightarrow> 'a sys_scheme \<Rightarrow> int \<times> pool option \<times> 'a sys_scheme" where
  "threadpool_submit f x pool s =
     (case (pool, f) of
        (Some p, Some g) \<Rightarrow>
          (case malloc s of
             (None, s) \<Rightarrow> (- 1, pool, s)
           | (Some j, s) \<Rightarrow>
               let (rc, p) = tp_submit_locked j (p\<lparr>jobs := (jobs p)(j \<mapsto> \<lparr>fn = g, arg = x, jnext = None\<rparr>)\<rparr>) in
               if rc \<noteq> 0 then (- 1, Some (p\<lparr>jobs := (jobs p)(j := None)\<rparr>), s)
               else (0, Some p, s))
      | _ \<Rightarrow> (- 1, pool, s))"

definition worker_pop :: "pool \<Rightarrow> nat option \<times> pool" where
  "worker_pop p =
     (case head p of
        None \<Rightarrow> (None, p)
      | Some j \<Rightarrow>
          let p = p\<lparr>head := (case jobs p j of None \<Rightarrow> None | Some n \<Rightarrow> jnext n)\<rparr>;
              p = (if head p = None then p\<lparr>tail := None\<rparr> else p)
          in (Some j, p\<lparr>qsize := qsize p - 1\<rparr>))"

datatype decision = Go_wait | Leave | Took "nat option"

definition worker_locked :: "pool \<Rightarrow> decision \<times> pool" where
  \<comment> \<open>what a worker that holds the lock decides: wait, leave the loop, or take a job\<close>
  "worker_locked p =
     (if \<not> shutting_down p \<and> qsize p = 0 then (Go_wait, p)
      else if shutting_down p \<and> qsize p = 0 then (Leave, p)
      else let (j, p) = worker_pop p in (Took j, p))"

fun walk :: "nat \<Rightarrow> (nat \<Rightarrow> job option) \<Rightarrow> nat option \<Rightarrow> nat list" where
  "walk 0 h q = []"
| "walk (Suc n) h None = []"
| "walk (Suc n) h (Some a) = a # (case h a of None \<Rightarrow> [] | Some j \<Rightarrow> walk n h (jnext j))"

definition queued :: "pool \<Rightarrow> nat list" where
  \<comment> \<open>the addresses in the queue, first to last\<close>
  "queued p = walk (qsize p) (jobs p) (head p)"

definition threadpool_destroy :: "pool \<Rightarrow> pool" where
  \<comment> \<open>after the flag is set and every worker is joined: the jobs still queued are freed, not run\<close>
  "threadpool_destroy p =
     p\<lparr>shutting_down := True, jobs := (\<lambda>a. if a \<in> set (queued p) then None else jobs p a),
       head := None, tail := None\<rparr>"

subsection \<open>The queue invariant\<close>

definition pool_ok :: "pool \<Rightarrow> bool" where
  "pool_ok p \<longleftrightarrow> chain (jobs p) jnext (head p) (queued p) \<and> distinct (queued p) \<and>
     length (queued p) = qsize p \<and> qsize p \<le> cap p \<and>
     tail p = (if queued p = [] then None else Some (last (queued p)))"

definition enqueueable :: "nat \<Rightarrow> pool \<Rightarrow> bool" where
  "enqueueable j p \<longleftrightarrow> j \<notin> set (queued p) \<and> qsize p < cap p \<and>
     (case jobs p j of None \<Rightarrow> False | Some n \<Rightarrow> jnext n = None)"

lemma walk_chain: "chain h jnext q as \<Longrightarrow> walk (length as) h q = as"
  by (induction as arbitrary: q) (auto split: option.splits)

lemma queued_eqI: "chain (jobs p) jnext (head p) as \<Longrightarrow> length as = qsize p \<Longrightarrow> queued p = as"
  by (metis queued_def walk_chain)

lemma pool_okI:
  assumes "chain (jobs p) jnext (head p) as" and "distinct as" and "length as = qsize p"
    and "qsize p \<le> cap p" and "tail p = (if as = [] then None else Some (last as))"
  shows "pool_ok p" and "queued p = as"
  using assms queued_eqI [OF assms(1,3)] by (simp_all add: pool_ok_def)

lemma tp_enqueue_ok:
  assumes "pool_ok p" and "enqueueable j p"
  shows "pool_ok (tp_enqueue j p)" and "queued (tp_enqueue j p) = queued p @ [j]"
proof -
  let ?as = "queued p"
  have p: "chain (jobs p) jnext (head p) ?as" "distinct ?as" "length ?as = qsize p"
    "tail p = (if ?as = [] then None else Some (last ?as))"
    using assms(1) by (simp_all add: pool_ok_def)
  obtain m where j: "j \<notin> set ?as" "qsize p < cap p" "jobs p j = Some m" "jnext m = None"
    using assms(2) by (auto simp: enqueueable_def split: option.splits)
  have "pool_ok (tp_enqueue j p) \<and> queued (tp_enqueue j p) = ?as @ [j]"
  proof (cases "?as = []")
    case True
    then have "tp_enqueue j p = p\<lparr>head := Some j, tail := Some j, qsize := qsize p + 1\<rparr>"
      using p(4) by (simp add: tp_enqueue_def)
    moreover have "qsize p = 0" using True p(3) by simp
    ultimately show ?thesis
      using pool_okI [of "tp_enqueue j p" "[j]"] True j by simp
  next
    case False
    then obtain n where n: "jobs p (last ?as) = Some n"
      using chain_dom [OF p(1)] last_in_set by blast
    let ?n = "n\<lparr>jnext := Some j\<rparr>"
    have e: "tp_enqueue j p = p\<lparr>jobs := (jobs p)(last ?as \<mapsto> ?n), tail := Some j, qsize := qsize p + 1\<rparr>"
      using False p(4) n by (simp add: tp_enqueue_def)
    have "chain ((jobs p)(last ?as \<mapsto> ?n)) jnext (head p) (?as @ [j])"
      by (rule chain_snoc [OF p(1,2) False j(1,3,4) n]) simp
    then show ?thesis
      using pool_okI [of "tp_enqueue j p" "?as @ [j]"] p(2,3) j by (simp add: e)
  qed
  then show "pool_ok (tp_enqueue j p)" "queued (tp_enqueue j p) = ?as @ [j]" by simp_all
qed

lemma worker_pop_empty: "pool_ok p \<Longrightarrow> queued p = [] \<Longrightarrow> worker_pop p = (None, p)"
  by (simp add: pool_ok_def worker_pop_def)

lemma worker_pop_first:
  assumes "pool_ok p" and "queued p = x # xs"
  shows "fst (worker_pop p) = Some x \<and> pool_ok (snd (worker_pop p)) \<and> queued (snd (worker_pop p)) = xs"
proof -
  have p: "chain (jobs p) jnext (head p) (x # xs)" "distinct (x # xs)" "length (x # xs) = qsize p"
    "tail p = Some (last (x # xs))" "qsize p \<le> cap p"
    using assms by (simp_all add: pool_ok_def)
  then obtain n where n: "jobs p x = Some n" "head p = Some x" and c: "chain (jobs p) jnext (jnext n) xs"
    by (auto split: option.splits)
  have hd: "jnext n = None \<longleftrightarrow> xs = []" using chain_head [OF c] by (cases xs) auto
  have e: "worker_pop p = (Some x, p\<lparr>head := jnext n, tail := (if xs = [] then None else tail p), qsize := qsize p - 1\<rparr>)"
    using n hd by (simp add: worker_pop_def)
  let ?p = "snd (worker_pop p)"
  have "chain (jobs ?p) jnext (head ?p) xs" "length xs = qsize ?p" "qsize ?p \<le> cap ?p"
    "tail ?p = (if xs = [] then None else Some (last xs))"
    using c p by (simp_all add: e)
  with pool_okI [of ?p xs] p(2) show ?thesis by (simp add: e)
qed

interpretation jobq: fifo_server pool_ok queued enqueueable tp_enqueue worker_pop
  by unfold_locales (simp_all add: tp_enqueue_ok worker_pop_empty worker_pop_first)

text \<open>
  The job queue is first in, first out and bounded: jobs enqueued one after another on an empty
  queue come out of it in the same order, whatever their number up to the capacity, and neither
  operation breaks the queue's invariant (head, tail, links and size agree, no node twice, size at
  most capacity).
\<close>

theorem job_queue_fifo:
  assumes "pool_ok p" and "queued p = []" and "jobq.all_fresh js p"
  shows "fst (jobq.pops (length js) (jobq.pushes js p)) = js \<and> pool_ok (jobq.pushes js p)"
  using jobq.first_in_first_out [OF assms] jobq.pushes_items [OF assms(1,3)] by blast

subsection \<open>The pool as a concurrent system\<close>

datatype worker = At_lock | Asleep | Running nat | Exited

record tp =
  pool_of :: pool
  workers :: "worker list"
  accepted :: "nat list"
  started :: "nat list"
  executed :: "nat list"
  late :: bool
    \<comment> \<open>a job was accepted after the shutdown flag was set\<close>

definition wake_one :: "nat \<Rightarrow> worker list \<Rightarrow> worker list" where
  \<comment> \<open>\<open>pthread_cond_signal\<close> wakes the sleeper \<open>i\<close>, if anyone sleeps\<close>
  "wake_one i ws = (if i < length ws \<and> ws ! i = Asleep then ws[i := At_lock] else ws)"

definition wake_all :: "worker list \<Rightarrow> worker list" where
  "wake_all ws = map (\<lambda>w. if w = Asleep then At_lock else w) ws"

definition submit_step :: "nat \<Rightarrow> nat \<Rightarrow> job \<Rightarrow> tp \<Rightarrow> tp" where
  \<comment> \<open>the critical section of \<open>threadpool_submit\<close> for a job just allocated at \<open>j\<close>\<close>
  "submit_step i j n t =
     (let (rc, p) = tp_submit_locked j ((pool_of t)\<lparr>jobs := (jobs (pool_of t))(j \<mapsto> n)\<rparr>) in
      if rc \<noteq> 0 then t\<lparr>pool_of := p\<lparr>jobs := (jobs p)(j := None)\<rparr>\<rparr>
      else t\<lparr>pool_of := p, workers := wake_one i (workers t), accepted := accepted t @ [j],
             late := late t \<or> shutting_down p\<rparr>)"

definition lock_step :: "nat \<Rightarrow> tp \<Rightarrow> tp" where
  \<comment> \<open>worker \<open>i\<close> takes the lock\<close>
  "lock_step i t =
     (case worker_locked (pool_of t) of
        (Go_wait, p) \<Rightarrow> t\<lparr>pool_of := p, workers := (workers t)[i := Asleep]\<rparr>
      | (Leave, p) \<Rightarrow> t\<lparr>pool_of := p, workers := (workers t)[i := Exited]\<rparr>
      | (Took None, p) \<Rightarrow> t\<lparr>pool_of := p, workers := (workers t)[i := At_lock]\<rparr>
      | (Took (Some j), p) \<Rightarrow> t\<lparr>pool_of := p, workers := (workers t)[i := Running j], started := started t @ [j]\<rparr>)"

definition finish_step :: "nat \<Rightarrow> nat \<Rightarrow> tp \<Rightarrow> tp" where
  \<comment> \<open>worker \<open>i\<close> returns from \<open>job->fn(job->arg)\<close> and frees the job\<close>
  "finish_step i j t =
     t\<lparr>pool_of := (pool_of t)\<lparr>jobs := (jobs (pool_of t))(j := None)\<rparr>,
       workers := (workers t)[i := At_lock], executed := executed t @ [j]\<rparr>"

definition shutdown_step :: "tp \<Rightarrow> tp" where
  "shutdown_step t = t\<lparr>pool_of := (pool_of t)\<lparr>shutting_down := True\<rparr>, workers := wake_all (workers t)\<rparr>"

definition live_job :: "nat \<Rightarrow> tp \<Rightarrow> bool" where
  \<comment> \<open>the address is in use by a job of the pool\<close>
  "live_job j t \<longleftrightarrow> j \<in> set (queued (pool_of t)) \<or> Running j \<in> set (workers t)"

inductive tp_step :: "tp \<Rightarrow> tp \<Rightarrow> bool" where
  submit: "jnext n = None \<Longrightarrow> \<not> live_job j t \<Longrightarrow>
     (Asleep \<in> set (workers t) \<Longrightarrow> i < length (workers t) \<and> workers t ! i = Asleep) \<Longrightarrow>
     tp_step t (submit_step i j n t)"
| lock: "i < length (workers t) \<Longrightarrow> workers t ! i = At_lock \<Longrightarrow> tp_step t (lock_step i t)"
| spurious: "i < length (workers t) \<Longrightarrow> workers t ! i = Asleep \<Longrightarrow>
     tp_step t (t\<lparr>workers := (workers t)[i := At_lock]\<rparr>)"
| finish: "i < length (workers t) \<Longrightarrow> workers t ! i = Running j \<Longrightarrow> tp_step t (finish_step i j t)"
| shutdown: "tp_step t (shutdown_step t)"

inductive tp_reach :: "tp \<Rightarrow> tp \<Rightarrow> bool" for t0 where
  tp_init: "tp_reach t0 t0"
| tp_next: "tp_reach t0 t \<Longrightarrow> tp_step t t' \<Longrightarrow> tp_reach t0 t'"

definition tp_start :: "pool \<Rightarrow> tp" where
  \<comment> \<open>a pool just created, its workers about to take the lock\<close>
  "tp_start p = \<lparr>pool_of = p, workers = replicate (num_threads p) At_lock, accepted = [], started = [],
     executed = [], late = False\<rparr>"

fun running :: "worker list \<Rightarrow> nat list" where
  "running [] = []"
| "running (Running j # ws) = j # running ws"
| "running (_ # ws) = running ws"

definition tp_inv :: "tp \<Rightarrow> bool" where
  "tp_inv t \<longleftrightarrow> pool_ok (pool_of t) \<and>
     started t @ queued (pool_of t) = accepted t \<and>
     mset (started t) = mset (executed t) + mset (running (workers t)) \<and>
     distinct (running (workers t) @ queued (pool_of t)) \<and>
     (\<not> shutting_down (pool_of t) \<longrightarrow> Exited \<notin> set (workers t) \<and> \<not> late t) \<and>
     (shutting_down (pool_of t) \<longrightarrow> Asleep \<notin> set (workers t) \<and>
        (Exited \<in> set (workers t) \<and> \<not> late t \<longrightarrow> queued (pool_of t) = []))"

definition tp_awake :: "tp \<Rightarrow> bool" where
  \<comment> \<open>somebody will look at the queue\<close>
  "tp_awake t \<longleftrightarrow> (\<exists>w \<in> set (workers t). w = At_lock \<or> (\<exists>j. w = Running j))"

lemma pool_ok_heap:
  assumes "pool_ok p" and "j \<notin> set (queued p)"
  shows "pool_ok (p\<lparr>jobs := (jobs p)(j := v)\<rparr>)" and "queued (p\<lparr>jobs := (jobs p)(j := v)\<rparr>) = queued p"
proof -
  let ?p = "p\<lparr>jobs := (jobs p)(j := v)\<rparr>"
  have "chain (jobs ?p) jnext (head ?p) (queued p)"
    using assms chain_fresh [of "jobs p" jnext "head p" "queued p" j v] by (simp add: pool_ok_def)
  with assms(1) pool_okI [of ?p "queued p"]
  show "pool_ok ?p" "queued ?p = queued p" by (simp_all add: pool_ok_def)
qed

lemma tp_submit_locked_ok:
  assumes "pool_ok p" and "j \<notin> set (queued p)" and "jnext n = None"
    and "tp_submit_locked j (p\<lparr>jobs := (jobs p)(j \<mapsto> n)\<rparr>) = (rc, p')"
  shows "if rc = 0 then qsize p < cap p \<and> pool_ok p' \<and> queued p' = queued p @ [j]
         else qsize p = cap p \<and> p' = p\<lparr>jobs := (jobs p)(j \<mapsto> n)\<rparr>"
    and "shutting_down p' = shutting_down p"
proof -
  let ?p = "p\<lparr>jobs := (jobs p)(j \<mapsto> n)\<rparr>"
  note h = pool_ok_heap [OF assms(1,2), of "Some n"]
  have "enqueueable j ?p" if "qsize p < cap p"
    using that assms(2,3) h(2) by (simp add: enqueueable_def)
  then show "if rc = 0 then qsize p < cap p \<and> pool_ok p' \<and> queued p' = queued p @ [j]
         else qsize p = cap p \<and> p' = ?p"
    using assms(1,4) tp_enqueue_ok [OF h(1)] h(2)
    by (auto simp: tp_submit_locked_def pool_ok_def split: if_splits)
  show "shutting_down p' = shutting_down p"
    using assms(4) by (auto simp: tp_submit_locked_def tp_enqueue_def Let_def split: if_splits option.splits)
qed

lemma running_append [simp]: "running (us @ vs) = running us @ running vs"
  by (induction us rule: running.induct) simp_all

lemma running_set: "j \<in> set (running ws) \<longleftrightarrow> Running j \<in> set ws"
  by (induction ws rule: running.induct) auto

lemma update_split:
  assumes "i < length ws"
  obtains us vs where "ws = us @ ws ! i # vs" "\<And>w. ws[i := w] = us @ w # vs"
  using id_take_nth_drop [OF assms] upd_conv_take_nth_drop [OF assms] by metis

lemma running_wake_one [simp]: "running (wake_one i ws) = running ws"
proof (cases "i < length ws \<and> ws ! i = Asleep")
  case True
  then obtain us vs where w: "ws = us @ ws ! i # vs" "\<And>w. ws[i := w] = us @ w # vs"
    using update_split by metis
  have "ws = us @ Asleep # vs" using w(1) True by simp
  then show ?thesis using True w(2) [of At_lock] by (simp add: wake_one_def)
qed (auto simp: wake_one_def)

lemma running_wake_all [simp]: "running (wake_all ws) = running ws"
  unfolding wake_all_def by (induction ws rule: running.induct) simp_all

lemma set_wake_one: "set (wake_one i ws) \<subseteq> insert At_lock (set ws)"
  by (auto simp: wake_one_def dest: set_update_subset_insert [THEN subsetD])

lemma set_wake_all: "set (wake_all ws) \<subseteq> insert At_lock (set ws - {Asleep})"
  by (auto simp: wake_all_def)

lemma submit_inv:
  assumes "tp_inv t" and "jnext n = None" and "\<not> live_job j t"
  shows "tp_inv (submit_step i j n t)"
proof -
  let ?p = "pool_of t"
  obtain rc p' where l: "tp_submit_locked j (?p\<lparr>jobs := (jobs ?p)(j \<mapsto> n)\<rparr>) = (rc, p')" by force
  have j: "j \<notin> set (queued ?p)" "j \<notin> set (running (workers t))"
    using assms(3) by (auto simp: live_job_def running_set)
  have ok: "pool_ok ?p" using assms(1) by (simp add: tp_inv_def)
  note s = tp_submit_locked_ok [OF ok j(1) assms(2) l]
  show ?thesis
  proof (cases "rc = 0")
    case True
    with s l have e: "submit_step i j n t = t\<lparr>pool_of := p', workers := wake_one i (workers t),
        accepted := accepted t @ [j], late := late t \<or> shutting_down ?p\<rparr>"
      and q: "pool_ok p'" "queued p' = queued ?p @ [j]"
      by (simp_all add: submit_step_def)
    have m: "x \<in> set (wake_one i (workers t)) \<Longrightarrow> x \<noteq> At_lock \<Longrightarrow> x \<in> set (workers t)" for x
      using set_wake_one by blast
    show ?thesis
      using assms(1) j q s(2) m [of Exited] m [of Asleep] unfolding tp_inv_def e by auto
  next
    case False
    with s l have "submit_step i j n t = t\<lparr>pool_of := ?p\<lparr>jobs := (jobs ?p)(j := None)\<rparr>\<rparr>"
      by (simp add: submit_step_def)
    with assms(1) pool_ok_heap [OF ok j(1), of None] show ?thesis by (simp add: tp_inv_def)
  qed
qed

lemma lock_inv:
  assumes "tp_inv t" and "i < length (workers t)" and "workers t ! i = At_lock"
  shows "tp_inv (lock_step i t)"
proof -
  let ?p = "pool_of t"
  have ok: "pool_ok ?p" using assms(1) by (simp add: tp_inv_def)
  then have sz: "qsize ?p = length (queued ?p)" by (simp add: pool_ok_def)
  obtain us vs where w: "workers t = us @ At_lock # vs" "\<And>w. (workers t)[i := w] = us @ w # vs"
    using update_split [OF assms(2)] assms(3) by metis
  show ?thesis
  proof (cases "queued ?p")
    case Nil
    then have "lock_step i t = t\<lparr>workers := us @ (if shutting_down ?p then Exited else Asleep) # vs\<rparr>"
      using sz w(2) by (auto simp: lock_step_def worker_locked_def)
    with assms(1) Nil w(1) show ?thesis by (auto simp: tp_inv_def)
  next
    case (Cons j js)
    obtain p' where p': "worker_pop ?p = (Some j, p')" "pool_ok p'" "queued p' = js"
      using worker_pop_first [OF ok Cons] by (cases "worker_pop ?p") auto
    have "shutting_down p' = shutting_down ?p"
      using p'(1) by (auto simp: worker_pop_def Let_def split: option.splits if_splits)
    moreover have "lock_step i t = t\<lparr>pool_of := p', workers := us @ Running j # vs, started := started t @ [j]\<rparr>"
      using sz w(2) p'(1) Cons by (simp add: lock_step_def worker_locked_def)
    ultimately show ?thesis
      using assms(1) Cons p'(2,3) w(1) by (auto simp: tp_inv_def)
  qed
qed

lemma finish_inv:
  assumes "tp_inv t" and "i < length (workers t)" and "workers t ! i = Running j"
  shows "tp_inv (finish_step i j t)"
proof -
  obtain us vs where w: "workers t = us @ Running j # vs" "\<And>w. (workers t)[i := w] = us @ w # vs"
    using update_split [OF assms(2)] assms(3) by metis
  have j: "j \<notin> set (queued (pool_of t))" using assms(1) w(1) by (auto simp: tp_inv_def)
  have "pool_ok (pool_of t)" using assms(1) by (simp add: tp_inv_def)
  from pool_ok_heap [OF this j, of None] assms(1) w show ?thesis
    by (auto simp: tp_inv_def finish_step_def)
qed

lemma shutdown_inv:
  assumes "tp_inv t"
  shows "tp_inv (shutdown_step t)"
proof -
  let ?p = "(pool_of t)\<lparr>shutting_down := True\<rparr>"
  have "queued ?p = queued (pool_of t)" by (simp add: queued_def)
  moreover from this have "pool_ok ?p" using assms by (simp add: tp_inv_def pool_ok_def)
  moreover have "Exited \<in> set (wake_all (workers t)) \<Longrightarrow> Exited \<in> set (workers t)"
    "Asleep \<notin> set (wake_all (workers t))"
    using set_wake_all by blast+
  ultimately show ?thesis using assms by (auto simp: tp_inv_def shutdown_step_def)
qed

lemma spurious_inv:
  assumes "tp_inv t" and "i < length (workers t)" and "workers t ! i = Asleep"
  shows "tp_inv (t\<lparr>workers := (workers t)[i := At_lock]\<rparr>)"
proof -
  obtain us vs where w: "workers t = us @ Asleep # vs" "\<And>w. (workers t)[i := w] = us @ w # vs"
    using update_split [OF assms(2)] assms(3) by metis
  with assms(1) show ?thesis by (auto simp: tp_inv_def)
qed

lemma tp_step_inv: "tp_step t t' \<Longrightarrow> tp_inv t \<Longrightarrow> tp_inv t'"
  by (induction rule: tp_step.induct)
    (simp_all add: submit_inv lock_inv finish_inv shutdown_inv spurious_inv)

definition new_pool :: "pool \<Rightarrow> bool" where
  \<comment> \<open>a pool as \<open>threadpool_create\<close> returns it\<close>
  "new_pool p \<longleftrightarrow> head p = None \<and> tail p = None \<and> qsize p = 0 \<and> \<not> shutting_down p \<and>
     0 < num_threads p \<and> 0 < cap p"

lemma threadpool_create_new:
  assumes "threadpool_create n c spawn s = (Some p, s')"
  shows "new_pool p"
  using assms by (auto simp: threadpool_create_def new_pool_def Let_def split: option.splits prod.splits if_splits)

lemma tp_start_inv: "new_pool p \<Longrightarrow> tp_inv (tp_start p)"
proof -
  assume p: "new_pool p"
  have "queued p = []" using p by (simp add: queued_def new_pool_def)
  moreover have "running (replicate k At_lock) = []" for k by (induction k) simp_all
  ultimately show ?thesis using p by (simp add: tp_inv_def tp_start_def pool_ok_def new_pool_def)
qed

lemma tp_reach_inv: "tp_reach (tp_start p) t \<Longrightarrow> new_pool p \<Longrightarrow> tp_inv t"
  by (induction rule: tp_reach.induct) (simp_all add: tp_start_inv tp_step_inv)

text \<open>
  C9. No job is lost, run twice or started out of order: in every reachable state of a pool, with
  any interleaving of submitters, workers, spurious wake-ups and shutdown, the queue never exceeds
  its capacity, the jobs started so far followed by the jobs still queued are exactly the accepted
  jobs in the order of acceptance, and the started jobs are the executed ones plus those a worker
  is running now.
\<close>

theorem tp_conservation:
  assumes "tp_reach (tp_start p) t" and "new_pool p"
  shows "length (queued (pool_of t)) \<le> cap (pool_of t) \<and>
    started t @ queued (pool_of t) = accepted t \<and>
    mset (started t) = mset (executed t) + mset (running (workers t))"
  using tp_reach_inv [OF assms] by (simp add: tp_inv_def pool_ok_def)

lemma tp_inv_drained:
  assumes "tp_inv t" and "set (workers t) = {Exited}" and "\<not> late t"
  shows "running (workers t) = []" and "queued (pool_of t) = []" and "mset (executed t) = mset (accepted t)"
proof -
  show r: "running (workers t) = []"
    using assms(2) running_set [of _ "workers t"] by (metis worker.distinct(11) last_in_set singletonD)
  show q: "queued (pool_of t) = []" using assms by (auto simp: tp_inv_def)
  show "mset (executed t) = mset (accepted t)" using assms(1) r q by (auto simp: tp_inv_def)
qed

text \<open>
  Shutting down drains the queue: when every worker has left its loop, which is what
  \<open>threadpool_destroy\<close> waits for, and nothing was submitted after the shutdown began, the queue is
  empty and the executed jobs are exactly the accepted ones.
\<close>

theorem tp_drained:
  assumes "tp_reach (tp_start p) t" and "new_pool p" and "set (workers t) = {Exited}" and "\<not> late t"
  shows "queued (pool_of t) = [] \<and> mset (executed t) = mset (accepted t)"
  using tp_inv_drained [OF tp_reach_inv [OF assms(1,2)] assms(3,4)] by simp

definition tp_watched :: "tp \<Rightarrow> bool" where
  "tp_watched t \<longleftrightarrow> workers t \<noteq> [] \<and> (queued (pool_of t) \<noteq> [] \<and> \<not> late t \<longrightarrow> tp_awake t)"

lemma tp_awake_iff:
  "tp_awake t \<longleftrightarrow> (\<exists>w \<in> set (workers t). w \<noteq> Asleep \<and> w \<noteq> Exited)"
  unfolding tp_awake_def by (metis worker.exhaust worker.distinct)

lemma shutting_down_watched:
  assumes "tp_inv t" and "workers t \<noteq> []" and "shutting_down (pool_of t)"
  shows "tp_watched t"
proof -
  have "queued (pool_of t) \<noteq> [] \<and> \<not> late t \<longrightarrow> hd (workers t) \<noteq> Asleep \<and> hd (workers t) \<noteq> Exited"
    using assms hd_in_set [OF assms(2)] unfolding tp_inv_def by metis
  then show ?thesis
    using assms(2) hd_in_set [OF assms(2)] unfolding tp_watched_def tp_awake_iff by blast
qed

lemma submit_watched:
  assumes "tp_inv t" and "tp_watched t" and "jnext n = None" and "\<not> live_job j t"
    and "Asleep \<in> set (workers t) \<Longrightarrow> i < length (workers t) \<and> workers t ! i = Asleep"
  shows "tp_watched (submit_step i j n t)"
proof (cases "shutting_down (pool_of (submit_step i j n t))")
  case True
  have "workers (submit_step i j n t) \<noteq> []"
    using assms(2) by (auto simp: tp_watched_def submit_step_def wake_one_def Let_def split: prod.split)
  with True submit_inv [OF assms(1,3,4)] show ?thesis by (intro shutting_down_watched)
next
  case False
  let ?p = "pool_of t"
  obtain rc p' where l: "tp_submit_locked j (?p\<lparr>jobs := (jobs ?p)(j \<mapsto> n)\<rparr>) = (rc, p')" by force
  have ok: "pool_ok ?p" and j: "j \<notin> set (queued ?p)"
    using assms(1,4) by (simp_all add: tp_inv_def live_job_def)
  note s = tp_submit_locked_ok [OF ok j assms(3) l]
  have ws: "workers t \<noteq> []" using assms(2) by (simp add: tp_watched_def)
  show ?thesis
  proof (cases "rc = 0")
    case True
    then have e: "workers (submit_step i j n t) = wake_one i (workers t)"
      and "shutting_down ?p = False"
      using l s(2) False by (simp_all add: submit_step_def)
    then have ex: "Exited \<notin> set (workers t)" using assms(1) by (simp add: tp_inv_def)
    have "\<exists>w \<in> set (wake_one i (workers t)). w \<noteq> Asleep \<and> w \<noteq> Exited"
    proof (cases "Asleep \<in> set (workers t)")
      case True
      from assms(5) [OF this] have "At_lock \<in> set (wake_one i (workers t))"
        by (simp add: wake_one_def set_update_memI)
      then show ?thesis by blast
    next
      case asl: False
      then have "\<not> (i < length (workers t) \<and> workers t ! i = Asleep)" by (metis nth_mem)
      then have "wake_one i (workers t) = workers t" by (auto simp: wake_one_def)
      with asl ex hd_in_set [OF ws] show ?thesis by metis
    qed
    then show ?thesis using ws by (auto simp: tp_watched_def tp_awake_iff e wake_one_def)
  next
    case rc: False
    with s l have "submit_step i j n t = t\<lparr>pool_of := ?p\<lparr>jobs := (jobs ?p)(j := None)\<rparr>\<rparr>"
      by (simp add: submit_step_def)
    with assms(2) pool_ok_heap [OF ok j, of None] show ?thesis
      by (simp add: tp_watched_def tp_awake_def)
  qed
qed

lemma lock_watched:
  assumes "tp_inv t" and "i < length (workers t)" and "workers t ! i = At_lock"
  shows "tp_watched (lock_step i t)"
proof -
  have ok: "pool_ok (pool_of t)" using assms(1) by (simp add: tp_inv_def)
  then have sz: "qsize (pool_of t) = length (queued (pool_of t))" by (simp add: pool_ok_def)
  show ?thesis
  proof (cases "queued (pool_of t)")
    case Nil
    then have "queued (pool_of (lock_step i t)) = []" "workers (lock_step i t) \<noteq> []"
      using sz assms(2) by (auto simp: lock_step_def worker_locked_def)
    then show ?thesis by (simp add: tp_watched_def)
  next
    case (Cons j js)
    obtain p' where p': "worker_pop (pool_of t) = (Some j, p')"
      using worker_pop_first [OF ok Cons] by (cases "worker_pop (pool_of t)") auto
    then have "workers (lock_step i t) = (workers t)[i := Running j]"
      using sz Cons by (simp add: lock_step_def worker_locked_def)
    moreover have "Running j \<in> set ((workers t)[i := Running j])" using assms(2) by (rule set_update_memI)
    ultimately show ?thesis using assms(2) by (auto simp: tp_watched_def tp_awake_def)
  qed
qed

lemma tp_step_watched:
  assumes "tp_step t t'" and "tp_inv t" and "tp_watched t"
  shows "tp_watched t'"
  using assms
proof (induction rule: tp_step.induct)
  case (submit n j t i)
  then show ?case by (intro submit_watched) auto
next
  case (lock i t)
  then show ?case by (intro lock_watched) auto
next
  case (spurious i t)
  then show ?case using set_update_memI [of i "workers t" At_lock] by (auto simp: tp_watched_def tp_awake_def)
next
  case (finish i t j)
  then show ?case
    using set_update_memI [of i "workers t" At_lock] by (auto simp: tp_watched_def tp_awake_def finish_step_def)
next
  case (shutdown t)
  then show ?case
    using shutdown_inv [of t]
    by (intro shutting_down_watched) (auto simp: shutdown_step_def tp_watched_def wake_all_def)
qed

lemma tp_reach_watched: "tp_reach (tp_start p) t \<Longrightarrow> new_pool p \<Longrightarrow> tp_watched t"
proof (induction rule: tp_reach.induct)
  case tp_init
  then show ?case by (simp add: tp_watched_def tp_start_def queued_def new_pool_def)
next
  case (tp_next t t')
  then show ?case using tp_step_watched tp_reach_inv by blast
qed

text \<open>
  C21. No wake-up is lost: in every reachable state with a job in the queue and no late submission,
  some worker is running a job or about to look at the queue; it is never the case that all workers
  sleep or are gone while a job waits.
\<close>

theorem tp_no_lost_wakeup:
  assumes "tp_reach (tp_start p) t" and "new_pool p" and "queued (pool_of t) \<noteq> []" and "\<not> late t"
  shows "tp_awake t"
  using tp_reach_watched [OF assms(1,2)] assms(3,4) by (simp add: tp_watched_def)

subsection \<open>A concrete run\<close>

definition demo_job :: job where
  "demo_job = \<lparr>fn = 1, arg = 0, jnext = None\<rparr>"

definition demo_pool :: pool where
  "demo_pool = \<lparr>num_threads = 1, head = None, tail = None, qsize = 0, cap = 2, shutting_down = False,
     jobs = [3 \<mapsto> demo_job, 4 \<mapsto> demo_job]\<rparr>"

definition demo_submitted :: tp where
  "demo_submitted = submit_step 0 5 demo_job (tp_start demo_pool)"

definition demo_stopped :: tp where
  \<comment> \<open>the job is taken and run, then the pool is shut down and its worker leaves\<close>
  "demo_stopped = lock_step 0 (shutdown_step (finish_step 0 5 (lock_step 0 demo_submitted)))"

lemmas tp_exec_defs = submit_step_def lock_step_def finish_step_def shutdown_step_def tp_submit_locked_def
  tp_enqueue_def worker_locked_def worker_pop_def wake_one_def wake_all_def queued_def demo_job_def
  demo_pool_def tp_start_def Let_def

lemma demo_submitted_eq:
  "demo_submitted = \<lparr>pool_of = demo_pool\<lparr>head := Some 5, tail := Some 5, qsize := 1,
       jobs := (jobs demo_pool)(5 \<mapsto> demo_job)\<rparr>,
     workers = [At_lock], accepted = [5], started = [], executed = [], late = False\<rparr>"
  by (simp add: demo_submitted_def tp_exec_defs)

lemma demo_pool_new: "new_pool demo_pool"
  by (simp add: new_pool_def demo_pool_def)

lemma demo_submitted_reach: "tp_reach (tp_start demo_pool) demo_submitted"
proof -
  have "tp_step (tp_start demo_pool) demo_submitted"
    unfolding demo_submitted_def
    by (rule tp_step.submit) (simp_all add: tp_start_def demo_job_def live_job_def demo_pool_def queued_def)
  then show ?thesis using tp_reach.intros by blast
qed

lemma demo_stopped_reach: "tp_reach (tp_start demo_pool) demo_stopped"
proof -
  let ?t1 = "lock_step 0 demo_submitted"
  let ?t2 = "finish_step 0 5 ?t1"
  have "tp_step demo_submitted ?t1" by (rule tp_step.lock) (simp_all add: demo_submitted_eq)
  moreover have "tp_step ?t1 ?t2"
    by (rule tp_step.finish) (simp_all add: demo_submitted_eq tp_exec_defs)
  moreover have "tp_step ?t2 (shutdown_step ?t2)" by (rule tp_step.shutdown)
  moreover have "tp_step (shutdown_step ?t2) demo_stopped"
    unfolding demo_stopped_def by (rule tp_step.lock) (simp_all add: demo_submitted_eq tp_exec_defs)
  ultimately show ?thesis using demo_submitted_reach tp_reach.tp_next by blast
qed

lemma demo_stopped_eq:
  "workers demo_stopped = [Exited]" "late demo_stopped = False" "accepted demo_stopped = [5]"
  by (simp_all add: demo_stopped_def demo_submitted_eq tp_exec_defs)

text \<open>A concrete instance: two jobs.\<close>

theorem job_queue_fifo_witness:
  "fst (jobq.pops 2 (jobq.pushes [3, 4] demo_pool)) = [3, 4]"
proof -
  have "pool_ok demo_pool" "queued demo_pool = []" "jobq.all_fresh [3, 4] demo_pool"
    by (simp_all add: pool_ok_def queued_def demo_pool_def enqueueable_def tp_enqueue_def demo_job_def Let_def)
  from job_queue_fifo [OF this] show ?thesis by (simp add: numeral_2_eq_2)
qed

text \<open>Witness of C9.\<close>

theorem tp_conservation_witness:
  "started demo_submitted @ queued (pool_of demo_submitted) = [5]"
  using tp_conservation [OF demo_submitted_reach demo_pool_new] by (simp add: demo_submitted_eq)

text \<open>A concrete instance.\<close>

theorem tp_drained_witness:
  "queued (pool_of demo_stopped) = [] \<and> mset (executed demo_stopped) = {#5#}"
  using tp_drained [OF demo_stopped_reach demo_pool_new] by (simp add: demo_stopped_eq)

text \<open>Witness of C21.\<close>

theorem tp_no_lost_wakeup_witness: "tp_awake demo_submitted"
proof (rule tp_no_lost_wakeup [OF demo_submitted_reach demo_pool_new])
  show "queued (pool_of demo_submitted) \<noteq> []" by (simp add: demo_submitted_eq queued_def)
  show "\<not> late demo_submitted" by (simp add: demo_submitted_eq)
qed

end
