(* ===== verification/Net.thy ===== *)
theory Net
  imports Threadpool
begin

section \<open>Configuration and the accept loop (server/config.c, server/net.c)\<close>

text \<open>
  \<open>config_init\<close> reads the environment. \<open>net_server_run\<close> accepts connections and submits one job per
  connection to the thread pool; the model interleaves the iterations of its loop with the steps of
  the workers (\<open>tp_step\<close>). A connection is its descriptor and, while it waits or is served, its \<open>HandlerContext\<close> in
  the heap \<open>net_ctxs\<close>; \<open>finish_conn\<close> is the end of the job, when \<open>handler_job\<close> has closed the socket and freed its context.
  The step \<open>others\<close> stands for what jobs and the reversal thread do to the
  process state meanwhile: anything that leaves \<open>g_server_busy\<close>, which only \<open>net.c\<close> increments, and only adds allocations.
  The counts of accepted, refused and dropped connections are kept for the statements.
\<close>

subsection \<open>Configuration\<close>

record config =
  cfg_db_uri :: string
  listen_port :: int
  cfg_num_threads :: int
  queue_cap :: int
  cfg_api_token :: "string option"

definition positive_or :: "int \<Rightarrow> int \<Rightarrow> int" where
  "positive_or v dflt = (if v \<le> 0 then dflt else v)"

definition config_init :: "'a sys_scheme \<Rightarrow> config option" where
  \<comment> \<open>\<^const>\<open>None\<close> is the result \<open>-1\<close>\<close>
  "config_init s =
     (case env_src s ''DB_URI'' of
        None \<Rightarrow> None
      | Some u \<Rightarrow>
          let threads_env = (case env_src s ''THREADS'' of None \<Rightarrow> env_src s ''NUM_THREADS'' | t \<Rightarrow> t) in
          Some \<lparr>cfg_db_uri = u,
                listen_port = (case env_src s ''PORT'' of None \<Rightarrow> 9090 | Some t \<Rightarrow> atoi t),
                cfg_num_threads = positive_or (case threads_env of None \<Rightarrow> 4 | Some t \<Rightarrow> atoi t) 4,
                queue_cap = positive_or (case env_src s ''QUEUE_CAP'' of None \<Rightarrow> 1024 | Some t \<Rightarrow> atoi t) 1024,
                cfg_api_token = env_src s ''API_TOKEN''\<rparr>)"

lemma config_init_sane:
  assumes "config_init s = Some c"
  shows "0 < cfg_num_threads c \<and> cfg_num_threads c < 2 ^ 31 \<and> 0 < queue_cap c \<and> queue_cap c < 2 ^ 31 \<and>
    - (2 ^ 31) \<le> listen_port c \<and> listen_port c < 2 ^ 31"
proof -
  have r: "atoi t < 2147483648" "- 2147483648 \<le> atoi t" for t using atoi_range [of t] by auto
  have pos: "0 < positive_or (case e of None \<Rightarrow> d | Some t \<Rightarrow> atoi t) d"
    "positive_or (case e of None \<Rightarrow> d | Some t \<Rightarrow> atoi t) d < 2147483648" if "0 < d" "d < 2147483648" for e d
    using that r by (simp_all add: positive_or_def split: option.split)
  have port: "- 2147483648 \<le> (case e of None \<Rightarrow> 9090 | Some t \<Rightarrow> atoi t)" "(case e of None \<Rightarrow> 9090 | Some t \<Rightarrow> atoi t) < 2147483648"
    for e using r by (simp_all split: option.split)
  show ?thesis
  proof (cases "env_src s ''DB_URI''")
    case None
    with assms show ?thesis by (simp add: config_init_def)
  next
    case (Some u)
    let ?te = "case env_src s ''THREADS'' of None \<Rightarrow> env_src s ''NUM_THREADS'' | Some t \<Rightarrow> Some t"
    have "cfg_num_threads c = positive_or (case ?te of None \<Rightarrow> 4 | Some t \<Rightarrow> atoi t) 4"
      "queue_cap c = positive_or (case env_src s ''QUEUE_CAP'' of None \<Rightarrow> 1024 | Some t \<Rightarrow> atoi t) 1024"
      "listen_port c = (case env_src s ''PORT'' of None \<Rightarrow> 9090 | Some t \<Rightarrow> atoi t)"
      using assms Some unfolding config_init_def Let_def by auto
    with pos [of 4 ?te] pos [of 1024 "env_src s ''QUEUE_CAP''"] port [of "env_src s ''PORT''"] show ?thesis by simp
  qed
qed

definition pool_port :: "config \<Rightarrow> 16 word" where
  \<comment> \<open>\<open>htons((uint16_t)cfg->listen_port)\<close>, before the change of byte order\<close>
  "pool_port c = word_of_int (listen_port c)"

subsection \<open>The accept loop\<close>

record net_ctx =
  client_fd :: int
  ctx_db :: "nat option"
  ctx_token :: "string option"

record 'a net =
  net_tp :: tp
  net_ctxs :: "nat \<Rightarrow> net_ctx option"
  net_fds :: "int set"
  net_sys :: "'a sys_scheme"
  net_dbc :: "nat option"
  net_token :: "string option"
  listening :: bool
  conns :: nat
  refusals :: nat
  drops :: nat

definition net_setup :: "bool \<Rightarrow> bool \<Rightarrow> bool \<Rightarrow> int option" where
  \<comment> \<open>results of \<open>socket\<close>, \<open>bind\<close> and \<open>listen\<close>; the early return, if any\<close>
  "net_setup socket_ok bind_ok listen_ok = (if \<not> socket_ok then Some 1 else if \<not> bind_ok then Some 1 else if \<not> listen_ok then Some 1 else None)"

definition busy_reply :: string where
  "busy_reply = ''{\"status\":\"DECLINED\",\"reason\":\"server_busy\"}'' @ [CHR 0x0A]"

definition handler_fn :: nat where
  \<comment> \<open>the address of \<open>handler_job\<close>\<close>
  "handler_fn = 0"

definition net_submit :: "nat \<Rightarrow> nat \<Rightarrow> 'a net \<Rightarrow> int \<times> 'a net" where
  \<comment> \<open>\<open>threadpool_submit(pool, handler_job, ctx)\<close> for the context at \<open>a\<close>, when the signal wakes the worker \<open>i\<close>\<close>
  "net_submit i a n =
     (case malloc (net_sys n) of
        (None, s) \<Rightarrow> (- 1, n\<lparr>net_sys := s\<rparr>)
      | (Some j, s) \<Rightarrow>
          let t = net_tp n; job = \<lparr>fn = handler_fn, arg = a, jnext = None\<rparr> in
          (fst (tp_submit_locked j ((pool_of t)\<lparr>jobs := (jobs (pool_of t))(j \<mapsto> job)\<rparr>)),
           n\<lparr>net_tp := submit_step i j job t, net_sys := s\<rparr>))"

definition accept_conn :: "nat \<Rightarrow> int \<Rightarrow> 'a net \<Rightarrow> 'a net" where
  \<comment> \<open>one iteration of the loop after \<open>accept\<close> returned \<open>fd\<close>\<close>
  "accept_conn i fd n =
     (let n = n\<lparr>net_fds := insert fd (net_fds n), conns := Suc (conns n)\<rparr> in
      case malloc (net_sys n) of
        (None, s) \<Rightarrow> n\<lparr>net_sys := s, net_fds := net_fds n - {fd}, drops := Suc (drops n)\<rparr>
      | (Some a, s) \<Rightarrow>
          let n = n\<lparr>net_sys := s, net_ctxs := (net_ctxs n)(a \<mapsto> \<lparr>client_fd = fd, ctx_db = net_dbc n, ctx_token = net_token n\<rparr>)\<rparr>;
              (rc, n) = net_submit i a n in
          if rc \<noteq> 0 then
            n\<lparr>net_sys := with_metrics metrics_inc_server_busy (emit (Write busy_reply) (net_sys n)),
              net_fds := net_fds n - {fd}, net_ctxs := (net_ctxs n)(a := None), refusals := Suc (refusals n)\<rparr>
          else n)"

definition ctx_of :: "'a net \<Rightarrow> nat \<Rightarrow> nat" where
  \<comment> \<open>the context of a job\<close>
  "ctx_of n j = arg (the (jobs (pool_of (net_tp n)) j))"

definition fd_of :: "'a net \<Rightarrow> nat \<Rightarrow> int" where
  "fd_of n a = client_fd (the (net_ctxs n a))"

definition finish_conn :: "nat \<Rightarrow> nat \<Rightarrow> 'a net \<Rightarrow> 'a net" where
  \<comment> \<open>worker \<open>i\<close> returns from \<open>handler_job\<close>\<close>
  "finish_conn i j n =
     n\<lparr>net_tp := finish_step i j (net_tp n), net_fds := net_fds n - {fd_of n (ctx_of n j)},
       net_ctxs := (net_ctxs n)(ctx_of n j := None)\<rparr>"

inductive net_step :: "'a net \<Rightarrow> 'a net \<Rightarrow> bool" where
  conn: "listening n \<Longrightarrow> fd \<notin> net_fds n \<Longrightarrow>
     (Asleep \<in> set (workers (net_tp n)) \<Longrightarrow> i < length (workers (net_tp n)) \<and> workers (net_tp n) ! i = Asleep) \<Longrightarrow>
     net_step n (accept_conn i fd n)"
| accept_interrupted: "listening n \<Longrightarrow> net_step n n"
| accept_error: "listening n \<Longrightarrow> net_step n (n\<lparr>listening := False\<rparr>)"
| lock: "i < length (workers (net_tp n)) \<Longrightarrow> workers (net_tp n) ! i = At_lock \<Longrightarrow>
     net_step n (n\<lparr>net_tp := lock_step i (net_tp n)\<rparr>)"
| spurious: "i < length (workers (net_tp n)) \<Longrightarrow> workers (net_tp n) ! i = Asleep \<Longrightarrow>
     net_step n (n\<lparr>net_tp := (net_tp n)\<lparr>workers := (workers (net_tp n))[i := At_lock]\<rparr>\<rparr>)"
| finish: "i < length (workers (net_tp n)) \<Longrightarrow> workers (net_tp n) ! i = Running j \<Longrightarrow> net_step n (finish_conn i j n)"
| others: "allocs (net_sys n) \<le> allocs s \<Longrightarrow> g_server_busy (metrics s) = g_server_busy (metrics (net_sys n)) \<Longrightarrow>
     net_step n (n\<lparr>net_sys := s\<rparr>)"
| shutdown: "\<not> listening n \<Longrightarrow> net_step n (n\<lparr>net_tp := shutdown_step (net_tp n)\<rparr>)"

inductive net_reach :: "'a net \<Rightarrow> 'a net \<Rightarrow> bool" for n0 where
  net_init: "net_reach n0 n0"
| net_next: "net_reach n0 n \<Longrightarrow> net_step n n' \<Longrightarrow> net_reach n0 n'"

definition net_start :: "config \<Rightarrow> nat option \<Rightarrow> pool \<Rightarrow> 'a sys_scheme \<Rightarrow> 'a net" where
  "net_start c dbc p s = \<lparr>net_tp = tp_start p, net_ctxs = Map.empty, net_fds = {}, net_sys = s, net_dbc = dbc, net_token = cfg_api_token c, listening = True,
     conns = 0, refusals = 0, drops = 0\<rparr>"

subsection \<open>Every connection is accounted for\<close>

definition live_jobs :: "tp \<Rightarrow> nat set" where
  "live_jobs t = {j. live_job j t}"

definition net_inv :: "ulong \<Rightarrow> 'a net \<Rightarrow> bool" where
  "net_inv b n \<longleftrightarrow> tp_inv (net_tp n) \<and> \<not> late (net_tp n) \<and> (listening n \<longrightarrow> \<not> shutting_down (pool_of (net_tp n))) \<and>
     (\<forall>j \<in> live_jobs (net_tp n). j < allocs (net_sys n) \<and> jobs (pool_of (net_tp n)) j \<noteq> None) \<and>
     (\<forall>a \<in> dom (net_ctxs n). a < allocs (net_sys n)) \<and>
     bij_betw (ctx_of n) (live_jobs (net_tp n)) (dom (net_ctxs n)) \<and>
     bij_betw (fd_of n) (dom (net_ctxs n)) (net_fds n) \<and>
     conns n = length (accepted (net_tp n)) + refusals n + drops n \<and>
     g_server_busy (metrics (net_sys n)) = b + of_nat (refusals n)"

lemma bij_insert:
  assumes "bij_betw f A B" "a \<notin> A" "b \<notin> B" "\<And>x. x \<in> A \<Longrightarrow> g x = f x" "g a = b"
  shows "bij_betw g (insert a A) (insert b B)"
proof -
  have "bij_betw g A B" using assms(1,4) by (simp cong: bij_betw_cong)
  with assms(2,3,5) show ?thesis using notIn_Un_bij_betw3 [of a A g B] by simp
qed

lemma bij_delete:
  assumes "bij_betw f A B" "a \<in> A" "\<And>x. x \<in> A - {a} \<Longrightarrow> g x = f x"
  shows "bij_betw g (A - {a}) (B - {f a})"
proof -
  have "bij_betw f (A - {a}) (B - {f a})" using assms(1,2) by (auto simp: bij_betw_def inj_on_def)
  moreover have "bij_betw g (A - {a}) (B - {f a}) = bij_betw f (A - {a}) (B - {f a})"
    by (rule bij_betw_cong) (rule assms(3))
  ultimately show ?thesis by simp
qed

lemma live_jobs_balance:
  assumes "tp_inv t"
  shows "mset (accepted t) = mset (executed t) + mset (running (workers t) @ queued (pool_of t))"
    and "live_jobs t = set (running (workers t) @ queued (pool_of t))"
proof -
  have "started t @ queued (pool_of t) = accepted t" "mset (started t) = mset (executed t) + mset (running (workers t))"
    using assms by (auto simp: tp_inv_def)
  then show "mset (accepted t) = mset (executed t) + mset (running (workers t) @ queued (pool_of t))"
    by (metis add.assoc mset_append)
  show "live_jobs t = set (running (workers t) @ queued (pool_of t))"
    by (auto simp: live_jobs_def live_job_def running_set)
qed

lemma live_jobs_same:
  assumes "tp_inv t" "tp_inv t'" "accepted t' = accepted t" "executed t' = executed t"
  shows "live_jobs t' = live_jobs t"
proof -
  have "mset (running (workers t') @ queued (pool_of t')) = mset (running (workers t) @ queued (pool_of t))"
    using live_jobs_balance(1) [OF assms(1)] live_jobs_balance(1) [OF assms(2)] assms(3,4) by simp
  then show ?thesis
    unfolding live_jobs_balance(2) [OF assms(1)] live_jobs_balance(2) [OF assms(2)] by (rule mset_eq_setD)
qed

lemma live_jobs_add:
  assumes "tp_inv t" "tp_inv t'" "accepted t' = accepted t @ [j]" "executed t' = executed t"
  shows "live_jobs t' = insert j (live_jobs t)"
proof -
  have "mset (running (workers t') @ queued (pool_of t')) = mset (j # running (workers t) @ queued (pool_of t))"
    using live_jobs_balance(1) [OF assms(1)] live_jobs_balance(1) [OF assms(2)] assms(3,4) by simp
  then have "set (running (workers t') @ queued (pool_of t')) = set (j # running (workers t) @ queued (pool_of t))"
    by (rule mset_eq_setD)
  then show ?thesis by (simp add: live_jobs_balance(2) [OF assms(1)] live_jobs_balance(2) [OF assms(2)])
qed

lemma live_jobs_remove:
  assumes "tp_inv t" "tp_inv t'" "accepted t' = accepted t" "executed t' = executed t @ [j]"
  shows "live_jobs t' = live_jobs t - {j}" "j \<in> live_jobs t"
proof -
  let ?l = "running (workers t) @ queued (pool_of t)" and ?l' = "running (workers t') @ queued (pool_of t')"
  have m: "mset ?l = mset (j # ?l')"
    using live_jobs_balance(1) [OF assms(1)] live_jobs_balance(1) [OF assms(2)] assms(3,4) by simp
  have "distinct ?l" using assms(1) by (simp add: tp_inv_def)
  then have "distinct (j # ?l')" using m mset_eq_imp_distinct_iff by blast
  moreover have "set ?l = set (j # ?l')" using m by (rule mset_eq_setD)
  ultimately show "live_jobs t' = live_jobs t - {j}" "j \<in> live_jobs t"
    by (auto simp: live_jobs_balance(2) [OF assms(1)] live_jobs_balance(2) [OF assms(2)])
qed

lemma tp_enqueue_args: "map_option arg (jobs (tp_enqueue j p) x) = map_option arg (jobs p x)"
  by (simp add: tp_enqueue_def option.map_comp comp_def split: option.split)

lemma submit_effect:
  fixes t n j i
  defines "p \<equiv> (pool_of t)\<lparr>jobs := (jobs (pool_of t))(j \<mapsto> n)\<rparr>" and "t' \<equiv> submit_step i j n t"
  assumes "\<not> shutting_down (pool_of t)"
  shows "executed t' = executed t" "shutting_down (pool_of t') = shutting_down (pool_of t)" "late t' = late t"
    and "x \<noteq> j \<Longrightarrow> map_option arg (jobs (pool_of t') x) = map_option arg (jobs (pool_of t) x)"
    and "accepted t' = (if fst (tp_submit_locked j p) = 0 then accepted t @ [j] else accepted t)"
    and "fst (tp_submit_locked j p) = 0 \<Longrightarrow> map_option arg (jobs (pool_of t') j) = Some (arg n)"
proof -
  have sd: "shutting_down (tp_enqueue j p) = shutting_down (pool_of t)"
    by (simp add: tp_enqueue_def p_def split: option.split)
  show "executed t' = executed t" "shutting_down (pool_of t') = shutting_down (pool_of t)" "late t' = late t"
    "accepted t' = (if fst (tp_submit_locked j p) = 0 then accepted t @ [j] else accepted t)"
    using assms(3) sd
    by (simp_all add: t'_def p_def submit_step_def tp_submit_locked_def)
  show "x \<noteq> j \<Longrightarrow> map_option arg (jobs (pool_of t') x) = map_option arg (jobs (pool_of t) x)"
    using tp_enqueue_args [of j p x] by (simp add: t'_def p_def submit_step_def tp_submit_locked_def)
  show "map_option arg (jobs (pool_of t') j) = Some (arg n)" if "fst (tp_submit_locked j p) = 0"
  proof -
    have "\<not> cap p \<le> qsize p" using that by (auto simp: tp_submit_locked_def split: if_splits)
    then have "pool_of t' = tp_enqueue j p" by (simp add: t'_def p_def submit_step_def tp_submit_locked_def)
    with tp_enqueue_args [of j p j] show ?thesis by (simp add: p_def)
  qed
qed

lemma ctx_of_cong:
  "map_option arg (jobs (pool_of (net_tp n')) j) = map_option arg (jobs (pool_of (net_tp n)) j) \<Longrightarrow>
     jobs (pool_of (net_tp n)) j \<noteq> None \<Longrightarrow> ctx_of n' j = ctx_of n j \<and> jobs (pool_of (net_tp n')) j \<noteq> None"
  by (auto simp: ctx_of_def)

lemma net_inv_cong:
  \<comment> \<open>a step that neither admits nor completes a connection\<close>
  assumes "net_inv b n" "tp_inv (net_tp n')" "accepted (net_tp n') = accepted (net_tp n)" "executed (net_tp n') = executed (net_tp n)"
    and args: "\<And>j. j \<in> live_jobs (net_tp n) \<Longrightarrow>
      map_option arg (jobs (pool_of (net_tp n')) j) = map_option arg (jobs (pool_of (net_tp n)) j)"
    and "late (net_tp n') = late (net_tp n)" "listening n' \<Longrightarrow> \<not> shutting_down (pool_of (net_tp n'))"
    and "net_ctxs n' = net_ctxs n" "net_fds n' = net_fds n" "allocs (net_sys n) \<le> allocs (net_sys n')"
    and "conns n' + refusals n + drops n = conns n + refusals n' + drops n'"
    and "g_server_busy (metrics (net_sys n')) + of_nat (refusals n) = g_server_busy (metrics (net_sys n)) + of_nat (refusals n')"
  shows "net_inv b n'"
proof -
  have l: "live_jobs (net_tp n') = live_jobs (net_tp n)"
    using assms(1-4) by (intro live_jobs_same) (auto simp: net_inv_def)
  have c: "ctx_of n' j = ctx_of n j \<and> jobs (pool_of (net_tp n')) j \<noteq> None" if "j \<in> live_jobs (net_tp n)" for j
    using assms(1) that by (intro ctx_of_cong args) (auto simp: net_inv_def)
  have "bij_betw (ctx_of n') (live_jobs (net_tp n)) (dom (net_ctxs n)) = bij_betw (ctx_of n) (live_jobs (net_tp n)) (dom (net_ctxs n))"
    using c by (intro bij_betw_cong) blast
  moreover have "fd_of n' = fd_of n" using assms(8) by (auto simp: fd_of_def)
  moreover have "g_server_busy (metrics (net_sys n')) = b + of_nat (refusals n')"
    using assms(1,12) by (auto simp: net_inv_def algebra_simps)
  moreover have "conns n' = length (accepted (net_tp n')) + refusals n' + drops n'"
    using assms(1,3,11) by (auto simp: net_inv_def)
  moreover have mono: "x < allocs (net_sys n')" if "x < allocs (net_sys n)" for x using that assms(10) by linarith
  ultimately show ?thesis
    using assms(1,2,6-9) mono unfolding net_inv_def l assms(8,9) by (simp add: c)
qed

lemma net_inv_tp:
  assumes "net_inv b n" "tp_inv t" "accepted t = accepted (net_tp n)" "executed t = executed (net_tp n)"
    and "jobs (pool_of t) = jobs (pool_of (net_tp n))" "late t = late (net_tp n)"
    and "listening n \<Longrightarrow> \<not> shutting_down (pool_of t)"
  shows "net_inv b (n\<lparr>net_tp := t\<rparr>)"
  by (rule net_inv_cong [OF assms(1)]) (use assms in simp_all)

lemma lock_step_fields:
  "accepted (lock_step i t) = accepted t" "executed (lock_step i t) = executed t" "late (lock_step i t) = late t"
  "jobs (pool_of (lock_step i t)) = jobs (pool_of t)" "shutting_down (pool_of (lock_step i t)) = shutting_down (pool_of t)"
  by (auto simp: lock_step_def worker_locked_def worker_pop_def Let_def split: option.split decision.split)

lemma finish_conn_inv:
  assumes "net_inv b n" "i < length (workers (net_tp n))" "workers (net_tp n) ! i = Running j"
  shows "net_inv b (finish_conn i j n)"
proof -
  let ?t = "finish_step i j (net_tp n)" and ?a = "ctx_of n j" and ?n = "finish_conn i j n"
  have inv: "tp_inv (net_tp n)" using assms(1) by (simp add: net_inv_def)
  have t: "tp_inv ?t" by (rule finish_inv [OF inv assms(2,3)])
  have l: "live_jobs ?t = live_jobs (net_tp n) - {j}" "j \<in> live_jobs (net_tp n)"
    by (rule live_jobs_remove [OF inv t], simp_all add: finish_step_def)+
  have b: "bij_betw (ctx_of n) (live_jobs (net_tp n)) (dom (net_ctxs n))" "bij_betw (fd_of n) (dom (net_ctxs n)) (net_fds n)"
    using assms(1) by (simp_all add: net_inv_def)
  have a: "?a \<in> dom (net_ctxs n)" using bij_betwE [OF b(1)] l(2) by blast
  have "bij_betw (ctx_of ?n) (live_jobs (net_tp n) - {j}) (dom (net_ctxs n) - {?a})"
    by (rule bij_delete [OF b(1) l(2)]) (simp add: ctx_of_def finish_conn_def finish_step_def)
  moreover have "bij_betw (fd_of ?n) (dom (net_ctxs n) - {?a}) (net_fds n - {fd_of n ?a})"
    by (rule bij_delete [OF b(2) a]) (simp add: fd_of_def finish_conn_def)
  ultimately show ?thesis
    using assms(1) t l by (auto simp: net_inv_def finish_conn_def finish_step_def)
qed

lemma net_inv_admit:
  \<comment> \<open>the job \<open>j\<close> for the new context \<open>a\<close> has been queued\<close>
  assumes "net_inv b n" "tp_inv (net_tp n')" "accepted (net_tp n') = accepted (net_tp n) @ [j]" "executed (net_tp n') = executed (net_tp n)"
    and args: "\<And>x. x \<in> live_jobs (net_tp n) \<Longrightarrow>
      map_option arg (jobs (pool_of (net_tp n')) x) = map_option arg (jobs (pool_of (net_tp n)) x)"
    and "map_option arg (jobs (pool_of (net_tp n')) j) = Some a"
    and "late (net_tp n') = late (net_tp n)" "listening n' \<Longrightarrow> \<not> shutting_down (pool_of (net_tp n'))"
    and "net_ctxs n' = (net_ctxs n)(a \<mapsto> k)" "net_fds n' = insert (client_fd k) (net_fds n)" "client_fd k \<notin> net_fds n"
    and "allocs (net_sys n) \<le> a" "allocs (net_sys n) \<le> j" "a < allocs (net_sys n')" "j < allocs (net_sys n')"
    and "conns n' = Suc (conns n)" "refusals n' = refusals n" "drops n' = drops n" "metrics (net_sys n') = metrics (net_sys n)"
  shows "net_inv b n'"
proof -
  have fresh: "j \<notin> live_jobs (net_tp n)" "a \<notin> dom (net_ctxs n)"
    using assms(1,12,13) by (auto simp: net_inv_def dest: bspec)
  have l: "live_jobs (net_tp n') = insert j (live_jobs (net_tp n))"
    using assms(1-4) by (intro live_jobs_add) (auto simp: net_inv_def)
  have c: "ctx_of n' x = ctx_of n x \<and> jobs (pool_of (net_tp n')) x \<noteq> None" if "x \<in> live_jobs (net_tp n)" for x
    using assms(1) that by (intro ctx_of_cong args) (auto simp: net_inv_def)
  have cj: "ctx_of n' j = a" "jobs (pool_of (net_tp n')) j \<noteq> None" using assms(6) by (auto simp: ctx_of_def)
  have "bij_betw (ctx_of n') (insert j (live_jobs (net_tp n))) (insert a (dom (net_ctxs n)))"
    by (rule bij_insert [where f = "ctx_of n"]) (use assms(1) fresh c cj in \<open>auto simp: net_inv_def\<close>)
  moreover have "bij_betw (fd_of n') (insert a (dom (net_ctxs n))) (insert (client_fd k) (net_fds n))"
    by (rule bij_insert [where f = "fd_of n"]) (use assms(1,9,11) fresh in \<open>auto simp: net_inv_def fd_of_def\<close>)
  moreover have "x < allocs (net_sys n')" if "x < allocs (net_sys n)" for x using that assms(12,14) by linarith
  ultimately show ?thesis
    using assms(1-4,7-10,14-19) l c cj by (auto simp: net_inv_def)
qed

lemma accept_conn_inv:
  assumes "net_inv b n" "listening n" "fd \<notin> net_fds n"
    and "Asleep \<in> set (workers (net_tp n)) \<Longrightarrow> i < length (workers (net_tp n)) \<and> workers (net_tp n) ! i = Asleep"
  shows "net_inv b (accept_conn i fd n)"
proof -
  have inv: "tp_inv (net_tp n)" and sd: "\<not> shutting_down (pool_of (net_tp n))" and fds: "net_fds n - {fd} = net_fds n"
    using assms(1-3) by (auto simp: net_inv_def)
  have ctx: "(net_ctxs n)(allocs (net_sys n) := None) = net_ctxs n"
  proof -
    have "allocs (net_sys n) \<notin> dom (net_ctxs n)" using assms(1) unfolding net_inv_def by blast
    then show ?thesis by (simp add: domIff fun_upd_idem)
  qed
  let ?a = "allocs (net_sys n)" and ?j = "Suc (allocs (net_sys n))"
  let ?job = "\<lparr>fn = handler_fn, arg = ?a, jnext = None\<rparr>"
  let ?t = "submit_step i ?j ?job (net_tp n)"
  have nl: "\<not> live_job ?j (net_tp n)" using assms(1) by (auto simp: net_inv_def live_jobs_def)
  have t: "tp_inv ?t" by (rule submit_inv [OF inv _ nl]) simp
  note e = submit_effect [OF sd, where i = i and j = ?j and n = ?job]
  have args: "map_option arg (jobs (pool_of ?t) x) = map_option arg (jobs (pool_of (net_tp n)) x)" if "x \<in> live_jobs (net_tp n)" for x
    using that nl by (intro e(4)) (auto simp: live_jobs_def)
  let ?ok = "fst (tp_submit_locked ?j ((pool_of (net_tp n))\<lparr>jobs := (jobs (pool_of (net_tp n)))(?j \<mapsto> ?job)\<rparr>)) = 0"
  consider "\<not> alloc_src (net_sys n) ?a" | "alloc_src (net_sys n) ?a" "\<not> alloc_src (net_sys n) ?j"
    | "alloc_src (net_sys n) ?a" "alloc_src (net_sys n) ?j" "\<not> ?ok" | "alloc_src (net_sys n) ?a" "alloc_src (net_sys n) ?j" ?ok
    by blast
  then show ?thesis
  proof cases
    case 1
    then show ?thesis
      using sd fds by (intro net_inv_cong [OF assms(1)]) (simp_all add: accept_conn_def malloc_def inv)
  next
    case 2
    then show ?thesis
      using sd fds ctx by (intro net_inv_cong [OF assms(1)])
        (simp_all add: accept_conn_def net_submit_def malloc_def inv with_metrics_def emit_def metrics_inc_server_busy_def)
  next
    case 3
    then show ?thesis
      using sd fds ctx t e(1-3,5) args by (intro net_inv_cong [OF assms(1)])
        (simp_all add: accept_conn_def net_submit_def malloc_def Let_def with_metrics_def emit_def metrics_inc_server_busy_def)
  next
    case 4
    show ?thesis
      by (rule net_inv_admit [OF assms(1), where j = ?j and a = ?a and k = "\<lparr>client_fd = fd, ctx_db = net_dbc n, ctx_token = net_token n\<rparr>"])
        (use 4 sd t e args assms(3) in \<open>simp_all add: accept_conn_def net_submit_def malloc_def Let_def\<close>)
  qed
qed

lemma net_step_inv: "net_step n n' \<Longrightarrow> net_inv b n \<Longrightarrow> net_inv b n'"
proof (induction rule: net_step.induct)
  case (conn n fd i)
  then show ?case by (intro accept_conn_inv) auto
next
  case (accept_interrupted n)
  then show ?case by simp
next
  case (accept_error n)
  then have "tp_inv (net_tp n)" by (simp add: net_inv_def)
  then show ?case by (intro net_inv_cong [OF accept_error(2)]) simp_all
next
  case (lock i n)
  then have "tp_inv (lock_step i (net_tp n))" by (intro tp_step_inv [OF tp_step.lock]) (simp_all add: net_inv_def)
  with lock show ?case by (intro net_inv_tp) (simp_all add: lock_step_fields net_inv_def)
next
  case (spurious i n)
  let ?t = "(net_tp n)\<lparr>workers := (workers (net_tp n))[i := At_lock]\<rparr>"
  have "tp_inv ?t" using spurious by (intro tp_step_inv [OF tp_step.spurious]) (simp_all add: net_inv_def)
  with spurious show ?case by (intro net_inv_tp) (simp_all add: net_inv_def)
next
  case (finish i n j)
  then show ?case by (intro finish_conn_inv)
next
  case (others n s)
  then have "tp_inv (net_tp n)" "listening n \<Longrightarrow> \<not> shutting_down (pool_of (net_tp n))" by (simp_all add: net_inv_def)
  with others(1,2) show ?case by (intro net_inv_cong [OF others(3)]) simp_all
next
  case (shutdown n)
  then have "tp_inv (shutdown_step (net_tp n))" by (intro tp_step_inv [OF tp_step.shutdown]) (simp_all add: net_inv_def)
  with shutdown show ?case by (intro net_inv_tp) (simp_all add: net_inv_def shutdown_step_def)
qed

lemma net_start_inv:
  assumes "new_pool p"
  shows "net_inv (g_server_busy (metrics s)) (net_start c dbc p s)"
proof -
  have "live_jobs (tp_start p) = {}"
    using assms by (auto simp: live_jobs_def live_job_def tp_start_def queued_def new_pool_def)
  then show ?thesis
    using assms tp_start_inv [OF assms] by (simp add: net_inv_def net_start_def tp_start_def new_pool_def bij_betw_def)
qed

lemma net_reach_inv:
  "net_reach (net_start c dbc p s) n \<Longrightarrow> new_pool p \<Longrightarrow> net_inv (g_server_busy (metrics s)) n"
  by (induction rule: net_reach.induct) (simp_all add: net_start_inv net_step_inv)

lemma net_step_cap: "net_step n n' \<Longrightarrow> cap (pool_of (net_tp n')) = cap (pool_of (net_tp n))"
  by (induction rule: net_step.induct)
    (simp_all add: accept_conn_def net_submit_def finish_conn_def malloc_def submit_step_def tp_submit_locked_def tp_enqueue_def
      lock_step_def worker_locked_def worker_pop_def finish_step_def shutdown_step_def Let_def case_prod_beta
      split: option.split decision.split)

lemma net_reach_cap: "net_reach (net_start c dbc p s) n \<Longrightarrow> cap (pool_of (net_tp n)) = cap p"
  by (induction rule: net_reach.induct) (simp_all add: net_step_cap, simp add: net_start_def tp_start_def)

definition served_exactly :: "'a net \<Rightarrow> bool" where
  \<comment> \<open>contexts, sockets and jobs of the connections in progress correspond one to one\<close>
  "served_exactly n \<longleftrightarrow> bij_betw (ctx_of n) (live_jobs (net_tp n)) (dom (net_ctxs n)) \<and>
     bij_betw (fd_of n) (dom (net_ctxs n)) (net_fds n)"

lemma net_reach_accounts:
  assumes "new_pool p" and "net_reach (net_start c dbc p s) n"
  shows "conns n = length (accepted (net_tp n)) + refusals n + drops n"
    and "g_server_busy (metrics (net_sys n)) = g_server_busy (metrics s) + of_nat (refusals n)"
    and "served_exactly n" and "length (queued (pool_of (net_tp n))) \<le> cap p"
    and "set (workers (net_tp n)) = {Exited} \<Longrightarrow>
      mset (executed (net_tp n)) = mset (accepted (net_tp n)) \<and> net_ctxs n = Map.empty \<and> net_fds n = {}"
proof -
  note inv = net_reach_inv [OF assms(2,1)]
  have tp: "tp_inv (net_tp n)" "\<not> late (net_tp n)" using inv by (simp_all add: net_inv_def)
  show "conns n = length (accepted (net_tp n)) + refusals n + drops n"
    "g_server_busy (metrics (net_sys n)) = g_server_busy (metrics s) + of_nat (refusals n)" "served_exactly n"
    using inv by (simp_all add: net_inv_def served_exactly_def)
  show "length (queued (pool_of (net_tp n))) \<le> cap p"
    using tp(1) net_reach_cap [OF assms(2)] by (simp add: tp_inv_def pool_ok_def)
  show "mset (executed (net_tp n)) = mset (accepted (net_tp n)) \<and> net_ctxs n = Map.empty \<and> net_fds n = {}"
    if "set (workers (net_tp n)) = {Exited}"
  proof -
    note d = tp_inv_drained [OF tp(1) that tp(2)]
    have "live_jobs (net_tp n) = {}" using d(1,2) by (simp add: live_jobs_balance(2) [OF tp(1)])
    then have "dom (net_ctxs n) = {}" "net_fds n = fd_of n ` dom (net_ctxs n)" using inv by (auto simp: net_inv_def bij_betw_def)
    then show ?thesis using d(3) by simp
  qed
qed

text \<open>
  Every connection the server accepts is accounted for. Start from the configuration that
  \<open>config_init\<close> read and the pool \<open>threadpool_create\<close> built from it, and interleave in any order the
  iterations of the accept loop (with allocation failures and a full queue), the workers and the
  shutdown. The accepted connections are exactly the ones queued as a job, answered
  \<open>server_busy\<close> or dropped for lack of memory, \<open>server_busy\<close> is counted once per refusal, at most
  \<open>QUEUE_CAP\<close> connections wait, and jobs in progress, their contexts and the open sockets correspond one to one; once the
  listener has stopped and every worker has left, every queued connection was served and no context and no socket is left.
\<close>

theorem net_conservation:
  assumes "config_init s0 = Some c" and "threadpool_create (cfg_num_threads c) (queue_cap c) spawn s = (Some p, s')"
    and "net_reach (net_start c dbc p s') n"
  shows "conns n = length (accepted (net_tp n)) + refusals n + drops n \<and>
    g_server_busy (metrics (net_sys n)) = g_server_busy (metrics s') + of_nat (refusals n) \<and>
    served_exactly n \<and>
    int (length (queued (pool_of (net_tp n)))) \<le> queue_cap c \<and>
    (set (workers (net_tp n)) = {Exited} \<longrightarrow>
       mset (executed (net_tp n)) = mset (accepted (net_tp n)) \<and> net_ctxs n = Map.empty \<and> net_fds n = {})"
proof -
  have new: "new_pool p" by (rule threadpool_create_new [OF assms(2)])
  have "int (cap p) = queue_cap c"
    using assms(2) config_init_sane [OF assms(1)]
    by (auto simp: threadpool_create_def Let_def split: option.splits prod.splits if_splits)
  then show ?thesis using net_reach_accounts [OF new assms(3)] by simp
qed

subsection \<open>A concrete run\<close>

definition demo_net_sys :: sys where
  \<comment> \<open>one worker, room for one waiting connection\<close>
  "demo_net_sys = \<lparr>env_src = [''DB_URI'' \<mapsto> ''db'', ''THREADS'' \<mapsto> ''1'', ''QUEUE_CAP'' \<mapsto> ''1''],
     time_src = (\<lambda>_. 0), time_calls = 0, rand_src = (\<lambda>_. 0), rand_calls = 0, alloc_src = (\<lambda>_. True), allocs = 0,
     trace = [], metrics = metrics_zero\<rparr>"

definition demo_config :: config where
  "demo_config = \<lparr>cfg_db_uri = ''db'', listen_port = 9090, cfg_num_threads = 1, queue_cap = 1, cfg_api_token = None\<rparr>"

definition demo_net0 :: "unit net" where
  "demo_net0 = net_start demo_config (Some 0) \<lparr>num_threads = 1, head = None, tail = None, qsize = 0, cap = 1,
     shutting_down = False, jobs = Map.empty\<rparr> ((demo_net_sys)\<lparr>allocs := 2\<rparr>)"

definition demo_net1 :: "unit net" where
  \<comment> \<open>two connections arrive before the worker runs: the second finds the queue full\<close>
  "demo_net1 = accept_conn 0 8 (accept_conn 0 7 (demo_net0))"

definition demo_net2 :: "unit net" where
  \<comment> \<open>the first is served, the listener fails, the pool is shut down and its worker leaves\<close>
  "demo_net2 =
     (let n = demo_net1; n = n\<lparr>net_tp := lock_step 0 (net_tp n)\<rparr>; n = finish_conn 0 3 n; n = n\<lparr>listening := False\<rparr>;
          n = n\<lparr>net_tp := shutdown_step (net_tp n)\<rparr> in
      n\<lparr>net_tp := lock_step 0 (net_tp n)\<rparr>)"

lemmas net_exec_defs = accept_conn_def net_submit_def finish_conn_def ctx_of_def fd_of_def net_start_def malloc_def emit_def
  with_metrics_def metrics_inc_server_busy_def handler_fn_def wake_one_def demo_net_sys_def metrics_zero_def demo_config_def
  submit_step_def lock_step_def finish_step_def shutdown_step_def tp_submit_locked_def tp_enqueue_def worker_locked_def
  worker_pop_def wake_all_def tp_start_def Let_def

lemma demo_net_config: "config_init (demo_net_sys) = Some demo_config"
  by (simp add: config_init_def demo_net_sys_def demo_config_def positive_or_def) code_simp

lemma demo_net_pool:
  "threadpool_create (cfg_num_threads demo_config) (queue_cap demo_config) (\<lambda>_. True) (demo_net_sys) =
     (Some \<lparr>num_threads = 1, head = None, tail = None, qsize = 0, cap = 1, shutting_down = False, jobs = Map.empty\<rparr>,
      (demo_net_sys)\<lparr>allocs := 2\<rparr>)"
  by (simp add: threadpool_create_def malloc_def demo_config_def demo_net_sys_def)

lemmas demo_net_defs = demo_net2_def demo_net1_def demo_net0_def net_exec_defs

lemma demo_net1_reach: "net_reach demo_net0 demo_net1"
proof -
  have "net_step demo_net0 (accept_conn 0 7 demo_net0)" by (rule net_step.conn) (simp_all add: demo_net_defs)
  moreover have "net_step (accept_conn 0 7 demo_net0) demo_net1"
    unfolding demo_net1_def by (rule net_step.conn) (simp_all add: demo_net_defs)
  ultimately show ?thesis by (meson net_reach.intros)
qed

lemma demo_net2_reach: "net_reach demo_net0 demo_net2"
proof -
  let ?n1 = "demo_net1\<lparr>net_tp := lock_step 0 (net_tp demo_net1)\<rparr>"
  let ?n2 = "finish_conn 0 3 ?n1"
  let ?n3 = "?n2\<lparr>listening := False\<rparr>"
  let ?n4 = "?n3\<lparr>net_tp := shutdown_step (net_tp ?n3)\<rparr>"
  have "net_step demo_net1 ?n1" by (rule net_step.lock) (simp_all add: demo_net_defs)
  moreover have "net_step ?n1 ?n2" by (rule net_step.finish) (simp_all add: demo_net_defs)
  moreover have "net_step ?n2 ?n3" by (rule net_step.accept_error) (simp_all add: demo_net_defs)
  moreover have "net_step ?n3 ?n4" by (rule net_step.shutdown) simp
  moreover have "net_step ?n4 demo_net2"
    unfolding demo_net2_def Let_def by (rule net_step.lock) (simp_all add: demo_net_defs)
  ultimately show ?thesis using demo_net1_reach by (meson net_reach.net_next)
qed

text \<open>A concrete instance.\<close>

theorem net_conservation_witness:
  "conns demo_net2 = 2 \<and> refusals demo_net2 = 1 \<and> g_server_busy (metrics (net_sys demo_net2)) = 1 \<and>
   executed (net_tp demo_net2) = [3] \<and> net_ctxs demo_net2 = Map.empty \<and> net_fds demo_net2 = {}"
proof -
  note c = net_conservation [OF demo_net_config demo_net_pool demo_net2_reach [unfolded demo_net0_def]]
  have "set (workers (net_tp demo_net2)) = {Exited}" by (simp add: demo_net_defs)
  moreover have "executed (net_tp demo_net2) = [3]" "accepted (net_tp demo_net2) = [3]" "refusals demo_net2 = 1" "drops demo_net2 = 0"
    by (simp_all add: demo_net_defs)
  ultimately show ?thesis using c by (simp add: demo_net_sys_def metrics_zero_def)
qed

end
