(* ===== verification/Card.thy ===== *)
theory Card
  imports Prelude
begin

section \<open>Card numbers: Luhn check and masking (server/handler.c)\<close>

text \<open>
  \<open>luhn_check\<close> and \<open>mask_pan\<close> of \<open>server/handler.c\<close>. The loop of \<open>luhn_check\<close> walks the digits
  from the last to the first; the model is that loop on the reversed text, with the loop's early
  return. \<open>mask_pan\<close> is its chain of conditions, on a destination of \<open>outsz\<close> bytes whose previous
  contents are \<open>out\<close> (kept when \<open>outsz\<close> is 0).
\<close>

fun luhn_loop :: "int \<Rightarrow> bool \<Rightarrow> string \<Rightarrow> int option" where
  \<comment> \<open>the loop of \<open>luhn_check\<close> over the characters not yet visited, last one first; \<^const>\<open>None\<close>
      is the early return on a character that is not a digit\<close>
  "luhn_loop acc alt [] = Some acc"
| "luhn_loop acc alt (c # cs) =
     (if \<not> isdigit c then None
      else
        let d = digit_val c;
            d = (if alt then (let d2 = d * 2 in if d2 > 9 then d2 - 9 else d2) else d)
        in luhn_loop (acc + d) (\<not> alt) cs)"

definition luhn_check :: "string \<Rightarrow> bool" where
  "luhn_check digits =
     (case luhn_loop 0 False (rev digits) of None \<Rightarrow> False | Some acc \<Rightarrow> acc mod 10 = 0)"

definition mask_pan :: "string \<Rightarrow> nat \<Rightarrow> string \<Rightarrow> string" where
  "mask_pan pan outsz out =
     (let n = length pan in
      if outsz = 0 then out
      else if n \<le> 10 then clip outsz pan
      else
        let prefix = 6; suffix = 4 in
        if prefix + suffix \<ge> n then clip outsz pan
        else
          let stars = n - prefix - suffix in
          if outsz < n + 1 then clip outsz pan
          else take prefix pan @ replicate stars CHR ''*'' @ drop (n - suffix) pan)"

subsection \<open>The Luhn sum\<close>

definition luhn_weight :: "nat \<Rightarrow> int \<Rightarrow> int" where
  \<comment> \<open>contribution of the digit \<open>d\<close> at position \<open>i\<close> counted from the right\<close>
  "luhn_weight i d = (if even i then d else if d * 2 > 9 then d * 2 - 9 else d * 2)"

definition luhn_sum :: "string \<Rightarrow> int" where
  \<comment> \<open>the textbook sum, positions counted from the right end\<close>
  "luhn_sum ds = (\<Sum>i < length ds. luhn_weight i (digit_val (rev ds ! i)))"

definition all_digits :: "string \<Rightarrow> bool" where
  "all_digits s \<longleftrightarrow> (\<forall>c \<in> set s. isdigit c)"

lemma luhn_loop_digits:
  assumes "all_digits cs"
  shows "luhn_loop acc alt cs =
     Some (acc + (\<Sum>i < length cs. luhn_weight (if alt then Suc i else i) (digit_val (cs ! i))))"
  using assms
proof (induction cs arbitrary: acc alt)
  case Nil
  then show ?case by simp
next
  case (Cons c cs)
  have "luhn_loop acc alt (c # cs) = luhn_loop (acc + luhn_weight (if alt then 1 else 0) (digit_val c)) (\<not> alt) cs"
    using Cons.prems by (simp add: all_digits_def luhn_weight_def Let_def)
  also have "\<dots> = Some (acc + luhn_weight (if alt then 1 else 0) (digit_val c) +
      (\<Sum>i < length cs. luhn_weight (if \<not> alt then Suc i else i) (digit_val (cs ! i))))"
    using Cons by (simp add: all_digits_def)
  also have "(\<Sum>i < length cs. luhn_weight (if \<not> alt then Suc i else i) (digit_val (cs ! i))) =
      (\<Sum>i < length cs. luhn_weight (if alt then Suc (Suc i) else Suc i) (digit_val (cs ! i)))"
    by (rule sum.cong) (auto simp: luhn_weight_def)
  finally show ?case
    by (cases alt) (simp_all add: sum.lessThan_Suc_shift del: sum.lessThan_Suc)
qed

lemma luhn_loop_None: "luhn_loop acc alt cs = None \<longleftrightarrow> \<not> all_digits cs"
  by (induction cs arbitrary: acc alt) (auto simp: all_digits_def Let_def)

definition wsum :: "nat \<Rightarrow> string \<Rightarrow> int" where
  "wsum k cs = (\<Sum>i < length cs. luhn_weight (k + i) (digit_val (cs ! i)))"

lemma wsum_Nil [simp]: "wsum k [] = 0"
  by (simp add: wsum_def)

lemma wsum_Cons [simp]: "wsum k (c # cs) = luhn_weight k (digit_val c) + wsum (Suc k) cs"
  by (simp add: wsum_def sum.lessThan_Suc_shift del: sum.lessThan_Suc)

lemma wsum_append: "wsum k (xs @ ys) = wsum k xs + wsum (k + length xs) ys"
  by (induction xs arbitrary: k) simp_all

lemma luhn_sum_wsum: "luhn_sum s = wsum 0 (rev s)"
  by (simp add: luhn_sum_def wsum_def)

lemma luhn_check_iff: "luhn_check s \<longleftrightarrow> all_digits s \<and> 10 dvd wsum 0 (rev s)"
proof (cases "all_digits s")
  case True
  then have "all_digits (rev s)" by (simp add: all_digits_def)
  then have "luhn_loop 0 False (rev s) = Some (wsum 0 (rev s))"
    using luhn_loop_digits [of "rev s" 0 False] by (simp add: wsum_def)
  with True show ?thesis by (simp add: luhn_check_def dvd_eq_mod_eq_0)
next
  case False
  then have "luhn_loop 0 False (rev s) = None" by (simp add: luhn_loop_None all_digits_def)
  with False show ?thesis by (simp add: luhn_check_def)
qed

text \<open>
  C26. \<open>luhn_check\<close> accepts a text exactly when all its characters are decimal digits and the Luhn
  sum, which doubles every second digit from the right and subtracts 9 from results above 9, is a
  multiple of 10.
\<close>

theorem luhn_check_correct:
  "luhn_check s \<longleftrightarrow> all_digits s \<and> 10 dvd luhn_sum s"
  unfolding luhn_sum_wsum by (rule luhn_check_iff)

subsection \<open>Error detection\<close>

lemma luhn_weight_range: "0 \<le> d \<Longrightarrow> d \<le> 9 \<Longrightarrow> 0 \<le> luhn_weight i d \<and> luhn_weight i d \<le> 9"
  by (auto simp: luhn_weight_def)

lemma luhn_weight_inj:
  "0 \<le> d \<Longrightarrow> d \<le> 9 \<Longrightarrow> 0 \<le> e \<Longrightarrow> e \<le> 9 \<Longrightarrow> luhn_weight i d = luhn_weight i e \<Longrightarrow> d = e"
  by (simp add: luhn_weight_def split: if_splits) presburger+

lemma dvd10_small: "10 dvd (x::int) \<Longrightarrow> - 10 < x \<Longrightarrow> x < 10 \<Longrightarrow> x = 0"
  by presburger

lemma digit_val_inj: "isdigit a \<Longrightarrow> isdigit b \<Longrightarrow> digit_val a = digit_val b \<Longrightarrow> a = b"
  by (simp add: digit_val_def code_of_def)

text \<open>
  The check detects every single-digit error: if a number passes, no number that differs from
  it in exactly one character passes.
\<close>

theorem luhn_detects_single_error:
  assumes "luhn_check (xs @ a # ys)" and "a \<noteq> b"
  shows "\<not> luhn_check (xs @ b # ys)"
proof
  assume b: "luhn_check (xs @ b # ys)"
  let ?i = "length ys"
  let ?w = "\<lambda>c. luhn_weight ?i (digit_val c)"
  have s: "wsum 0 (rev (xs @ c # ys)) = wsum 0 (rev ys) + ?w c + wsum (Suc ?i) (rev xs)" for c
    by (simp add: wsum_append)
  have d: "isdigit a" "isdigit b"
    using assms(1) b unfolding luhn_check_iff all_digits_def by simp_all
  have "10 dvd wsum 0 (rev (xs @ a # ys)) - wsum 0 (rev (xs @ b # ys))"
    using assms(1) b unfolding luhn_check_iff by (simp add: dvd_diff)
  then have "10 dvd ?w a - ?w b" unfolding s by simp
  moreover have "- 10 < ?w a - ?w b" "?w a - ?w b < 10"
    using luhn_weight_range [of "digit_val a" ?i] luhn_weight_range [of "digit_val b" ?i]
      digit_val_range d by auto
  ultimately have "?w a = ?w b" using dvd10_small [of "?w a - ?w b"] by simp
  then have "digit_val a = digit_val b"
    using luhn_weight_inj digit_val_range d by blast
  with d digit_val_inj assms(2) show False by blast
qed

text \<open>A concrete instance: a test number and the same number with its last digit changed.\<close>

theorem luhn_detects_single_error_witness:
  "luhn_check ''4111111111111111'' \<and> \<not> luhn_check ''4111111111111112''"
proof -
  have "luhn_check (''411111111111111'' @ CHR ''1'' # [])"
    by (simp add: luhn_check_def isdigit_def digit_val_def code_of_def)
  from luhn_detects_single_error [OF this, of "CHR ''2''"] this show ?thesis by simp
qed

subsection \<open>Masking\<close>

lemma mask_pan_long:
  assumes "10 < length pan" and "length pan < outsz"
  shows "mask_pan pan outsz out =
     take 6 pan @ replicate (length pan - 10) CHR ''*'' @ drop (length pan - 4) pan"
  using assms by (simp add: mask_pan_def Let_def)

text \<open>
  Masking reveals nothing but the length, the first six and the last four digits: for card
  numbers of more than ten characters that fit the destination, the output has the length of the
  input, shows those ten characters and a \<open>*\<close> in every other place; and two numbers of the same
  length that agree on them have the same masked form.
\<close>

theorem mask_pan_hides_middle:
  assumes "10 < length pan" and "length pan < outsz"
  shows "length (mask_pan pan outsz out) = length pan \<and>
     (\<forall>i < length pan. mask_pan pan outsz out ! i =
        (if i < 6 \<or> length pan - 4 \<le> i then pan ! i else CHR ''*'')) \<and>
     (\<forall>pan'. length pan' = length pan \<and> take 6 pan' = take 6 pan \<and>
        drop (length pan - 4) pan' = drop (length pan - 4) pan \<longrightarrow>
        mask_pan pan' outsz out = mask_pan pan outsz out)"
proof (intro conjI allI impI)
  let ?n = "length pan" and ?m = "mask_pan pan outsz out"
  note m = mask_pan_long [OF assms, of out]
  show "length ?m = ?n" using assms by (simp add: m)
  fix i assume i: "i < ?n"
  consider "i < 6" | "6 \<le> i" "i < ?n - 4" | "?n - 4 \<le> i" by linarith
  then show "?m ! i = (if i < 6 \<or> ?n - 4 \<le> i then pan ! i else CHR ''*'')"
  proof cases
    case 1
    with assms show ?thesis by (simp add: m nth_append)
  next
    case 2
    with assms have "\<not> i < 6" "i - 6 < ?n - 10" by simp_all
    with 2 assms show ?thesis by (simp add: m nth_append)
  next
    case 3
    with assms have "\<not> i < 6" "\<not> i - 6 < ?n - 10" "?n - 4 + (i - 6 - (?n - 10)) = i" by simp_all
    then have "?m ! i = pan ! i" using assms i by (simp add: m nth_append)
    with 3 show ?thesis by (simp only: simp_thms if_True)
  qed
next
  fix pan' assume a: "length pan' = length pan \<and> take 6 pan' = take 6 pan \<and>
    drop (length pan - 4) pan' = drop (length pan - 4) pan"
  with assms show "mask_pan pan' outsz out = mask_pan pan outsz out"
    by (simp add: mask_pan_long)
qed

text \<open>A concrete instance.\<close>

theorem mask_pan_hides_middle_witness:
  "mask_pan ''4111111111111111'' 64 [] = ''411111******1111'' \<and>
   length (mask_pan ''4111111111111111'' 64 []) = 16"
proof -
  have "10 < length ''4111111111111111''" "length ''4111111111111111'' < 64" by simp_all
  from mask_pan_hides_middle [OF this, of "[]"] show ?thesis
    by (simp add: mask_pan_def eval_nat_numeral)
qed

end
