(* ===== verification/Amount.thy ===== *)
theory Amount
  imports Prelude
begin

section \<open>The amount check (server/handler.c)\<close>

text \<open>
  The handler reads the amount with \<open>atof\<close> and rejects it unless \<open>amt > 0.0\<close> and
  \<open>amt <= 10000.0\<close>. \<open>atof\<close> is \<open>strtod\<close>: it skips white space and converts the longest prefix that
  is a decimal or hexadecimal floating constant, an infinity or a NaN; without such a prefix the
  value is 0. The model computes the exact rational value of that prefix; the C library returns the
  nearest double, ties to even. Against the two bounds of the check this rounding amounts to the
  following: the double is positive iff the exact value is above half the smallest subnormal,
  \<open>2^-1075\<close>; and it is at most 10000 iff the exact value is at most \<open>10000 + 2^-40\<close>, half way to the
  next double (the tie goes to 10000, whose last mantissa bit is 0).
\<close>

datatype fpval = Nan | Inf bool | Fin bool nat nat
  \<comment> \<open>\<open>Fin neg n d\<close> is the exact value \<open>n / d\<close>, negated when \<open>neg\<close>\<close>

definition lower :: "char \<Rightarrow> char" where
  "lower c = (if 65 \<le> code_of c \<and> code_of c \<le> 90 then char_of (nat (code_of c) + 32) else c)"

definition hex_val :: "char \<Rightarrow> nat option" where
  "hex_val c =
     (if isdigit c then Some (nat (digit_val c))
      else let l = code_of (lower c) in if 97 \<le> l \<and> l \<le> 102 then Some (nat l - 87) else None)"

definition ishex :: "char \<Rightarrow> bool" where
  "ishex c \<longleftrightarrow> hex_val c \<noteq> None"

fun digits_value :: "nat \<Rightarrow> (char \<Rightarrow> nat) \<Rightarrow> nat \<Rightarrow> string \<Rightarrow> nat" where
  "digits_value b val acc [] = acc"
| "digits_value b val acc (c # cs) = digits_value b val (b * acc + val c) cs"

definition split_sign :: "string \<Rightarrow> bool \<times> string" where
  "split_sign s =
     (case s of
        [] \<Rightarrow> (False, [])
      | c # cs \<Rightarrow> if c = CHR ''-'' then (True, cs) else if c = CHR ''+'' then (False, cs) else (False, s))"

definition exponent_part :: "char \<Rightarrow> string \<Rightarrow> int" where
  \<comment> \<open>the exponent behind the letter \<open>e\<close> (or \<open>p\<close>), 0 when there is none\<close>
  "exponent_part e s =
     (case s of
        [] \<Rightarrow> 0
      | c # cs \<Rightarrow>
          if lower c \<noteq> e then 0
          else let (neg, ds) = split_sign cs; ds = takeWhile isdigit ds;
                   v = int (digits_value 10 (nat \<circ> digit_val) 0 ds)
               in if neg then - v else v)"

definition mantissa :: "(char \<Rightarrow> bool) \<Rightarrow> string \<Rightarrow> string \<times> nat \<times> string" where
  \<comment> \<open>the digits of the mantissa, how many of them are behind the point, and the rest\<close>
  "mantissa isd s =
     (let ip = takeWhile isd s; r = dropWhile isd s in
      case r of
        c # cs \<Rightarrow> if c = CHR ''.'' then (ip @ takeWhile isd cs, length (takeWhile isd cs), dropWhile isd cs)
                  else (ip, 0, r)
      | [] \<Rightarrow> (ip, 0, []))"

definition scaled :: "bool \<Rightarrow> nat \<Rightarrow> nat \<Rightarrow> int \<Rightarrow> fpval" where
  \<comment> \<open>\<open>m * b^k\<close>\<close>
  "scaled neg m b k = (if k \<ge> 0 then Fin neg (m * b ^ nat k) 1 else Fin neg m (b ^ nat (- k)))"

definition atof :: "string \<Rightarrow> fpval" where
  "atof s =
     (let (neg, s) = split_sign (skip isspace s); l = map lower s in
      if prefix ''inf'' l then Inf neg
      else if prefix ''nan'' l then Nan
      else
        let hx = drop 2 s; (hds, hf, hr) = mantissa ishex hx in
        if prefix ''0x'' l \<and> hds \<noteq> [] then
          scaled neg (digits_value 16 (the \<circ> hex_val) 0 hds) 2 (exponent_part CHR ''p'' hr - 4 * int hf)
        else
          let (ds, f, r) = mantissa isdigit s in
          if ds = [] then Fin False 0 1
          else scaled neg (digits_value 10 (nat \<circ> digit_val) 0 ds) 10 (exponent_part CHR ''e'' r - int f))"

definition amount_valid :: "string \<Rightarrow> bool" where
  \<comment> \<open>\<open>!(!(amt > 0.0) || amt > 10000.0)\<close> for \<open>amt = atof(s)\<close>\<close>
  "amount_valid s =
     (case atof s of
        Nan \<Rightarrow> False
      | Inf _ \<Rightarrow> False
      | Fin neg n d \<Rightarrow> \<not> neg \<and> d < n * 2 ^ 1075 \<and> n * 2 ^ 40 \<le> (10000 * 2 ^ 40 + 1) * d)"

subsection \<open>Amounts in cents\<close>

lemma digits_value_append:
  "digits_value b v acc (xs @ ys) = digits_value b v (digits_value b v acc xs) ys"
  by (induction xs arbitrary: acc) simp_all

lemma digits_value_show_nat: "digits_value 10 (nat \<circ> digit_val) 0 (show_nat n) = n"
proof (induction n rule: show_nat.induct)
  case (1 n)
  show ?case
  proof (cases "n < 10")
    case True
    then show ?thesis by (subst show_nat.simps) simp
  next
    case False
    have "digits_value 10 (nat \<circ> digit_val) 0 (show_nat (n div 10)) = n div 10" by (rule "1.IH" [OF False])
    then have "digits_value 10 (nat \<circ> digit_val) 0 (show_nat (n div 10) @ [digit_char (n mod 10)]) = n"
      unfolding digits_value_append by simp
    moreover have "show_nat n = show_nat (n div 10) @ [digit_char (n mod 10)]"
      using False by (subst show_nat.simps) simp
    ultimately show ?thesis by metis
  qed
qed

lemma takeWhile_digits: "\<forall>c \<in> set xs. P c \<Longrightarrow> \<not> P d \<Longrightarrow> takeWhile P (xs @ d # ys) = xs"
  by (induction xs) auto

lemma dropWhile_digits: "\<forall>c \<in> set xs. P c \<Longrightarrow> \<not> P d \<Longrightarrow> dropWhile P (xs @ d # ys) = d # ys"
  by (induction xs) auto

definition cents_text :: "nat \<Rightarrow> string" where
  \<comment> \<open>an amount of \<open>n\<close> cents as it is usually written, with two decimals\<close>
  "cents_text n = show_nat (n div 100) @ CHR ''.'' # digit_char (n mod 100 div 10) # digit_char (n mod 10) # []"

lemma digit_facts:
  assumes "isdigit c"
  shows "lower c = c" "c \<noteq> CHR ''-''" "c \<noteq> CHR ''+''" "c \<noteq> CHR ''i''" "c \<noteq> CHR ''n''" "c \<noteq> CHR ''x''" "c \<noteq> CHR ''.''"
    "c \<noteq> CHR ''X''"
  using assms by (auto simp: isdigit_def lower_def code_of_def)

lemma not_hex_prefix:
  assumes "s = show_nat k @ CHR ''.'' # r"
  shows "\<not> prefix ''0x'' (map lower s)" and "\<not> prefix ''inf'' (map lower s)" and "\<not> prefix ''nan'' (map lower s)"
proof -
  obtain c cs where c: "show_nat k = c # cs" "isdigit c" using show_nat_Cons by blast
  have d: "\<forall>x \<in> set cs. isdigit x" using show_nat_digits [of k] c(1) by simp
  have p: "lower CHR ''.'' = CHR ''.''" by (simp add: lower_def code_of_def)
  show "\<not> prefix ''inf'' (map lower s)" "\<not> prefix ''nan'' (map lower s)"
    using digit_facts [OF c(2)] by (auto simp: assms c(1))
  show "\<not> prefix ''0x'' (map lower s)"
  proof (cases cs)
    case Nil
    then show ?thesis using p by (auto simp: assms c(1))
  next
    case (Cons e es)
    then have "isdigit e" using d by simp
    from digit_facts [OF this] Cons show ?thesis by (auto simp: assms c(1))
  qed
qed

lemma atof_cents: "atof (cents_text n) = Fin False n 100"
proof -
  let ?a = "digit_char (n mod 100 div 10)" and ?b = "digit_char (n mod 10)"
  let ?s = "show_nat (n div 100) @ CHR ''.'' # [?a, ?b]"
  have ab: "isdigit ?a" "isdigit ?b" "\<not> isdigit CHR ''.''"
    by (simp_all add: isdigit_def code_of_def [of "CHR ''.''"])
  obtain c cs where c: "show_nat (n div 100) = c # cs" "isdigit c" using show_nat_Cons by blast
  have sk: "skip isspace ?s = ?s" using c isdigit_not_space by simp
  have sg: "split_sign ?s = (False, ?s)" using c digit_facts [OF c(2)] by (simp add: split_sign_def)
  have m: "mantissa isdigit ?s = (show_nat (n div 100) @ [?a, ?b], 2, [])"
    using ab takeWhile_digits [OF show_nat_digits ab(3)] dropWhile_digits [OF show_nat_digits ab(3)]
    by (simp add: mantissa_def Let_def)
  have "n mod 10 = n mod 100 mod 10" by (simp add: mod_mod_cancel)
  then have "100 * (n div 100) + 10 * (n mod 100 div 10) + n mod 10 = n" by presburger
  then have v: "digits_value 10 (nat \<circ> digit_val) 0 (show_nat (n div 100) @ [?a, ?b]) = n"
    by (simp add: digits_value_append digits_value_show_nat)
  have "atof ?s = scaled False n 10 (exponent_part CHR ''e'' [] - int 2)"
    unfolding atof_def sk sg
    using not_hex_prefix [OF refl, of "n div 100" "[?a, ?b]"] m v by (simp add: case_prod_beta Let_def)
  then show ?thesis by (simp add: cents_text_def scaled_def exponent_part_def)
qed

lemma amount_valid_cents_iff: "amount_valid (cents_text n) \<longleftrightarrow> 1 \<le> n \<and> n \<le> 1000000"
proof -
  have "(100::nat) < n * 2 ^ 1075 \<longleftrightarrow> 1 \<le> n"
  proof
    assume "1 \<le> n"
    have "(100::nat) < 2 ^ 7" by simp
    also have "(2::nat) ^ 7 \<le> 2 ^ 1075" by (rule power_increasing) simp_all
    also have "\<dots> = 1 * 2 ^ 1075" by (rule mult_1 [symmetric])
    also have "\<dots> \<le> n * 2 ^ 1075" using \<open>1 \<le> n\<close> by (rule mult_le_mono1)
    finally show "(100::nat) < n * 2 ^ 1075" .
  qed (cases n, simp_all)
  moreover have "n * 2 ^ 40 \<le> (10000 * 2 ^ 40 + 1) * (100::nat) \<longleftrightarrow> n \<le> 1000000"
  proof (cases "n \<le> 1000000")
    case False
    then have "1000001 \<le> n" by simp
    then have "1000001 * 2 ^ 40 \<le> n * (2 ^ 40 :: nat)" by (rule mult_le_mono1)
    with False show ?thesis by simp
  qed simp
  ultimately show ?thesis by (simp add: amount_valid_def atof_cents)
qed

text \<open>
  C27. For amounts written with two decimals the check is exact: the text of an amount of \<open>n\<close> cents
  passes iff \<open>n\<close> is between 1 and 1000000, that is from 0.01 to 10000.00; the rounding of the
  floating-point conversion never admits 0.00 or 10000.01.
\<close>

theorem amount_valid_cents: "amount_valid (cents_text n) \<longleftrightarrow> 1 \<le> n \<and> n \<le> 1000000"
  by (rule amount_valid_cents_iff)

end
