(* ===== verification/Iso8583.thy ===== *)
theory Iso8583
  imports Prelude
begin

section \<open>Request parsing (server/iso8583.c)\<close>

text \<open>
  The extractor \<open>jget\<close> and \<open>iso_parse_request_line\<close>. A pointer into the request text is the
  suffix it points to; what \<open>jget\<close> writes to its destination of \<open>outsz\<close> bytes is the value of
  \<^const>\<open>Some\<close>, and \<^const>\<open>None\<close> is the result -1, which leaves the destination as it was.
\<close>

datatype iso_msg_type = ISO_MSG_AUTH | ISO_MSG_CAPTURE | ISO_MSG_REFUND | ISO_MSG_REVERSAL

record iso_request =
  pan :: string
  amount_text :: string
  currency :: string
  request_id :: string
  msg_type :: iso_msg_type

abbreviation quote :: char where
  "quote \<equiv> CHR 0x22"

definition jget_limit :: "nat \<Rightarrow> string \<Rightarrow> string" where
  \<comment> \<open>the copy of the first \<open>len\<close> characters, \<open>len\<close> cut to \<open>outsz - 1\<close>\<close>
  "jget_limit outsz v = (let len = length v; len = (if len \<ge> outsz then outsz - 1 else len) in take len v)"

definition jget_value :: "string \<Rightarrow> nat \<Rightarrow> string option" where
  \<comment> \<open>the part of \<open>jget\<close> behind the colon\<close>
  "jget_value p outsz =
     (let p = skip isspace p in
      if p \<noteq> [] \<and> hd p = quote then
        (let p = tl p in
         case strchr p quote of
           None \<Rightarrow> None
         | Some q \<Rightarrow> Some (jget_limit outsz (take (length p - length q) p)))
      else
        let v = takeWhile (\<lambda>c. c \<noteq> CHR '','' \<and> c \<noteq> CHR ''}'' \<and> \<not> isspace c) p in
        if v = [] then None else Some (jget_limit outsz v))"

definition jget :: "string \<Rightarrow> string \<Rightarrow> nat \<Rightarrow> string option" where
  "jget buf key outsz =
     (let pattern = clip 64 (quote # key @ [quote]) in
      case strstr buf pattern of
        None \<Rightarrow> None
      | Some p \<Rightarrow>
          (case strchr (drop (length pattern) p) CHR '':'' of
             None \<Rightarrow> None
           | Some p \<Rightarrow> jget_value (tl p) outsz))"

definition iso_type_of :: "string \<Rightarrow> iso_msg_type \<Rightarrow> iso_msg_type" where
  "iso_type_of t old =
     (if t = ''AUTH'' then ISO_MSG_AUTH
      else if t = ''CAPTURE'' then ISO_MSG_CAPTURE
      else if t = ''REFUND'' then ISO_MSG_REFUND
      else if t = ''REVERSAL'' then ISO_MSG_REVERSAL
      else old)"

definition iso_parse_request_line :: "string option \<Rightarrow> string + iso_request" where
  \<comment> \<open>\<^const>\<open>Inl\<close>: result -1 with the text left in \<open>err_reason\<close> (empty when \<open>line\<close> is null)\<close>
  "iso_parse_request_line line =
     (case line of
        None \<Rightarrow> Inl ''''
      | Some line \<Rightarrow>
          (case jget line ''pan'' 64 of
             None \<Rightarrow> Inl ''missing_pan''
           | Some p \<Rightarrow>
               (case jget line ''amount'' 64 of
                  None \<Rightarrow> Inl ''missing_amount''
                | Some a \<Rightarrow>
                    Inr \<lparr>pan = p, amount_text = a,
                         currency = (case jget line ''currency'' 8 of None \<Rightarrow> '''' | Some v \<Rightarrow> v),
                         request_id = (case jget line ''request_id'' 128 of None \<Rightarrow> '''' | Some v \<Rightarrow> v),
                         msg_type =
                           (case jget line ''type'' 32 of
                              None \<Rightarrow> ISO_MSG_AUTH
                            | Some t \<Rightarrow> iso_type_of t ISO_MSG_AUTH)\<rparr>)))"

subsection \<open>Buffer bounds\<close>

lemma jget_limit_clip: "jget_limit outsz v = clip outsz v"
  by (simp add: jget_limit_def clip_def Let_def)

lemma jget_value_length: "jget_value p n = Some v \<Longrightarrow> length v \<le> n - 1"
  by (auto simp: jget_value_def Let_def jget_limit_clip split: if_splits option.splits)

lemma jget_length: "jget buf key n = Some v \<Longrightarrow> length v \<le> n - 1"
  by (auto simp: jget_def Let_def split: option.splits dest: jget_value_length)

lemma set_strchr: "strchr s c = Some r \<Longrightarrow> set r \<subseteq> set s"
  by (auto simp: strchr_Some_iff)

lemma set_strstr: "strstr s t = Some r \<Longrightarrow> set r \<subseteq> set s"
  using strstr_suffix by fastforce

lemma set_skip: "set (skip P s) \<subseteq> set s"
  by (simp add: skip_dropWhile set_dropWhileD subset_iff)

lemma jget_value_set:
  assumes "jget_value p n = Some v"
  shows "set v \<subseteq> set p"
proof -
  have "set (takeWhile P s) \<subseteq> set s" for P and s :: string
    using set_takeWhileD by fast
  moreover have "set (take k s) \<subseteq> set s" for k and s :: string
    by (rule set_take_subset)
  moreover have "set (tl s) \<subseteq> set s" for s :: string
    by (cases s) auto
  ultimately have "set v \<subseteq> set (skip isspace p)"
    using assms
    by (simp add: jget_value_def Let_def jget_limit_clip clip_def split: if_splits option.splits)
      (metis subset_trans)+
  then show ?thesis using set_skip by blast
qed

lemma jget_set:
  assumes "jget buf key n = Some v"
  shows "set v \<subseteq> set buf"
proof -
  obtain p r where p: "strstr buf (clip 64 (quote # key @ [quote])) = Some p"
    and r: "strchr (drop (length (clip 64 (quote # key @ [quote]))) p) CHR '':'' = Some r"
    and v: "jget_value (tl r) n = Some v"
    using assms by (auto simp: jget_def Let_def split: option.splits)
  have "set (tl r) \<subseteq> set r" by (cases r) auto
  with jget_value_set [OF v] have "set v \<subseteq> set r" by blast
  also have "set r \<subseteq> set p" using set_strchr [OF r] set_drop_subset by fast
  also have "set p \<subseteq> set buf" using set_strstr [OF p] .
  finally show ?thesis .
qed

text \<open>
  C24. Whatever the request line, a successful parse fills only fields that fit the buffers of
  \<open>IsoRequest\<close> with their terminators (64, 64, 8 and 128 bytes), and every character of a field
  comes from the line, so that fields parsed from a C string are C strings.
\<close>

theorem iso_parse_fits:
  assumes "iso_parse_request_line (Some line) = Inr r"
  shows "length (pan r) < 64 \<and> length (amount_text r) < 64 \<and> length (currency r) < 8 \<and>
     length (request_id r) < 128 \<and>
     (\<forall>f \<in> {pan r, amount_text r, currency r, request_id r}. set f \<subseteq> set line)"
proof -
  have b: "length (case jget line k (Suc n) of None \<Rightarrow> [] | Some v \<Rightarrow> v) \<le> n" for k n
    by (auto split: option.split dest: jget_length)
  have s: "set (case jget line k n of None \<Rightarrow> [] | Some v \<Rightarrow> v) \<subseteq> set line" for k n
    using jget_set [of line k n] by (cases "jget line k n") simp_all
  obtain p a where p: "jget line ''pan'' 64 = Some p" and a: "jget line ''amount'' 64 = Some a"
    and r: "pan r = p" "amount_text r = a"
      "currency r = (case jget line ''currency'' 8 of None \<Rightarrow> [] | Some v \<Rightarrow> v)"
      "request_id r = (case jget line ''request_id'' 128 of None \<Rightarrow> [] | Some v \<Rightarrow> v)"
    using assms by (auto simp: iso_parse_request_line_def split: option.splits)
  have "length (currency r) < 8" "length (request_id r) < 128"
    using b [of "''currency''" 7] b [of "''request_id''" 127] by (simp_all add: r)
  moreover have "set (currency r) \<subseteq> set line" "set (request_id r) \<subseteq> set line"
    unfolding r(3,4) by (rule s)+
  ultimately show ?thesis
    using jget_length [OF p] jget_length [OF a] jget_set [OF p] jget_set [OF a] by (simp add: r(1,2))
qed

subsection \<open>Flat JSON objects\<close>

text \<open>
  The messages the extractor is written for: one flat object, its members separated by commas,
  each value a text in quotes or a bare number. \<open>jobject fs\<close> is the text of the object with the
  members \<open>fs\<close>.
\<close>

datatype jvalue = Quoted string | Bare string

fun jval :: "jvalue \<Rightarrow> string" where
  "jval (Quoted s) = s"
| "jval (Bare s) = s"

fun jtext :: "jvalue \<Rightarrow> string" where
  "jtext (Quoted s) = quote # s @ [quote]"
| "jtext (Bare s) = s"

fun jrest :: "(string \<times> jvalue) list \<Rightarrow> string" where
  "jrest [] = ''}''"
| "jrest ((k, v) # fs) = CHR '','' # quote # k @ quote # CHR '':'' # jtext v @ jrest fs"

definition jobject :: "(string \<times> jvalue) list \<Rightarrow> string" where
  "jobject fs = CHR ''{'' # (if fs = [] then ''}'' else tl (jrest fs))"

definition key_ok :: "string \<Rightarrow> bool" where
  "key_ok k \<longleftrightarrow> length k \<le> 61 \<and> set k \<inter> {quote, CHR '','', CHR '':''} = {}"

definition bare_end :: "char \<Rightarrow> bool" where
  "bare_end c \<longleftrightarrow> c = CHR '','' \<or> c = CHR ''}'' \<or> isspace c"

fun value_ok :: "string \<Rightarrow> jvalue \<Rightarrow> bool" where
  \<comment> \<open>a value that does not hide the member \<open>k\<close>\<close>
  "value_ok k (Quoted s) \<longleftrightarrow> quote \<notin> set s \<and> s \<noteq> k"
| "value_ok k (Bare s) \<longleftrightarrow> quote \<notin> set s \<and> s \<noteq> [] \<and> (\<forall>c \<in> set s. \<not> bare_end c)"

definition member_ok :: "string \<Rightarrow> string \<times> jvalue \<Rightarrow> bool" where
  "member_ok k f \<longleftrightarrow> quote \<notin> set (fst f) \<and> value_ok k (snd f)"

fun members_from :: "string \<Rightarrow> (string \<times> jvalue) list \<Rightarrow> (jvalue \<times> (string \<times> jvalue) list) option" where
  "members_from k [] = None"
| "members_from k ((k', v) # fs) = (if k' = k then Some (v, fs) else members_from k fs)"

lemma strstr_to_quote:
  "quote \<notin> set s \<Longrightarrow> strstr (s @ quote # r) (quote # t) = strstr (quote # r) (quote # t)"
  by (induction s) auto

lemma append_quote_eq:
  assumes "quote \<notin> set a" and "quote \<notin> set b" and "a @ quote # x = b @ quote # y"
  shows "a = b"
  using assms
proof (induction a arbitrary: b)
  case Nil
  then show ?case by (cases b) auto
next
  case (Cons c a)
  then show ?case by (cases b) auto
qed

lemma strstr_quoted:
  assumes "quote \<notin> set s" and "quote \<notin> set k"
  shows "strstr (quote # s @ quote # r) (quote # k @ [quote]) =
     (if s = k then Some (quote # s @ quote # r) else strstr (quote # r) (quote # k @ [quote]))"
proof -
  have "prefix (k @ [quote]) (s @ quote # r) \<longleftrightarrow> s = k"
    using append_quote_eq [OF assms] by (auto simp: prefix_def)
  then show ?thesis
    using strstr_to_quote [OF assms(1), of r "k @ [quote]"] by simp
qed

lemma strstr_no_quote: "quote \<notin> set s \<Longrightarrow> strstr s (quote # t) = None"
  unfolding strstr_None_iff by (auto simp: sublist_def)

lemma strstr_one_quote:
  assumes "quote \<notin> set s"
  shows "strstr (quote # s) (quote # k @ [quote]) = None"
proof -
  have "\<not> prefix (k @ [quote]) s" using assms by (auto simp: prefix_def)
  with assms show ?thesis by (simp add: strstr_no_quote)
qed

lemma strstr_members:
  assumes "key_ok k" and "\<forall>f \<in> set fs. member_ok k f" and "quote \<notin> set u"
  shows "strstr (quote # u @ jrest fs) (quote # k @ [quote]) =
    map_option (\<lambda>(v, gs). quote # k @ quote # CHR '':'' # jtext v @ jrest gs) (members_from k fs)"
  using assms(2,3)
proof (induction fs arbitrary: u)
  case Nil
  then show ?case using strstr_one_quote [of "u @ ''}''"] by simp
next
  case (Cons f fs)
  obtain k' v where f: "f = (k', v)" by (cases f)
  let ?pat = "quote # k @ [quote]"
  let ?tl = "CHR '':'' # jtext v @ jrest fs"
  have k: "quote \<notin> set k" "CHR '','' \<notin> set k" "CHR '':'' \<notin> set k"
    using assms(1) by (auto simp: key_ok_def)
  have k': "quote \<notin> set k'" and v: "value_ok k v"
    using Cons.prems(1) by (simp_all add: f member_ok_def)
  have "strstr (quote # u @ jrest (f # fs)) ?pat = strstr (quote # k' @ quote # ?tl) ?pat"
    using strstr_quoted [of "u @ '',''" k "k' @ quote # ?tl"] Cons.prems(2) k by (auto simp: f)
  also have "\<dots> = (if k' = k then Some (quote # k @ quote # ?tl) else strstr (quote # ?tl) ?pat)"
    using strstr_quoted [OF k' k(1), of ?tl] by simp
  also have "strstr (quote # ?tl) ?pat =
    map_option (\<lambda>(v, gs). quote # k @ quote # CHR '':'' # jtext v @ jrest gs) (members_from k fs)"
  proof (cases v)
    case (Quoted s)
    have "strstr (quote # ?tl) ?pat = strstr (quote # s @ quote # jrest fs) ?pat"
      using strstr_quoted [of "'':''" k "s @ quote # jrest fs"] k by (auto simp: Quoted)
    also have "\<dots> = strstr (quote # [] @ jrest fs) ?pat"
      using strstr_quoted [of s k "jrest fs"] v k by (simp add: Quoted)
    also have "\<dots> = map_option (\<lambda>(v, gs). quote # k @ quote # CHR '':'' # jtext v @ jrest gs)
        (members_from k fs)"
      by (rule Cons.IH) (use Cons.prems in auto)
    finally show ?thesis .
  next
    case (Bare s)
    have "strstr (quote # ('':'' @ s) @ jrest fs) ?pat =
        map_option (\<lambda>(v, gs). quote # k @ quote # CHR '':'' # jtext v @ jrest gs) (members_from k fs)"
      by (rule Cons.IH) (use Cons.prems v Bare in auto)
    then show ?thesis by (simp add: Bare)
  qed
  finally show ?case by (simp add: f)
qed

lemma strstr_object:
  assumes "key_ok k" and "\<forall>f \<in> set fs. member_ok k f"
  shows "strstr (jobject fs) (quote # k @ [quote]) =
    map_option (\<lambda>(v, gs). quote # k @ quote # CHR '':'' # jtext v @ jrest gs) (members_from k fs)"
proof -
  have q: "strstr (quote # CHR ''?'' # jrest fs) (quote # k @ [quote]) =
    map_option (\<lambda>(v, gs). quote # k @ quote # CHR '':'' # jtext v @ jrest gs) (members_from k fs)"
    using strstr_members [OF assms, of "''?''"] by simp
  show ?thesis
  proof (cases fs)
    case Nil
    then show ?thesis by (simp add: jobject_def)
  next
    case (Cons f gs)
    obtain k' v where f: "f = (k', v)" by (cases f)
    let ?r = "k' @ quote # CHR '':'' # jtext v @ jrest gs"
    have "quote \<notin> set k" "CHR '','' \<notin> set k" using assms(1) by (auto simp: key_ok_def)
    then have "strstr (quote # ''?,'' @ quote # ?r) (quote # k @ [quote]) =
        strstr (quote # ?r) (quote # k @ [quote])"
      by (subst strstr_quoted) auto
    with q show ?thesis by (simp add: jobject_def Cons f)
  qed
qed

lemma jget_value_text:
  assumes "value_ok k v"
  shows "jget_value (jtext v @ jrest fs) n = Some (clip n (jval v))"
proof (cases v)
  case (Quoted s)
  have "strchr (s @ quote # r) quote = Some (quote # r)" for r
    using assms unfolding strchr_Some_iff by (auto simp: Quoted)
  moreover have "\<not> isspace quote" by (simp add: isspace_def code_of_def)
  ultimately show ?thesis by (simp add: Quoted jget_value_def Let_def jget_limit_clip)
next
  case (Bare s)
  then obtain c cs where s: "s = c # cs" using assms by (cases s) auto
  have ok: "\<forall>c \<in> set s. \<not> bare_end c" "quote \<notin> set s" using assms by (simp_all add: Bare)
  obtain d r where r: "jrest fs = d # r" "bare_end d"
    by (cases fs rule: jrest.cases) (auto simp: bare_end_def)
  have "takeWhile (\<lambda>c. \<not> bare_end c) (s @ jrest fs) = s"
    using ok r by (subst takeWhile_append2) auto
  moreover have "skip isspace (s @ jrest fs) = s @ jrest fs"
    using ok by (simp add: s bare_end_def)
  ultimately show ?thesis
    using ok by (auto simp: Bare s jget_value_def Let_def jget_limit_clip bare_end_def)
qed

lemma map_of_members_from: "map_of fs k = map_option fst (members_from k fs)"
  by (induction fs) auto

lemma members_from_ok: "members_from k fs = Some (v, gs) \<Longrightarrow> \<forall>f \<in> set fs. member_ok k f \<Longrightarrow> value_ok k v"
  by (induction fs) (auto simp: member_ok_def split: if_splits)

lemma jget_object:
  assumes "key_ok k" and "\<forall>f \<in> set fs. member_ok k f"
  shows "jget (jobject fs) k n = map_option (\<lambda>v. clip n (jval v)) (map_of fs k)"
proof -
  have c: "clip 64 (quote # k @ [quote]) = quote # k @ [quote]"
    using assms(1) by (intro clip_id) (simp add: key_ok_def)
  show ?thesis
  proof (cases "members_from k fs")
    case None
    then show ?thesis
      by (simp add: jget_def Let_def c strstr_object [OF assms] map_of_members_from)
  next
    case (Some vg)
    obtain v gs where vg: "vg = (v, gs)" by (cases vg)
    have "jget_value (jtext v @ jrest gs) n = Some (clip n (jval v))"
      using Some assms(2) by (intro jget_value_text [of k]) (simp add: vg members_from_ok)
    with Some show ?thesis
      by (simp add: jget_def Let_def c strstr_object [OF assms] map_of_members_from vg)
  qed
qed

text \<open>
  C23. On the text of a flat object whose texts contain no quote and whose values are not
  themselves one of the five member names the parser looks for, \<open>iso_parse_request_line\<close> is
  member lookup: it reports the missing mandatory member, or returns the members cut to their
  buffers with the documented defaults for the optional ones.
\<close>

theorem iso_parse_object:
  assumes "\<forall>k \<in> {''pan'', ''amount'', ''currency'', ''request_id'', ''type''}.
    \<forall>f \<in> set fs. member_ok k f"
  shows "iso_parse_request_line (Some (jobject fs)) =
    (case (map_of fs ''pan'', map_of fs ''amount'') of
       (None, _) \<Rightarrow> Inl ''missing_pan''
     | (Some _, None) \<Rightarrow> Inl ''missing_amount''
     | (Some p, Some a) \<Rightarrow>
         Inr \<lparr>pan = clip 64 (jval p), amount_text = clip 64 (jval a),
              currency = (case map_of fs ''currency'' of None \<Rightarrow> [] | Some v \<Rightarrow> clip 8 (jval v)),
              request_id = (case map_of fs ''request_id'' of None \<Rightarrow> [] | Some v \<Rightarrow> clip 128 (jval v)),
              msg_type = (case map_of fs ''type'' of
                 None \<Rightarrow> ISO_MSG_AUTH | Some v \<Rightarrow> iso_type_of (clip 32 (jval v)) ISO_MSG_AUTH)\<rparr>)"
proof -
  have "key_ok ''pan''" "key_ok ''amount''" "key_ok ''currency''" "key_ok ''request_id''"
    "key_ok ''type''"
    by (simp_all add: key_ok_def)
  then have j: "jget (jobject fs) k n = map_option (\<lambda>v. clip n (jval v)) (map_of fs k)"
    if "k \<in> {''pan'', ''amount'', ''currency'', ''request_id'', ''type''}" for k n
    using assms that by (intro jget_object) auto
  show ?thesis
    by (cases "map_of fs ''pan''"; cases "map_of fs ''amount''";
        simp add: iso_parse_request_line_def j split: option.split)
qed

definition demo_members :: "(string \<times> jvalue) list" where
  "demo_members = [(''pan'', Quoted ''4111111111111111''), (''amount'', Bare ''12.50''),
     (''type'', Quoted ''REFUND'')]"

text \<open>Witness of C24: a line that parses.\<close>

theorem iso_parse_fits_witness:
  "\<exists>r. iso_parse_request_line (Some (jobject demo_members)) = Inr r \<and> length (pan r) < 64"
proof -
  have "iso_parse_request_line (Some (jobject demo_members)) =
    Inr \<lparr>pan = ''4111111111111111'', amount_text = ''12.50'', currency = [], request_id = [],
         msg_type = ISO_MSG_REFUND\<rparr>"
    by code_simp
  from iso_parse_fits [OF this] this show ?thesis by blast
qed

text \<open>Witness of C23.\<close>

theorem iso_parse_object_witness:
  "iso_parse_request_line (Some (jobject demo_members)) =
    Inr \<lparr>pan = ''4111111111111111'', amount_text = ''12.50'', currency = [], request_id = [],
         msg_type = ISO_MSG_REFUND\<rparr>"
proof -
  have "\<forall>k \<in> {''pan'', ''amount'', ''currency'', ''request_id'', ''type''}.
    \<forall>f \<in> set demo_members. member_ok k f"
    by (simp add: demo_members_def member_ok_def bare_end_def isspace_def code_of_def)
  from iso_parse_object [OF this] show ?thesis
    by (simp add: demo_members_def clip_def iso_type_of_def)
qed

end
