(* ===== verification/Risk.thy ===== *)
theory Risk
  imports Sys Iso8583
begin

section \<open>The velocity limiter (server/risk.c)\<close>

text \<open>
  The table \<open>g_vel\<close> of at most 1024 card numbers with the start of their window and the count in
  it, and the settings. The loop of \<open>vel_get\<close> is \<open>vel_scan\<close>; the entry it returns a pointer to is
  given by its index. The counters are exact integers. The sources use the table without a lock;
  here it is one evaluation at a time, and \<open>Risk_race\<close> interleaves them.
\<close>

record vel_entry =
  vpan :: string
  vstart :: int
  vcount :: int

definition VEL_CAP :: nat where "VEL_CAP = 1024"

record risk =
  g_vel :: "vel_entry list"
  g_risk_enabled :: bool
  g_vel_limit :: int
  g_vel_window_sec :: int

record risk_decision =
  allow :: bool
  reason :: string

definition vel_zero :: vel_entry where
  "vel_zero = \<lparr>vpan = [], vstart = 0, vcount = 0\<rparr>"

definition risk_start :: risk where
  \<comment> \<open>the static initializers\<close>
  "risk_start = \<lparr>g_vel = replicate VEL_CAP vel_zero, g_risk_enabled = True, g_vel_limit = 20,
     g_vel_window_sec = 60\<rparr>"

definition env_positive :: "'a sys_scheme \<Rightarrow> string \<Rightarrow> int \<Rightarrow> int" where
  "env_positive s name old =
     (case env_src s name of None \<Rightarrow> old | Some t \<Rightarrow> let v = atoi t in if v > 0 then v else old)"

definition risk_init :: "'a sys_scheme \<Rightarrow> risk \<Rightarrow> risk" where
  "risk_init s r =
     r\<lparr>g_risk_enabled := (case env_src s ''RISK_ENABLED'' of None \<Rightarrow> g_risk_enabled r | Some t \<Rightarrow> atoi t \<noteq> 0),
       g_vel_limit := env_positive s ''RISK_VEL_LIMIT'' (g_vel_limit r),
       g_vel_window_sec := env_positive s ''RISK_VEL_WINDOW_SEC'' (g_vel_window_sec r),
       g_vel := replicate VEL_CAP vel_zero\<rparr>"

fun vel_scan :: "string \<Rightarrow> nat \<Rightarrow> vel_entry list \<Rightarrow> int \<Rightarrow> int \<Rightarrow> int \<Rightarrow> nat + (int \<times> int)" where
  \<comment> \<open>the loop of \<open>vel_get\<close> from index \<open>i\<close> on: the entry found, or the final \<open>free_idx\<close> and \<open>oldest_idx\<close>\<close>
  "vel_scan pn i [] free_idx oldest oldest_idx = Inr (free_idx, oldest_idx)"
| "vel_scan pn i (e # es) free_idx oldest oldest_idx =
     (if vpan e = [] then vel_scan pn (Suc i) es (if free_idx < 0 then int i else free_idx) oldest oldest_idx
      else if vpan e = pn then Inl i
      else if vstart e < oldest then vel_scan pn (Suc i) es free_idx (vstart e) (int i)
      else vel_scan pn (Suc i) es free_idx oldest oldest_idx)"

definition vel_get :: "string \<Rightarrow> risk \<Rightarrow> 'a sys_scheme \<Rightarrow> nat \<times> risk \<times> 'a sys_scheme" where
  "vel_get pn r s =
     (let (now, s) = time_null s in
      case vel_scan pn 0 (g_vel r) (- 1) now (- 1) of
        Inl i \<Rightarrow> (i, r, s)
      | Inr (free_idx, oldest_idx) \<Rightarrow>
          let idx = (if free_idx \<ge> 0 then free_idx else oldest_idx);
              idx = (if idx < 0 then 0 else idx);
              e = \<lparr>vpan = clip 64 pn, vstart = now, vcount = 0\<rparr>
          in (nat idx, r\<lparr>g_vel := (g_vel r)[nat idx := e]\<rparr>, s))"

definition risk_evaluate ::
    "iso_request option \<Rightarrow> risk \<Rightarrow> 'a sys_scheme \<Rightarrow> risk_decision \<times> risk \<times> 'a sys_scheme" where
  \<comment> \<open>for a non-null \<open>out\<close>\<close>
  "risk_evaluate req r s =
     (case req of
        None \<Rightarrow> (\<lparr>allow = True, reason = []\<rparr>, r, s)
      | Some q \<Rightarrow>
          if \<not> g_risk_enabled r then (\<lparr>allow = True, reason = []\<rparr>, r, s)
          else
            let (now, s) = time_null s;
                (i, r, s) = vel_get (pan q) r s;
                e = g_vel r ! i;
                e = (if now - vstart e \<ge> g_vel_window_sec r then e\<lparr>vstart := now, vcount := 0\<rparr> else e);
                e = e\<lparr>vcount := vcount e + 1\<rparr>;
                r = r\<lparr>g_vel := (g_vel r)[i := e]\<rparr>
            in (if vcount e > g_vel_limit r then \<lparr>allow = False, reason = clip 64 ''risk_velocity''\<rparr>
                else \<lparr>allow = True, reason = []\<rparr>, r, s))"

subsection \<open>The table as a map\<close>

definition vel_ok :: "risk \<Rightarrow> bool" where
  \<comment> \<open>every card number has at most one entry\<close>
  "vel_ok r \<longleftrightarrow> length (g_vel r) = VEL_CAP \<and>
     (\<forall>i < VEL_CAP. \<forall>j < VEL_CAP.
        vpan (g_vel r ! i) = vpan (g_vel r ! j) \<and> vpan (g_vel r ! i) \<noteq> [] \<longrightarrow> i = j)"

definition vel_of :: "risk \<Rightarrow> string \<Rightarrow> (int \<times> int) option" where
  \<comment> \<open>window start and count of a card number\<close>
  "vel_of r pn = (if pn = [] then None
     else map_option (\<lambda>e. (vstart e, vcount e)) (find (\<lambda>e. vpan e = pn) (g_vel r)))"

lemma vel_scan_found:
  assumes "vel_scan pn i es f od oi = Inl j"
  shows "pn \<noteq> [] \<and> i \<le> j \<and> j - i < length es \<and> vpan (es ! (j - i)) = pn \<and>
    (\<forall>k < j - i. vpan (es ! k) \<noteq> pn)"
  using assms
proof (induction es arbitrary: i f od oi)
  case Nil
  then show ?case by simp
next
  case (Cons e es)
  show ?case
  proof (cases "vpan e = pn \<and> vpan e \<noteq> []")
    case True
    with Cons.prems show ?thesis by auto
  next
    case False
    then have "\<exists>f od oi. vel_scan pn (Suc i) es f od oi = Inl j"
      using Cons.prems by (auto split: if_splits)
    then have ih: "pn \<noteq> [] \<and> Suc i \<le> j \<and> j - Suc i < length es \<and> vpan (es ! (j - Suc i)) = pn \<and>
        (\<forall>k < j - Suc i. vpan (es ! k) \<noteq> pn)"
      using Cons.IH by blast
    then have "j - i = Suc (j - Suc i)" by linarith
    with ih False show ?thesis by (auto simp: less_Suc_eq_0_disj)
  qed
qed

lemma vel_scan_absent:
  assumes "vel_scan pn i es f od oi = Inr (f', oi')"
  shows "(\<forall>e \<in> set es. vpan e = [] \<or> vpan e \<noteq> pn) \<and>
    (oi' = oi \<or> int i \<le> oi' \<and> oi' < int (i + length es)) \<and>
    (0 \<le> f \<longrightarrow> f' = f)"
  using assms
proof (induction es arbitrary: i f od oi)
  case Nil
  then show ?case by simp
next
  case (Cons e es)
  obtain f2 od2 oi2 where e: "vel_scan pn (Suc i) es f2 od2 oi2 = Inr (f', oi')"
    and oi2: "oi2 = oi \<or> oi2 = int i" and f2: "0 \<le> f \<longrightarrow> f2 = f"
    and p: "vpan e = [] \<or> vpan e \<noteq> pn"
    using Cons.prems by (auto split: if_splits)
  from Cons.IH [OF e] have ih: "\<forall>e \<in> set es. vpan e = [] \<or> vpan e \<noteq> pn"
    "oi' = oi2 \<or> int (Suc i) \<le> oi' \<and> oi' < int (Suc i + length es)" "0 \<le> f2 \<longrightarrow> f' = f2"
    by simp_all
  have "oi' = oi \<or> int i \<le> oi' \<and> oi' < int (i + length (e # es))"
    using ih(2) oi2 by (elim disjE) simp_all
  with ih p f2 show ?case by simp
qed

lemma vel_scan_free:
  assumes "vel_scan pn i es f od oi = Inr (f', oi')" and "f < 0"
  shows "if \<exists>e \<in> set es. vpan e = [] then int i \<le> f' \<and> f' < int (i + length es) \<and>
        vpan (es ! (nat f' - i)) = [] else f' = f"
  using assms
proof (induction es arbitrary: i od oi)
  case Nil
  then show ?case by simp
next
  case (Cons e es)
  show ?case
  proof (cases "vpan e = []")
    case True
    with Cons.prems have e: "vel_scan pn (Suc i) es (int i) od oi = Inr (f', oi')" by simp
    from vel_scan_absent [OF e] True show ?thesis by simp
  next
    case False
    obtain od2 oi2 where e: "vel_scan pn (Suc i) es f od2 oi2 = Inr (f', oi')"
      using Cons.prems(1) False by (simp split: if_splits)
    have n: "vpan ((e # es) ! (nat f' - i)) = vpan (es ! (nat f' - Suc i))" if "1 + int i \<le> f'"
    proof -
      have "nat f' - i = Suc (nat f' - Suc i)" using that by linarith
      then show ?thesis by simp
    qed
    from Cons.IH [OF e Cons.prems(2)] False n show ?thesis by (auto split: if_splits)
  qed
qed

lemma vel_of_iff:
  assumes "vel_ok r" and "pn \<noteq> []"
  shows "vel_of r pn = Some (st, n) \<longleftrightarrow>
    (\<exists>i < VEL_CAP. vpan (g_vel r ! i) = pn \<and> vstart (g_vel r ! i) = st \<and> vcount (g_vel r ! i) = n)"
proof
  assume "vel_of r pn = Some (st, n)"
  then obtain e where "find (\<lambda>e. vpan e = pn) (g_vel r) = Some e" "vstart e = st" "vcount e = n"
    using assms(2) by (auto simp: vel_of_def)
  then show "\<exists>i < VEL_CAP. vpan (g_vel r ! i) = pn \<and> vstart (g_vel r ! i) = st \<and> vcount (g_vel r ! i) = n"
    using assms(1) unfolding find_Some_iff vel_ok_def by auto
next
  assume "\<exists>i < VEL_CAP. vpan (g_vel r ! i) = pn \<and> vstart (g_vel r ! i) = st \<and> vcount (g_vel r ! i) = n"
  then obtain i where i: "i < VEL_CAP" "vpan (g_vel r ! i) = pn" "vstart (g_vel r ! i) = st"
    "vcount (g_vel r ! i) = n" by blast
  have "find (\<lambda>e. vpan e = pn) (g_vel r) = Some (g_vel r ! i)"
    unfolding find_Some_iff
  proof (intro exI [of _ i] conjI allI impI)
    show "i < length (g_vel r)" "vpan (g_vel r ! i) = pn" "g_vel r ! i = g_vel r ! i"
      using i assms(1) by (simp_all add: vel_ok_def)
    fix j assume "j < i"
    then show "vpan (g_vel r ! j) \<noteq> pn"
      using i assms unfolding vel_ok_def by (metis less_trans nat_neq_iff)
  qed
  with i assms(2) show "vel_of r pn = Some (st, n)" by (simp add: vel_of_def)
qed

lemma vel_of_None_iff:
  assumes "vel_ok r" and "pn \<noteq> []"
  shows "vel_of r pn = None \<longleftrightarrow> (\<forall>i < VEL_CAP. vpan (g_vel r ! i) \<noteq> pn)"
  using vel_of_iff [OF assms] by (metis option.exhaust option.distinct(1) surj_pair)

lemma vel_update:
  \<comment> \<open>writing the entry of a card number that has no other entry\<close>
  assumes "vel_ok r" and "i < VEL_CAP" and "vpan e = pn" and "pn \<noteq> []"
    and "\<forall>j < VEL_CAP. j \<noteq> i \<longrightarrow> vpan (g_vel r ! j) \<noteq> pn"
    and "r' = r\<lparr>g_vel := (g_vel r)[i := e]\<rparr>"
  shows "vel_ok r'" and "vel_of r' pn = Some (vstart e, vcount e)"
    and "p \<noteq> pn \<Longrightarrow> vpan (g_vel r ! i) \<noteq> p \<Longrightarrow> vel_of r' p = vel_of r p"
proof -
  have n: "g_vel r' ! j = (if j = i then e else g_vel r ! j)" if "j < VEL_CAP" for j
    using that assms(1,2,6) by (auto simp: vel_ok_def)
  have u: "j = k" if jk: "j < VEL_CAP" "k < VEL_CAP" and eq: "vpan (g_vel r' ! j) = vpan (g_vel r' ! k)"
    and ne: "vpan (g_vel r' ! j) \<noteq> []" for j k
  proof (cases "j = i \<or> k = i")
    case True
    with eq assms(3,5) jk show ?thesis by (auto simp: n split: if_splits)
  next
    case False
    with jk eq ne have "vpan (g_vel r ! j) = vpan (g_vel r ! k)" "vpan (g_vel r ! j) \<noteq> []"
      by (simp_all add: n)
    with assms(1) jk show ?thesis unfolding vel_ok_def by blast
  qed
  have "length (g_vel r') = VEL_CAP" using assms(1,6) by (simp add: vel_ok_def)
  with u show ok: "vel_ok r'" unfolding vel_ok_def by blast
  show "vel_of r' pn = Some (vstart e, vcount e)"
    unfolding vel_of_iff [OF ok assms(4)] using assms(2,3) n by auto
  show "vel_of r' p = vel_of r p" if p: "p \<noteq> pn" "vpan (g_vel r ! i) \<noteq> p"
  proof (cases "p = []")
    case True
    then show ?thesis by (simp add: vel_of_def)
  next
    case False
    show ?thesis
    proof (rule option_eqI)
      fix q :: "int \<times> int"
      obtain st m where q: "q = (st, m)" by force
      show "vel_of r' p = Some q \<longleftrightarrow> vel_of r p = Some q"
        unfolding q vel_of_iff [OF ok False] vel_of_iff [OF assms(1) False]
        using p assms(3) n by metis
    qed
  qed
qed

subsection \<open>One evaluation\<close>

definition settings :: "risk \<Rightarrow> bool \<times> int \<times> int" where
  "settings r = (g_risk_enabled r, g_vel_limit r, g_vel_window_sec r)"

definition bump :: "int \<Rightarrow> int \<Rightarrow> int \<times> int \<Rightarrow> int \<times> int" where
  \<comment> \<open>a request at time \<open>now\<close> counted in the window: a new window when the old one is over\<close>
  "bump win now w = (if now - fst w \<ge> win then (now, 1) else (fst w, snd w + 1))"

lemma vel_get_spec:
  assumes "vel_ok r" and "pn \<noteq> []" and "length pn < 64" and "vel_get pn r s = (i, r1, s1)"
  defines "t \<equiv> time_src s (time_calls s)"
  shows "i < VEL_CAP" and "vpan (g_vel r1 ! i) = pn" and "vel_ok r1" and "settings r1 = settings r"
    and "s1 = s\<lparr>time_calls := Suc (time_calls s)\<rparr>"
    and "vel_of r1 pn = Some (case vel_of r pn of Some w \<Rightarrow> w | None \<Rightarrow> (t, 0))"
    and "p \<noteq> pn \<Longrightarrow> vel_of r pn \<noteq> None \<or> (\<exists>j < VEL_CAP. vpan (g_vel r ! j) = []) \<Longrightarrow>
         vel_of r1 p = vel_of r p"
proof -
  have len: "length (g_vel r) = VEL_CAP" using assms(1) by (simp add: vel_ok_def)
  let ?scan = "vel_scan pn 0 (g_vel r) (- 1) t (- 1)"
  have "(i < VEL_CAP \<and> vpan (g_vel r1 ! i) = pn \<and> vel_ok r1 \<and> settings r1 = settings r \<and>
    s1 = s\<lparr>time_calls := Suc (time_calls s)\<rparr>) \<and>
    (vel_of r1 pn = Some (case vel_of r pn of Some w \<Rightarrow> w | None \<Rightarrow> (t, 0))) \<and>
    (p \<noteq> pn \<and> (vel_of r pn \<noteq> None \<or> (\<exists>j < VEL_CAP. vpan (g_vel r ! j) = [])) \<longrightarrow>
       vel_of r1 p = vel_of r p)"
  proof (cases ?scan)
    case (Inl j)
    with assms(4) have e: "i = j" "r1 = r" "s1 = s\<lparr>time_calls := Suc (time_calls s)\<rparr>"
      by (simp_all add: vel_get_def time_null_def t_def)
    from vel_scan_found [OF Inl] have j: "j < VEL_CAP" "vpan (g_vel r ! j) = pn" by (simp_all add: len)
    then have "vel_of r pn = Some (vstart (g_vel r ! j), vcount (g_vel r ! j))"
      by (subst vel_of_iff [OF assms(1,2)]) blast
    with e j assms(1) show ?thesis by simp
  next
    case (Inr w)
    obtain f oi where w: "w = (f, oi)" by force
    let ?e = "\<lparr>vpan = pn, vstart = t, vcount = 0\<rparr>"
    let ?idx = "nat (if f \<ge> 0 then f else if oi < 0 then 0 else oi)"
    have e: "i = ?idx" "r1 = r\<lparr>g_vel := (g_vel r)[?idx := ?e]\<rparr>" "s1 = s\<lparr>time_calls := Suc (time_calls s)\<rparr>"
      using assms(4) Inr by (auto simp: vel_get_def time_null_def t_def w clip_id [OF assms(3)] Let_def)
    note ab = vel_scan_absent [OF Inr [unfolded w]] and fr = vel_scan_free [OF Inr [unfolded w]]
    have i: "?idx < VEL_CAP"
      using ab fr len by (auto simp: VEL_CAP_def split: if_splits)
    have none: "\<forall>j < VEL_CAP. vpan (g_vel r ! j) \<noteq> pn"
      using ab assms(2) len by (metis nth_mem)
    then have v0: "vel_of r pn = None" using vel_of_None_iff [OF assms(1,2)] by blast
    note u = vel_update [OF assms(1) i _ assms(2) _ e(2)]
    have "vel_of r1 p = vel_of r p" if "p \<noteq> pn" "\<exists>j < VEL_CAP. vpan (g_vel r ! j) = []"
    proof (cases "p = []")
      case True
      then show ?thesis by (simp add: vel_of_def)
    next
      case False
      have "\<exists>x \<in> set (g_vel r). vpan x = []" using that(2) len by (metis nth_mem)
      with fr have "0 \<le> f" "vpan (g_vel r ! nat f) = []" by simp_all
      then show ?thesis using False that(1) none by (intro u(3)) auto
    qed
    moreover have "g_vel r1 ! i = ?e" using i e(1,2) len by simp
    ultimately show ?thesis
      using u(1,2) none i e(1,3) v0 by (auto simp: e(2) settings_def)
  qed
  then show "i < VEL_CAP" "vpan (g_vel r1 ! i) = pn" "vel_ok r1" "settings r1 = settings r"
    "s1 = s\<lparr>time_calls := Suc (time_calls s)\<rparr>"
    "vel_of r1 pn = Some (case vel_of r pn of Some w \<Rightarrow> w | None \<Rightarrow> (t, 0))"
    "p \<noteq> pn \<Longrightarrow> vel_of r pn \<noteq> None \<or> (\<exists>j < VEL_CAP. vpan (g_vel r ! j) = []) \<Longrightarrow>
       vel_of r1 p = vel_of r p"
    by blast+
qed

lemma risk_evaluate_spec:
  assumes "vel_ok r" and "g_risk_enabled r" and "pan q \<noteq> []" and "length (pan q) < 64"
    and "risk_evaluate (Some q) r s = (d, r', s')"
  defines "t1 \<equiv> time_src s (time_calls s)" and "t2 \<equiv> time_src s (Suc (time_calls s))"
  defines "w \<equiv> bump (g_vel_window_sec r) t1 (case vel_of r (pan q) of Some w \<Rightarrow> w | None \<Rightarrow> (t2, 0))"
  shows "vel_ok r'" and "settings r' = settings r"
    and "s' = s\<lparr>time_calls := Suc (Suc (time_calls s))\<rparr>"
    and "allow d \<longleftrightarrow> snd w \<le> g_vel_limit r"
    and "vel_of r' (pan q) = Some w"
    and "p \<noteq> pan q \<Longrightarrow> vel_of r (pan q) \<noteq> None \<or> (\<exists>j < VEL_CAP. vpan (g_vel r ! j) = []) \<Longrightarrow>
         vel_of r' p = vel_of r p"
proof -
  let ?s = "s\<lparr>time_calls := Suc (time_calls s)\<rparr>"
  obtain i r1 s1 where g: "vel_get (pan q) r ?s = (i, r1, s1)" by (metis prod_cases3)
  note v = vel_get_spec [OF assms(1,3,4) g]
  have set: "g_vel_window_sec r1 = g_vel_window_sec r" "g_vel_limit r1 = g_vel_limit r"
    using v(4) by (simp_all add: settings_def)
  let ?e = "g_vel r1 ! i"
  let ?e1 = "if t1 - vstart ?e \<ge> g_vel_window_sec r1 then ?e\<lparr>vstart := t1, vcount := 0\<rparr> else ?e"
  let ?e2 = "?e1\<lparr>vcount := vcount ?e1 + 1\<rparr>"
  have "vel_of r1 (pan q) = Some (vstart ?e, vcount ?e)"
    using v(1,2) by (subst vel_of_iff [OF v(3) assms(3)]) blast
  moreover have "vel_of r1 (pan q) = Some (case vel_of r (pan q) of Some w \<Rightarrow> w | None \<Rightarrow> (t2, 0))"
    using v(6) by (cases "vel_of r (pan q)") (simp_all add: t2_def)
  ultimately have w: "w = (vstart ?e2, vcount ?e2)" by (simp add: w_def bump_def set)
  have r': "r' = r1\<lparr>g_vel := (g_vel r1)[i := ?e2]\<rparr>" and s': "s' = s1"
    and d: "allow d \<longleftrightarrow> vcount ?e2 \<le> g_vel_limit r1"
    using assms(2,5) g by (auto simp: risk_evaluate_def time_null_def t1_def Let_def split: if_splits)
  have p2: "vpan ?e2 = pan q" using v(2) by simp
  have un: "\<forall>j < VEL_CAP. j \<noteq> i \<longrightarrow> vpan (g_vel r1 ! j) \<noteq> pan q"
    using v(1,2,3) assms(3) unfolding vel_ok_def by metis
  note u = vel_update [OF v(3,1) p2 assms(3) un r']
  show "vel_ok r'" by (rule u(1))
  show "settings r' = settings r" using v(4) by (simp add: r' settings_def)
  show "s' = s\<lparr>time_calls := Suc (Suc (time_calls s))\<rparr>" using v(5) s' by simp
  show "allow d \<longleftrightarrow> snd w \<le> g_vel_limit r" using d by (simp add: w set)
  show "vel_of r' (pan q) = Some w" using u(2) by (simp add: w)
  show "vel_of r' p = vel_of r p"
    if "p \<noteq> pan q" "vel_of r (pan q) \<noteq> None \<or> (\<exists>j < VEL_CAP. vpan (g_vel r ! j) = [])"
    using u(3) [of p] v(2) v(7) [OF that] that(1) by simp
qed

subsection \<open>The limit per card number\<close>

fun risk_run :: "iso_request list \<Rightarrow> risk \<Rightarrow> 'a sys_scheme \<Rightarrow> bool list \<times> risk \<times> 'a sys_scheme" where
  \<comment> \<open>the decisions on a sequence of requests\<close>
  "risk_run [] r s = ([], r, s)"
| "risk_run (q # qs) r s =
     (let (d, r, s) = risk_evaluate (Some q) r s; (ds, r, s) = risk_run qs r s in (allow d # ds, r, s))"

fun velocity_spec :: "int \<Rightarrow> (string \<Rightarrow> nat) \<Rightarrow> string list \<Rightarrow> bool list" where
  \<comment> \<open>the limiter as specified: a request is allowed as long as its card number has been seen at
      most \<open>lim\<close> times, itself included; \<open>seen\<close> counts the requests before\<close>
  "velocity_spec lim seen [] = []"
| "velocity_spec lim seen (p # ps) =
     (int (Suc (seen p)) \<le> lim) # velocity_spec lim (seen(p := Suc (seen p))) ps"

definition counted :: "int \<Rightarrow> int \<Rightarrow> (string \<Rightarrow> nat) \<Rightarrow> risk \<Rightarrow> bool" where
  \<comment> \<open>the table holds exactly the counts \<open>seen\<close>, in windows that started in \<open>[t0, t0 + win)\<close>\<close>
  "counted t0 win seen r \<longleftrightarrow>
     (\<forall>p. p \<noteq> [] \<longrightarrow>
        (case vel_of r p of
           None \<Rightarrow> seen p = 0
         | Some (st, n) \<Rightarrow> 0 < seen p \<and> n = int (seen p) \<and> t0 \<le> st \<and> st < t0 + win))"

lemma vel_free_slot:
  assumes "vel_ok r" and "finite A" and "card A < VEL_CAP" and "\<forall>p. p \<noteq> [] \<and> vel_of r p \<noteq> None \<longrightarrow> p \<in> A"
  shows "\<exists>j < VEL_CAP. vpan (g_vel r ! j) = []"
proof (rule ccontr)
  assume full: "\<not> (\<exists>j < VEL_CAP. vpan (g_vel r ! j) = [])"
  let ?f = "\<lambda>j. vpan (g_vel r ! j)"
  have "inj_on ?f {..<VEL_CAP}"
    using assms(1) full unfolding vel_ok_def inj_on_def by (metis lessThan_iff)
  moreover have "?f ` {..<VEL_CAP} \<subseteq> A"
  proof
    fix p assume "p \<in> ?f ` {..<VEL_CAP}"
    then obtain j where j: "j < VEL_CAP" "?f j = p" by auto
    with full have "p \<noteq> []" by auto
    moreover from this j have "vel_of r p \<noteq> None" using vel_of_None_iff [OF assms(1)] by blast
    ultimately show "p \<in> A" using assms(4) by blast
  qed
  ultimately have "VEL_CAP \<le> card A" using assms(2) by (metis card_lessThan card_inj_on_le)
  with assms(3) show False by simp
qed

lemma counted_bump:
  assumes "counted t0 win seen r" and "pn \<noteq> []"
    and "t0 \<le> t1" "t1 < t0 + win" "t0 \<le> t2" "t2 < t0 + win"
  defines "w \<equiv> bump win t1 (case vel_of r pn of Some w \<Rightarrow> w | None \<Rightarrow> (t2, 0))"
  shows "snd w = int (Suc (seen pn)) \<and> t0 \<le> fst w \<and> fst w < t0 + win"
proof -
  have "case vel_of r pn of None \<Rightarrow> seen pn = 0
      | Some (st, n) \<Rightarrow> 0 < seen pn \<and> n = int (seen pn) \<and> t0 \<le> st \<and> st < t0 + win"
    using assms(1,2) by (simp add: counted_def)
  then show ?thesis
    using assms(3-6) by (auto simp: w_def bump_def split: option.splits)
qed

lemma risk_run_spec:
  assumes "vel_ok r" and "g_risk_enabled r" and "counted t0 (g_vel_window_sec r) seen r"
    and "\<forall>q \<in> set qs. pan q \<noteq> [] \<and> length (pan q) < 64"
    and "finite A" and "card A \<le> VEL_CAP" and "{p. seen p \<noteq> 0} \<subseteq> A" and "pan ` set qs \<subseteq> A"
    and "\<forall>k. t0 \<le> time_src s k \<and> time_src s k < t0 + g_vel_window_sec r"
  shows "fst (risk_run qs r s) = velocity_spec (g_vel_limit r) seen (map pan qs)"
  using assms(1-4) assms(7-9)
proof (induction qs arbitrary: r s seen)
  case Nil
  then show ?case by simp
next
  case (Cons q qs)
  let ?p = "pan q"
  have p: "?p \<noteq> []" "length ?p < 64" using Cons.prems(4) by simp_all
  obtain d r1 s1 where e: "risk_evaluate (Some q) r s = (d, r1, s1)" by (metis prod_cases3)
  note v = risk_evaluate_spec [OF Cons.prems(1,2) p e]
  let ?w = "bump (g_vel_window_sec r) (time_src s (time_calls s))
     (case vel_of r ?p of Some w \<Rightarrow> w | None \<Rightarrow> (time_src s (Suc (time_calls s)), 0))"
  have w: "snd ?w = int (Suc (seen ?p)) \<and> t0 \<le> fst ?w \<and> fst ?w < t0 + g_vel_window_sec r"
    using Cons.prems(7) by (intro counted_bump [OF Cons.prems(3) p(1)]) auto
  have set1: "g_risk_enabled r1" "g_vel_limit r1 = g_vel_limit r" "g_vel_window_sec r1 = g_vel_window_sec r"
    using v(2) Cons.prems(2) by (simp_all add: settings_def)
  have room: "vel_of r ?p \<noteq> None \<or> (\<exists>j < VEL_CAP. vpan (g_vel r ! j) = [])"
  proof (cases "vel_of r ?p")
    case None
    let ?B = "{x. seen x \<noteq> 0}"
    have "seen ?p = 0"
      using Cons.prems(3) [unfolded counted_def, rule_format, OF p(1)] None by simp
    then have "?p \<notin> ?B" by simp
    moreover have "?p \<in> A" using Cons.prems(6) by simp
    ultimately have "?B \<subset> A" using Cons.prems(5) by blast
    from psubset_card_mono [OF assms(5) this] have "card ?B < VEL_CAP" using assms(6) by simp
    moreover have "finite ?B" using Cons.prems(5) assms(5) by (rule finite_subset)
    moreover have "\<forall>x. x \<noteq> [] \<and> vel_of r x \<noteq> None \<longrightarrow> x \<in> ?B"
      using Cons.prems(3) by (auto simp: counted_def split: option.splits)
    ultimately show ?thesis using vel_free_slot [OF Cons.prems(1)] by blast
  qed simp
  let ?seen = "seen(?p := Suc (seen ?p))"
  have cnt: "counted t0 (g_vel_window_sec r1) ?seen r1"
    unfolding counted_def set1
  proof (intro allI impI)
    fix x :: string assume x: "x \<noteq> []"
    show "case vel_of r1 x of None \<Rightarrow> ?seen x = 0
      | Some (st, n) \<Rightarrow> 0 < ?seen x \<and> n = int (?seen x) \<and> t0 \<le> st \<and> st < t0 + g_vel_window_sec r"
    proof (cases "x = ?p")
      case True
      with v(5) w show ?thesis by (simp add: case_prod_beta)
    next
      case False
      have "case vel_of r x of None \<Rightarrow> seen x = 0
        | Some (st, n) \<Rightarrow> 0 < seen x \<and> n = int (seen x) \<and> t0 \<le> st \<and> st < t0 + g_vel_window_sec r"
        using Cons.prems(3) x by (simp add: counted_def)
      then show ?thesis
        using v(6) [OF False room] False by (cases "vel_of r x") simp_all
    qed
  qed
  have "fst (risk_run qs r1 s1) = velocity_spec (g_vel_limit r1) ?seen (map pan qs)"
    by (rule Cons.IH [OF v(1) set1(1) cnt])
      (use Cons.prems(4-7) v(3) in \<open>auto simp: set1\<close>)
  with e v(4) w show ?case by (simp add: set1 case_prod_beta)
qed

lemma risk_init_run:
  assumes "g_risk_enabled (risk_init s0 r0)" and "\<forall>q \<in> set qs. pan q \<noteq> [] \<and> length (pan q) < 64"
    and "card (pan ` set qs) \<le> VEL_CAP"
    and "\<forall>k. t0 \<le> time_src s k \<and> time_src s k < t0 + g_vel_window_sec (risk_init s0 r0)"
  shows "fst (risk_run qs (risk_init s0 r0) s) = velocity_spec (g_vel_limit (risk_init s0 r0)) (\<lambda>_. 0) (map pan qs)"
proof -
  let ?r = "risk_init s0 r0"
  have g: "g_vel ?r = replicate VEL_CAP vel_zero" by (simp add: risk_init_def)
  then have ok: "vel_ok ?r" by (simp add: vel_ok_def vel_zero_def)
  have "vel_of ?r p = None" if "p \<noteq> []" for p
    using that g by (subst vel_of_None_iff [OF ok]) (simp_all add: vel_zero_def)
  then have c: "counted t0 (g_vel_window_sec ?r) (\<lambda>_. 0) ?r" by (simp add: counted_def)
  show ?thesis by (rule risk_run_spec [OF ok assms(1) c assms(2) _ assms(3)]) (use assms(4) in auto)
qed

lemma velocity_spec_counts:
  "velocity_spec lim seen ps = map (\<lambda>i. int (seen (ps ! i) + count_list (take (Suc i) ps) (ps ! i)) \<le> lim) [0..<length ps]"
proof (induction ps arbitrary: seen)
  case Nil
  then show ?case by simp
next
  case (Cons p ps)
  have "[0..<length (p # ps)] = 0 # map Suc [0..<length ps]" by (simp add: map_Suc_upt upt_conv_Cons del: upt_Suc)
  then show ?case using Cons by (auto simp: comp_def simp del: upt_Suc)
qed

text \<open>
  C22. The limiter counts exactly: starting from the empty table of \<open>risk_init\<close>, with the limiter
  enabled, on any sequence of requests with non-empty card numbers, at most 1024 different ones,
  all handled within one window, a request is allowed exactly when its card number occurs at most
  \<open>g_vel_limit\<close> times among the requests up to and including it, whatever the other card numbers do.
\<close>

theorem risk_velocity_limit:
  assumes "g_risk_enabled (risk_init s0 r0)" and "\<forall>q \<in> set qs. pan q \<noteq> [] \<and> length (pan q) < 64"
    and "card (pan ` set qs) \<le> VEL_CAP"
    and "\<forall>k. t0 \<le> time_src s k \<and> time_src s k < t0 + g_vel_window_sec (risk_init s0 r0)"
  shows "fst (risk_run qs (risk_init s0 r0) s) =
    map (\<lambda>i. int (count_list (map pan (take (Suc i) qs)) (pan (qs ! i))) \<le> g_vel_limit (risk_init s0 r0))
      [0..<length qs]"
  using risk_init_run [OF assms] by (simp add: velocity_spec_counts take_map)

definition demo_risk_sys :: sys where
  "demo_risk_sys = \<lparr>env_src = (\<lambda>n. if n = ''RISK_VEL_LIMIT'' then Some ''2'' else None),
     time_src = (\<lambda>_. 1000), time_calls = 0, rand_src = (\<lambda>_. 0), rand_calls = 0,
     alloc_src = (\<lambda>_. True), allocs = 0, trace = [], metrics = metrics_zero\<rparr>"

definition demo_request :: "string \<Rightarrow> iso_request" where
  "demo_request p = \<lparr>pan = p, amount_text = ''1'', currency = [], request_id = [], msg_type = ISO_MSG_AUTH\<rparr>"

text \<open>Witness of C22: with a limit of two, the third request of a card is refused, another card is not.\<close>

theorem risk_velocity_limit_witness:
  "fst (risk_run (map demo_request [''41'', ''41'', ''59'', ''41'']) (risk_init demo_risk_sys risk_start) demo_risk_sys) =
   [True, True, True, False]"
proof -
  let ?r = "risk_init demo_risk_sys risk_start"
  have lim: "g_vel_limit ?r = 2" "g_vel_window_sec ?r = 60" "g_risk_enabled ?r"
    by (simp_all add: risk_init_def env_positive_def demo_risk_sys_def risk_start_def atoi_def strtol_def
        isspace_def isdigit_def code_of_def digit_val_def clamp_long_def long_max_def long_min_def to_int32_def)
  have "fst (risk_run (map demo_request [''41'', ''41'', ''59'', ''41'']) ?r demo_risk_sys) =
    map (\<lambda>i. int (count_list (map pan (take (Suc i) (map demo_request [''41'', ''41'', ''59'', ''41''])))
       (pan (map demo_request [''41'', ''41'', ''59'', ''41''] ! i))) \<le> g_vel_limit ?r)
      [0..<length (map demo_request [''41'', ''41'', ''59'', ''41''])]"
  proof (rule risk_velocity_limit [where ?t0.0 = 1000])
    show "card (pan ` set (map demo_request [''41'', ''41'', ''59'', ''41''])) \<le> VEL_CAP"
      by (simp add: demo_request_def VEL_CAP_def card_insert_if)
  qed (simp_all add: lim, simp_all add: demo_request_def demo_risk_sys_def)
  then show ?thesis by (simp add: lim demo_request_def upt_conv_Cons)
qed

lemma risk_empty_pan:
  assumes "pan q = []" and "\<exists>e \<in> set (g_vel r). vpan e = []" and "1 \<le> g_vel_limit r"
    and "time_src s (time_calls s) - time_src s (Suc (time_calls s)) < g_vel_window_sec r"
    and "risk_evaluate (Some q) r s = (d, r', s')"
  shows "allow d" and "\<exists>e \<in> set (g_vel r'). vpan e = []" and "settings r' = settings r"
    and "time_src s' = time_src s"
proof -
  let ?t2 = "time_src s (Suc (time_calls s))"
  obtain w where w: "vel_scan [] 0 (g_vel r) (- 1) ?t2 (- 1) = Inr w"
    using vel_scan_found [of "[]" 0 "g_vel r" "- 1" ?t2 "- 1"] by (cases "vel_scan [] 0 (g_vel r) (- 1) ?t2 (- 1)") auto
  obtain f oi where fo: "w = (f, oi)" by force
  from assms(2) vel_scan_free [OF w [unfolded fo]] have f: "0 \<le> f" "nat f < length (g_vel r)" by auto
  let ?e = "\<lparr>vpan = [], vstart = ?t2, vcount = 0\<rparr>"
  let ?r = "r\<lparr>g_vel := (g_vel r)[nat f := ?e\<lparr>vcount := 1\<rparr>]\<rparr>"
  have g: "vel_get [] r (s\<lparr>time_calls := Suc (time_calls s)\<rparr>) =
    (nat f, r\<lparr>g_vel := (g_vel r)[nat f := ?e]\<rparr>, s\<lparr>time_calls := Suc (Suc (time_calls s))\<rparr>)"
    using w f(1) by (simp add: vel_get_def time_null_def fo Let_def clip_def)
  have "(d, r', s') = (\<lparr>allow = True, reason = []\<rparr>, if g_risk_enabled r then ?r else r, s') \<and>
      time_src s' = time_src s"
    using assms(1,3,4,5) g f(2)
    by (auto simp: risk_evaluate_def time_null_def Let_def split: if_splits)
  moreover have "?e\<lparr>vcount := 1\<rparr> \<in> set ((g_vel r)[nat f := ?e\<lparr>vcount := 1\<rparr>])"
    using f(2) by (rule set_update_memI)
  then have "\<exists>e \<in> set (g_vel ?r). vpan e = []"
    by (metis risk.simps(1) risk.surjective risk.update_convs(1) vel_entry.select_convs(1) vel_entry.update_convs(3))
  ultimately show "allow d" "\<exists>e \<in> set (g_vel r'). vpan e = []" "settings r' = settings r"
    "time_src s' = time_src s"
    using assms(2) by (auto simp: settings_def split: if_splits)
qed

text \<open>
  The limiter does not see an empty card number, which \<open>luhn_check\<close> accepts: as long as the
  table has a free entry and the clock is not set back by a whole window between two readings, any
  number of requests with an empty card number are all allowed, whatever the limit, because an
  entry with an empty number counts as free.
\<close>

theorem risk_empty_pan_unlimited:
  assumes "pan q = []" and "\<exists>e \<in> set (g_vel r). vpan e = []" and "1 \<le> g_vel_limit r"
    and "\<forall>k. time_src s k - time_src s (Suc k) < g_vel_window_sec r"
  shows "fst (risk_run (replicate n q) r s) = replicate n True"
  using assms
proof (induction n arbitrary: r s)
  case 0
  then show ?case by simp
next
  case (Suc n)
  obtain d r1 s1 where e: "risk_evaluate (Some q) r s = (d, r1, s1)" by (metis prod_cases3)
  note v = risk_empty_pan [OF Suc.prems(1,2,3) spec [OF Suc.prems(4)] e]
  have "fst (risk_run (replicate n q) r1 s1) = replicate n True"
    using Suc.prems v by (intro Suc.IH) (simp_all add: settings_def)
  with e v(1) show ?case by (simp add: case_prod_beta)
qed

text \<open>A concrete instance: five requests under a limit of one.\<close>

theorem risk_empty_pan_unlimited_witness:
  "fst (risk_run (replicate 5 (demo_request [])) (risk_start\<lparr>g_vel_limit := 1\<rparr>) demo_risk_sys) = replicate 5 True"
proof (rule risk_empty_pan_unlimited)
  show "\<exists>e \<in> set (g_vel (risk_start\<lparr>g_vel_limit := 1\<rparr>)). vpan e = []"
    by (simp add: risk_start_def VEL_CAP_def vel_zero_def)
qed (simp_all add: demo_request_def risk_start_def demo_risk_sys_def)

end
