(* ===== verification/Coordinator.thy ===== *)
theory Coordinator
  imports Sys
begin

section \<open>The two-phase commit coordinator (server/transaction\_coordinator.c)\<close>

text \<open>
  Transactions live in a store \<open>tx_heap\<close> from addresses to records, because the coordinator's
  table and the handler share pointers to them and \<open>remove_transaction\<close> frees them; the table
  \<open>active_transactions[0..active_count)\<close> is the list of the addresses in it. A participant is
  a record with its context pointer and its three function pointers; a callback acts on the
  process state and cannot reach the coordinator. The mutex of the coordinator is not
  modelled: a coordinator is thread-local (\<open>static __thread\<close> in \<open>handler_job\<close>), so its
  operations run one after the other.
\<close>

subsection \<open>Data\<close>

definition MAX_PARTICIPANTS :: nat where "MAX_PARTICIPANTS = 8"
definition MAX_TRANSACTION_ID_LEN :: nat where "MAX_TRANSACTION_ID_LEN = 64"
definition MAX_PARTICIPANT_NAME_LEN :: nat where "MAX_PARTICIPANT_NAME_LEN = 32"
definition MAX_ACTIVE_TRANSACTIONS :: nat where "MAX_ACTIVE_TRANSACTIONS = 1024"
definition DEFAULT_PREPARE_TIMEOUT :: int where "DEFAULT_PREPARE_TIMEOUT = 30"
definition DEFAULT_COMMIT_TIMEOUT :: int where "DEFAULT_COMMIT_TIMEOUT = 30"

datatype txn_state =
  TXN_INIT | TXN_PREPARING | TXN_PREPARED | TXN_COMMITTING | TXN_COMMITTED | TXN_ABORTING | TXN_ABORTED

datatype participant_state =
  PARTICIPANT_INIT | PARTICIPANT_PREPARED | PARTICIPANT_COMMITTED | PARTICIPANT_ABORTED
| PARTICIPANT_FAILED

type_synonym 's cbfun = "nat \<Rightarrow> string \<Rightarrow> 's \<Rightarrow> int \<times> 's"

record 's participant =
  pname :: string
  pstate :: participant_state
  pcontext :: nat
  prepare_fn :: "'s cbfun"
  commit_fn :: "'s cbfun"
  abort_fn :: "'s cbfun"

record 's transaction =
  transaction_id :: string
  tstate :: txn_state
  participants :: "'s participant list"
  start_time :: int
  prepare_timeout :: int
  commit_timeout :: int

record 's coordinator =
  active_transactions :: "nat list"
  tx_heap :: "nat \<Rightarrow> 's transaction option"
  txn_log :: bool
  prepare_timeout_seconds :: int
  commit_timeout_seconds :: int

fun txn_state_to_string :: "txn_state \<Rightarrow> string" where
  "txn_state_to_string TXN_INIT = ''INIT''"
| "txn_state_to_string TXN_PREPARING = ''PREPARING''"
| "txn_state_to_string TXN_PREPARED = ''PREPARED''"
| "txn_state_to_string TXN_COMMITTING = ''COMMITTING''"
| "txn_state_to_string TXN_COMMITTED = ''COMMITTED''"
| "txn_state_to_string TXN_ABORTING = ''ABORTING''"
| "txn_state_to_string TXN_ABORTED = ''ABORTED''"

fun participant_state_to_string :: "participant_state \<Rightarrow> string" where
  "participant_state_to_string PARTICIPANT_INIT = ''INIT''"
| "participant_state_to_string PARTICIPANT_PREPARED = ''PREPARED''"
| "participant_state_to_string PARTICIPANT_COMMITTED = ''COMMITTED''"
| "participant_state_to_string PARTICIPANT_ABORTED = ''ABORTED''"
| "participant_state_to_string PARTICIPANT_FAILED = ''FAILED''"

subsection \<open>The transaction table\<close>

abbreviation clog :: "string \<Rightarrow> string option \<Rightarrow> string \<Rightarrow> 'a sys_scheme \<Rightarrow> 'a sys_scheme" where
  "clog lvl rid msg \<equiv> logj lvl ''txn_coordinator'' rid msg"

definition log_transaction_state ::
    "'s coordinator \<Rightarrow> 's transaction \<Rightarrow> string \<Rightarrow> 'a sys_scheme \<Rightarrow> 'a sys_scheme" where
  "log_transaction_state c t action s =
     (if \<not> txn_log c then s
      else let (now, s1) = time_null s
           in emit (TxnLog now (transaction_id t) (txn_state_to_string (tstate t)) action) s1)"

definition has_id :: "'s coordinator \<Rightarrow> string \<Rightarrow> nat \<Rightarrow> bool" where
  \<comment> \<open>\<open>strcmp(active_transactions[i]->transaction_id, txn_id) == 0\<close>\<close>
  "has_id c tid p = (case tx_heap c p of None \<Rightarrow> False | Some t \<Rightarrow> transaction_id t = tid)"

definition find_transaction :: "string \<Rightarrow> 's coordinator \<Rightarrow> nat option" where
  "find_transaction tid c = find (has_id c tid) (active_transactions c)"

definition remove_transaction :: "string \<Rightarrow> 's coordinator \<Rightarrow> 's coordinator" where
  "remove_transaction tid c =
     (case find_transaction tid c of
        None \<Rightarrow> c
      | Some p \<Rightarrow> c\<lparr>active_transactions := remove_first (has_id c tid) (active_transactions c),
                    tx_heap := (tx_heap c)(p := None)\<rparr>)"

definition env_timeout :: "'a sys_scheme \<Rightarrow> string \<Rightarrow> int \<Rightarrow> int" where
  "env_timeout s v dflt =
     (let t = (case env_src s v of Some x \<Rightarrow> atoi x | None \<Rightarrow> dflt) in if t \<le> 0 then dflt else t)"

definition txn_coordinator_init ::
    "bool \<Rightarrow> bool \<Rightarrow> 'a sys_scheme \<Rightarrow> 'a sys_scheme coordinator option \<times> 'a sys_scheme" where
  \<comment> \<open>the arguments: whether \<open>pthread_mutex_init\<close> succeeds and whether the log file opens\<close>
  "txn_coordinator_init mutex_ok log_ok s =
     (case malloc s of
        (None, s1) \<Rightarrow> (None, s1)
      | (Some _, s1) \<Rightarrow>
          if \<not> mutex_ok then (None, s1)
          else
            let c = \<lparr>active_transactions = [], tx_heap = (\<lambda>_. None), txn_log = log_ok,
                     prepare_timeout_seconds =
                       env_timeout s1 ''TWOPC_PREPARE_TIMEOUT'' DEFAULT_PREPARE_TIMEOUT,
                     commit_timeout_seconds =
                       env_timeout s1 ''TWOPC_COMMIT_TIMEOUT'' DEFAULT_COMMIT_TIMEOUT\<rparr>;
                s2 = (if log_ok then s1 else clog ''WARN'' None ''Failed to open transaction log'' s1)
            in (Some c, clog ''INFO'' None ''Initialized'' s2))"

definition txn_coordinator_destroy :: "'s coordinator \<Rightarrow> 's coordinator" where
  \<comment> \<open>frees every transaction of the table and closes the log\<close>
  "txn_coordinator_destroy c =
     c\<lparr>tx_heap := (\<lambda>p. if p \<in> set (active_transactions c) then None else tx_heap c p), txn_log := False\<rparr>"

definition add_transaction :: "nat \<Rightarrow> 's transaction \<Rightarrow> 's coordinator \<Rightarrow> 's coordinator" where
  \<comment> \<open>\<open>active_transactions[active_count++] = txn\<close> for a transaction just allocated at \<open>p\<close>\<close>
  "add_transaction p t c = c\<lparr>tx_heap := (tx_heap c)(p \<mapsto> t),
                            active_transactions := active_transactions c @ [p]\<rparr>"

definition txn_begin ::
    "string option \<Rightarrow> 'a sys_scheme coordinator \<Rightarrow> 'a sys_scheme
      \<Rightarrow> nat option \<times> 'a sys_scheme coordinator \<times> 'a sys_scheme" where
  "txn_begin txn_id c s =
     (case txn_id of
        None \<Rightarrow> (None, c, s)
      | Some tid \<Rightarrow>
          if find_transaction tid c \<noteq> None
          then (None, c, clog ''ERROR'' (Some tid) ''Transaction already exists'' s)
          else if length (active_transactions c) \<ge> MAX_ACTIVE_TRANSACTIONS
          then (None, c, clog ''ERROR'' (Some tid) ''Too many active transactions'' s)
          else
            (case malloc s of
               (None, s1) \<Rightarrow> (None, c, s1)
             | (Some p, s1) \<Rightarrow>
                 let (now, s2) = time_null s1;
                     t = \<lparr>transaction_id = clip MAX_TRANSACTION_ID_LEN tid, tstate = TXN_INIT,
                          participants = [], start_time = now,
                          prepare_timeout = now + prepare_timeout_seconds c,
                          commit_timeout = now + commit_timeout_seconds c\<rparr>;
                     c1 = add_transaction p t c;
                     s3 = log_transaction_state c1 t ''BEGIN'' s2
                 in (Some p, c1, clog ''INFO'' (Some tid) ''Transaction started'' s3)))"

definition txn_register_participant ::
    "nat option \<Rightarrow> string option \<Rightarrow> nat \<Rightarrow> 'a sys_scheme cbfun option \<Rightarrow> 'a sys_scheme cbfun option
      \<Rightarrow> 'a sys_scheme cbfun option \<Rightarrow> 'a sys_scheme coordinator \<Rightarrow> 'a sys_scheme
      \<Rightarrow> int \<times> 'a sys_scheme coordinator \<times> 'a sys_scheme" where
  "txn_register_participant txn nm ctx prep com ab c s =
     (case (txn, nm, prep, com, ab) of
        (Some p, Some n, Some pf, Some cf, Some af) \<Rightarrow>
          (case tx_heap c p of
             None \<Rightarrow> (- 1, c, emit (Fault ''Transaction'' p) s)
           | Some t \<Rightarrow>
               if length (participants t) \<ge> MAX_PARTICIPANTS
               then (- 1, c, clog ''ERROR'' (Some (transaction_id t)) ''Too many participants'' s)
               else
                 let q = \<lparr>pname = clip MAX_PARTICIPANT_NAME_LEN n, pstate = PARTICIPANT_INIT,
                          pcontext = ctx, prepare_fn = pf, commit_fn = cf, abort_fn = af\<rparr>;
                     c1 = c\<lparr>tx_heap := (tx_heap c)(p \<mapsto> t\<lparr>participants := participants t @ [q]\<rparr>)\<rparr>
                 in (0, c1, clog ''INFO'' (Some (transaction_id t)) ''Participant registered'' s))
      | _ \<Rightarrow> (- 1, c, s))"

subsection \<open>The protocol\<close>

definition call_cb ::
    "callback \<Rightarrow> 'a sys_scheme participant \<Rightarrow> string \<Rightarrow> 'a sys_scheme \<Rightarrow> int \<times> 'a sys_scheme" where
  \<comment> \<open>\<open>p->prepare(p->context, txn_id)\<close> and the two others\<close>
  "call_cb k p tid s =
     (let f = (case k of Prepare \<Rightarrow> prepare_fn p | Commit \<Rightarrow> commit_fn p | Abort \<Rightarrow> abort_fn p);
          (r, s1) = f (pcontext p) tid s
      in (r, emit (Call (pname p) tid k r) s1))"

fun prepare_loop ::
    "string \<Rightarrow> 'a sys_scheme participant list \<Rightarrow> 'a sys_scheme
      \<Rightarrow> bool \<times> 'a sys_scheme participant list \<times> 'a sys_scheme" where
  "prepare_loop tid [] s = (True, [], s)"
| "prepare_loop tid (p # ps) s =
     (case call_cb Prepare p tid (clog ''INFO'' (Some tid) ''Preparing participant'' s) of
        (r, s1) \<Rightarrow>
          if r = 0 then
            (case prepare_loop tid ps (clog ''INFO'' (Some tid) ''Participant prepared'' s1) of
               (ok, ps', s2) \<Rightarrow> (ok, p\<lparr>pstate := PARTICIPANT_PREPARED\<rparr> # ps', s2))
          else (False, p\<lparr>pstate := PARTICIPANT_FAILED\<rparr> # ps,
                clog ''ERROR'' (Some tid) ''Participant prepare failed'' s1))"

fun commit_loop ::
    "string \<Rightarrow> 'a sys_scheme participant list \<Rightarrow> 'a sys_scheme
      \<Rightarrow> bool \<times> 'a sys_scheme participant list \<times> 'a sys_scheme" where
  "commit_loop tid [] s = (True, [], s)"
| "commit_loop tid (p # ps) s =
     (if pstate p = PARTICIPANT_PREPARED then
        (case call_cb Commit p tid s of
           (r, s1) \<Rightarrow>
             if r = 0 then
               (case commit_loop tid ps (clog ''INFO'' (Some tid) ''Participant committed'' s1) of
                  (ok, ps', s2) \<Rightarrow> (ok, p\<lparr>pstate := PARTICIPANT_COMMITTED\<rparr> # ps', s2))
             else
               (case commit_loop tid ps (clog ''ERROR'' (Some tid) ''Participant commit failed'' s1) of
                  (ok, ps', s2) \<Rightarrow> (False, p\<lparr>pstate := PARTICIPANT_FAILED\<rparr> # ps', s2)))
      else
        (case commit_loop tid ps s of (ok, ps', s2) \<Rightarrow> (ok, p # ps', s2)))"

fun abort_loop ::
    "string \<Rightarrow> 'a sys_scheme participant list \<Rightarrow> 'a sys_scheme
      \<Rightarrow> 'a sys_scheme participant list \<times> 'a sys_scheme" where
  "abort_loop tid [] s = ([], s)"
| "abort_loop tid (p # ps) s =
     (if pstate p = PARTICIPANT_PREPARED \<or> pstate p = PARTICIPANT_FAILED then
        (case call_cb Abort p tid s of
           (r, s1) \<Rightarrow>
             (case abort_loop tid ps (clog ''INFO'' (Some tid) ''Participant aborted'' s1) of
                (ps', s2) \<Rightarrow> (p\<lparr>pstate := PARTICIPANT_ABORTED\<rparr> # ps', s2)))
      else
        (case abort_loop tid ps s of (ps', s2) \<Rightarrow> (p # ps', s2)))"

fun abort_all_loop ::
    "string \<Rightarrow> 'a sys_scheme participant list \<Rightarrow> 'a sys_scheme
      \<Rightarrow> 'a sys_scheme participant list \<times> 'a sys_scheme" where
  "abort_all_loop tid [] s = ([], s)"
| "abort_all_loop tid (p # ps) s =
     (case call_cb Abort p tid s of
        (r, s1) \<Rightarrow>
          (case abort_all_loop tid ps s1 of
             (ps', s2) \<Rightarrow> (p\<lparr>pstate := PARTICIPANT_ABORTED\<rparr> # ps', s2)))"

definition put_txn :: "nat \<Rightarrow> 's transaction \<Rightarrow> 's coordinator \<Rightarrow> 's coordinator" where
  "put_txn p t c = c\<lparr>tx_heap := (tx_heap c)(p \<mapsto> t)\<rparr>"

definition read_freed :: "nat \<Rightarrow> 's coordinator \<Rightarrow> 'a sys_scheme \<Rightarrow> 'a sys_scheme" where
  \<comment> \<open>a read through the transaction pointer \<open>p\<close>: a fault when the transaction is freed\<close>
  "read_freed p c s = (if tx_heap c p = None then emit (Fault ''Transaction'' p) s else s)"

definition commit_abort_path ::
    "nat \<Rightarrow> 'a sys_scheme transaction \<Rightarrow> 'a sys_scheme coordinator \<Rightarrow> 'a sys_scheme
      \<Rightarrow> int \<times> 'a sys_scheme coordinator \<times> 'a sys_scheme" where
  \<comment> \<open>the part of \<open>txn_commit\<close> after the label ``ABORT path''\<close>
  "commit_abort_path p t c s =
     (let tid = transaction_id t;
          t1 = t\<lparr>tstate := TXN_ABORTING\<rparr>;
          s1 = log_transaction_state c t1 ''ABORT_START'' s;
          s2 = clog ''WARN'' (Some tid) ''Aborting transaction'' s1
      in case abort_loop tid (participants t1) s2 of
           (ps, s3) \<Rightarrow>
             let t2 = t1\<lparr>participants := ps, tstate := TXN_ABORTED\<rparr>;
                 s4 = log_transaction_state c t2 ''ABORTED'' s3;
                 c1 = remove_transaction tid (put_txn p t2 c);
                 s5 = with_metrics metrics_inc_2pc_aborted s4;
                 s6 = read_freed p c1 s5
             in (- 1, c1, clog ''INFO'' (Some tid) ''Transaction aborted'' s6))"

definition commit_finish ::
    "nat \<Rightarrow> 'a sys_scheme transaction \<Rightarrow> 'a sys_scheme coordinator \<Rightarrow> 'a sys_scheme
      \<Rightarrow> int \<times> 'a sys_scheme coordinator \<times> 'a sys_scheme" where
  \<comment> \<open>the branch \<open>if (commit_success)\<close> of \<open>txn_commit\<close>\<close>
  "commit_finish p t c s =
     (let tid = transaction_id t;
          t1 = t\<lparr>tstate := TXN_COMMITTED\<rparr>;
          s1 = log_transaction_state c t1 ''COMMITTED'' s;
          s2 = clog ''INFO'' (Some tid) ''Transaction committed successfully'' s1
      in (0, remove_transaction tid (put_txn p t1 c), with_metrics metrics_inc_2pc_committed s2))"

definition commit_phase ::
    "nat \<Rightarrow> 'a sys_scheme transaction \<Rightarrow> 'a sys_scheme coordinator \<Rightarrow> 'a sys_scheme
      \<Rightarrow> int \<times> 'a sys_scheme coordinator \<times> 'a sys_scheme" where
  \<comment> \<open>the branch \<open>if (all_prepared)\<close> of \<open>txn_commit\<close>\<close>
  "commit_phase p t c s =
     (let tid = transaction_id t;
          t1 = t\<lparr>tstate := TXN_PREPARED\<rparr>;
          s1 = log_transaction_state c t1 ''PREPARED'' s;
          t2 = t1\<lparr>tstate := TXN_COMMITTING\<rparr>;
          s2 = log_transaction_state c t2 ''COMMIT_START'' s1;
          s3 = clog ''INFO'' (Some tid) ''Starting COMMIT phase'' s2
      in case commit_loop tid (participants t2) s3 of
           (ok, ps, s4) \<Rightarrow>
             let t3 = t2\<lparr>participants := ps\<rparr>
             in if ok then commit_finish p t3 c s4 else commit_abort_path p t3 c s4)"

definition txn_commit ::
    "nat option \<Rightarrow> 'a sys_scheme coordinator \<Rightarrow> 'a sys_scheme
      \<Rightarrow> int \<times> 'a sys_scheme coordinator \<times> 'a sys_scheme" where
  "txn_commit txn c s =
     (case txn of
        None \<Rightarrow> (- 1, c, s)
      | Some p \<Rightarrow>
          (case tx_heap c p of
             None \<Rightarrow> (- 1, c, emit (Fault ''Transaction'' p) s)
           | Some t \<Rightarrow>
               let tid = transaction_id t;
                   t1 = t\<lparr>tstate := TXN_PREPARING\<rparr>;
                   s1 = log_transaction_state c t1 ''PREPARE_START'' s;
                   s2 = clog ''INFO'' (Some tid) ''Starting PREPARE phase'' s1
               in case prepare_loop tid (participants t1) s2 of
                    (ok, ps, s3) \<Rightarrow>
                      let t2 = t1\<lparr>participants := ps\<rparr>
                      in if ok then commit_phase p t2 c s3 else commit_abort_path p t2 c s3))"

definition txn_abort ::
    "nat option \<Rightarrow> 'a sys_scheme coordinator \<Rightarrow> 'a sys_scheme
      \<Rightarrow> 'a sys_scheme coordinator \<times> 'a sys_scheme" where
  "txn_abort txn c s =
     (case txn of
        None \<Rightarrow> (c, s)
      | Some p \<Rightarrow>
          (case tx_heap c p of
             None \<Rightarrow> (c, emit (Fault ''Transaction'' p) s)
           | Some t \<Rightarrow>
               let tid = transaction_id t;
                   t1 = t\<lparr>tstate := TXN_ABORTING\<rparr>;
                   s1 = log_transaction_state c t1 ''ABORT_EXPLICIT'' s;
                   s2 = clog ''INFO'' (Some tid) ''Explicitly aborting transaction'' s1
               in case abort_all_loop tid (participants t1) s2 of
                    (ps, s3) \<Rightarrow>
                      let t2 = t1\<lparr>participants := ps, tstate := TXN_ABORTED\<rparr>;
                          s4 = log_transaction_state c t2 ''ABORTED'' s3
                      in (remove_transaction tid (put_txn p t2 c), s4)))"

definition txn_get_by_id :: "string option \<Rightarrow> 's coordinator \<Rightarrow> nat option" where
  "txn_get_by_id txn_id c = (case txn_id of None \<Rightarrow> None | Some tid \<Rightarrow> find_transaction tid c)"

definition txn_recover :: "'a sys_scheme \<Rightarrow> int \<times> 'a sys_scheme" where
  "txn_recover s = (0, clog ''INFO'' None ''Recovery not implemented'' s)"


subsection \<open>What a run leaves in the trace\<close>

fun is_call :: "event \<Rightarrow> bool" where
  "is_call (Call n tid k r) = True"
| "is_call _ = False"

definition calls :: "event list \<Rightarrow> event list" where
  "calls es = filter is_call es"

fun tlog :: "event list \<Rightarrow> (string \<times> string \<times> string) list" where
  \<comment> \<open>identifier, state and action of the lines of the transaction log\<close>
  "tlog [] = []"
| "tlog (TxnLog now tid st act # es) = (tid, st, act) # tlog es"
| "tlog (_ # es) = tlog es"

definition evs :: "string \<Rightarrow> callback \<Rightarrow> (string \<times> int) list \<Rightarrow> event list" where
  "evs tid k xs = map (\<lambda>(n, r). Call n tid k r) xs"

definition zeros :: "(string \<times> int) list \<Rightarrow> bool" where
  "zeros xs \<longleftrightarrow> (\<forall>x \<in> set xs. snd x = 0)"

definition twopc_outcome ::
    "string list \<Rightarrow> (string \<times> int) list \<Rightarrow> (string \<times> int) list \<Rightarrow> (string \<times> int) list \<Rightarrow> int \<Rightarrow> bool" where
  \<comment> \<open>the abstract protocol: who is asked, who is told to commit, who is told to abort, and the
      decision, given the answers \<open>pv\<close> to PREPARE, \<open>cv\<close> to COMMIT and \<open>av\<close> to ABORT\<close>
  "twopc_outcome names pv cv av r \<longleftrightarrow>
     (if zeros pv
      then map fst pv = names \<and> map fst cv = names \<and>
           map fst av = map fst (filter (\<lambda>x. snd x \<noteq> 0) cv) \<and>
           r = (if zeros cv then 0 else - 1)
      else zeros (butlast pv) \<and> snd (last pv) \<noteq> 0 \<and> prefix (map fst pv) names \<and>
           cv = [] \<and> map fst av = map fst pv \<and> r = - 1)"

definition quiet_cb :: "'a sys_scheme cbfun \<Rightarrow> bool" where
  \<comment> \<open>a callback does not itself act as a coordinator\<close>
  "quiet_cb f \<longleftrightarrow>
     (\<forall>ctx tid s. calls (trace (snd (f ctx tid s))) = calls (trace s)
                \<and> tlog (trace (snd (f ctx tid s))) = tlog (trace s)
                \<and> allocs s \<le> allocs (snd (f ctx tid s))
                \<and> g_2pc_committed (metrics (snd (f ctx tid s))) = g_2pc_committed (metrics s)
                \<and> g_2pc_aborted (metrics (snd (f ctx tid s))) = g_2pc_aborted (metrics s))"

definition quiet :: "'a sys_scheme participant \<Rightarrow> bool" where
  "quiet p \<longleftrightarrow> quiet_cb (prepare_fn p) \<and> quiet_cb (commit_fn p) \<and> quiet_cb (abort_fn p)"

lemma calls_simps [simp]:
  "calls [] = []"
  "calls (es @ fs) = calls es @ calls fs"
  "calls (e # es) = (if is_call e then e # calls es else calls es)"
  by (simp_all add: calls_def)

lemma tlog_append [simp]: "tlog (es @ fs) = tlog es @ tlog fs"
  by (induction es rule: tlog.induct) auto

lemma evs_simps [simp]:
  "evs tid k [] = []"
  "evs tid k ((n, r) # xs) = Call n tid k r # evs tid k xs"
  by (simp_all add: evs_def)

lemma zeros_simps [simp]:
  "zeros []"
  "zeros (x # xs) \<longleftrightarrow> snd x = 0 \<and> zeros xs"
  by (auto simp: zeros_def)

lemma log_state_calls [simp]: "calls (trace (log_transaction_state c t a s)) = calls (trace s)"
  by (simp add: log_transaction_state_def time_null_def)

lemma log_state_tlog [simp]:
  "tlog (trace (log_transaction_state c t a s)) =
     tlog (trace s) @ (if txn_log c then [(transaction_id t, txn_state_to_string (tstate t), a)] else [])"
  by (simp add: log_transaction_state_def time_null_def)

lemma log_state_metrics [simp]: "metrics (log_transaction_state c t a s) = metrics s"
  by (simp add: log_transaction_state_def time_null_def)

lemma allocs_sys [simp]:
  "allocs (log_transaction_state c t a s) = allocs s"
  "allocs (logj l e r m s) = allocs s"
  "allocs (emit ev s) = allocs s"
  "allocs (with_metrics f s) = allocs s"
  by (simp_all add: log_transaction_state_def sys_defs)

lemma read_freed_simps [simp]:
  "calls (trace (read_freed p c s)) = calls (trace s)"
  "tlog (trace (read_freed p c s)) = tlog (trace s)"
  "metrics (read_freed p c s) = metrics s"
  "allocs (read_freed p c s) = allocs s"
  by (simp_all add: read_freed_def)

lemma call_cb_quiet:
  assumes "quiet p" and "call_cb k p tid s = (r, s')"
  shows "calls (trace s') = calls (trace s) @ [Call (pname p) tid k r]"
    and "tlog (trace s') = tlog (trace s)"
    and "allocs s \<le> allocs s'"
    and "g_2pc_committed (metrics s') = g_2pc_committed (metrics s)"
    and "g_2pc_aborted (metrics s') = g_2pc_aborted (metrics s)"
proof -
  define f where "f = (case k of Prepare \<Rightarrow> prepare_fn p | Commit \<Rightarrow> commit_fn p | Abort \<Rightarrow> abort_fn p)"
  have q: "quiet_cb f" using assms(1) by (cases k) (auto simp: f_def quiet_def)
  obtain r' s1 where e: "f (pcontext p) tid s = (r', s1)" by fastforce
  have s': "r = r'" "s' = emit (Call (pname p) tid k r) s1"
    using assms(2) e by (auto simp: call_cb_def f_def [symmetric])
  note a = q [unfolded quiet_cb_def, rule_format, of "pcontext p" tid s, unfolded e snd_conv]
  show "calls (trace s') = calls (trace s) @ [Call (pname p) tid k r]" using a s' by simp
  show "tlog (trace s') = tlog (trace s)" using a s' by simp
  show "allocs s \<le> allocs s'" using a s' by simp
  show "g_2pc_committed (metrics s') = g_2pc_committed (metrics s)" using a s' by simp
  show "g_2pc_aborted (metrics s') = g_2pc_aborted (metrics s)" using a s' by simp
qed


definition to_abort :: "'s participant list \<Rightarrow> 's participant list" where
  "to_abort ps = filter (\<lambda>p. pstate p = PARTICIPANT_PREPARED \<or> pstate p = PARTICIPANT_FAILED) ps"

lemma prepare_loop_calls:
  assumes "\<forall>p \<in> set ps. quiet p" and "\<forall>p \<in> set ps. pstate p = PARTICIPANT_INIT"
    and "prepare_loop tid ps s = (ok, ps', s')"
  shows "\<exists>pv. calls (trace s') = calls (trace s) @ evs tid Prepare pv \<and> ok = zeros pv \<and>
     map fst pv = map pname (to_abort ps') \<and> map pname ps' = map pname ps \<and>
     (\<forall>p \<in> set ps'. quiet p) \<and>
     (if ok then map fst pv = map pname ps \<and> (\<forall>p \<in> set ps'. pstate p = PARTICIPANT_PREPARED)
      else zeros (butlast pv) \<and> snd (last pv) \<noteq> 0 \<and> prefix (map fst pv) (map pname ps))"
  using assms
proof (induction ps arbitrary: s ok ps' s')
  case Nil
  then show ?case by (auto simp: to_abort_def intro: exI [of _ "[]"])
next
  case (Cons p ps)
  define s0 where "s0 = clog ''INFO'' (Some tid) ''Preparing participant'' s"
  obtain r s1 where cb: "call_cb Prepare p tid s0 = (r, s1)" by fastforce
  have c1: "calls (trace s1) = calls (trace s) @ [Call (pname p) tid Prepare r]"
    using call_cb_quiet(1) [OF _ cb] Cons.prems(1) by (simp add: s0_def)
  have qp: "quiet (p\<lparr>pstate := x\<rparr>)" for x
    using Cons.prems(1) by (simp add: quiet_def)
  show ?case
  proof (cases "r = 0")
    case False
    have ps': "ps' = p\<lparr>pstate := PARTICIPANT_FAILED\<rparr> # ps" "\<not> ok"
      and s': "s' = clog ''ERROR'' (Some tid) ''Participant prepare failed'' s1"
      using Cons.prems(3) cb False by (simp_all add: s0_def [symmetric])
    have "to_abort ps = []" using Cons.prems(2) by (auto simp: to_abort_def filter_empty_conv)
    then have "to_abort ps' = [p\<lparr>pstate := PARTICIPANT_FAILED\<rparr>]"
      using ps' by (simp add: to_abort_def)
    then show ?thesis
      using ps' s' c1 False qp Cons.prems(1) by (auto intro!: exI [of _ "[(pname p, r)]"])
  next
    case True
    define s2 where "s2 = clog ''INFO'' (Some tid) ''Participant prepared'' s1"
    obtain ok1 ps1 s3 where rec: "prepare_loop tid ps s2 = (ok1, ps1, s3)" by (cases "prepare_loop tid ps s2") auto
    have eqs: "ok = ok1" "ps' = p\<lparr>pstate := PARTICIPANT_PREPARED\<rparr> # ps1" "s' = s3"
      using Cons.prems(3) cb True rec by (simp_all add: s0_def [symmetric] s2_def [symmetric])
    from Cons.IH [OF _ _ rec] Cons.prems obtain pv where
      pv: "calls (trace s3) = calls (trace s2) @ evs tid Prepare pv" "ok1 = zeros pv"
        "map fst pv = map pname (to_abort ps1)" "map pname ps1 = map pname ps" "\<forall>p \<in> set ps1. quiet p"
        "if ok1 then map fst pv = map pname ps \<and> (\<forall>p \<in> set ps1. pstate p = PARTICIPANT_PREPARED)
         else zeros (butlast pv) \<and> snd (last pv) \<noteq> 0 \<and> prefix (map fst pv) (map pname ps)" by auto
    have ne: "\<not> ok1 \<Longrightarrow> pv \<noteq> []" using pv(2) by auto
    have "to_abort ps' = p\<lparr>pstate := PARTICIPANT_PREPARED\<rparr> # to_abort ps1"
      using eqs(2) by (simp add: to_abort_def)
    then show ?thesis
      using pv eqs c1 True ne qp
      by (intro exI [of _ "(pname p, r) # pv"]) (auto simp: s2_def)
  qed
qed

lemma commit_loop_calls:
  assumes "\<forall>p \<in> set ps. quiet p" and "\<forall>p \<in> set ps. pstate p = PARTICIPANT_PREPARED"
    and "commit_loop tid ps s = (ok, ps', s')"
  shows "\<exists>cv. calls (trace s') = calls (trace s) @ evs tid Commit cv \<and> ok = zeros cv \<and>
     map fst cv = map pname ps \<and> (\<forall>p \<in> set ps'. quiet p) \<and>
     map pname (to_abort ps') = map fst (filter (\<lambda>x. snd x \<noteq> 0) cv)"
  using assms
proof (induction ps arbitrary: s ok ps' s')
  case Nil
  then show ?case by (auto simp: to_abort_def intro: exI [of _ "[]"])
next
  case (Cons p ps)
  obtain r s1 where cb: "call_cb Commit p tid s = (r, s1)" by fastforce
  have c1: "calls (trace s1) = calls (trace s) @ [Call (pname p) tid Commit r]"
    using call_cb_quiet(1) [OF _ cb] Cons.prems(1) by simp
  define s2 where "s2 = (if r = 0 then clog ''INFO'' (Some tid) ''Participant committed'' s1
     else clog ''ERROR'' (Some tid) ''Participant commit failed'' s1)"
  obtain ok1 ps1 s3 where rec: "commit_loop tid ps s2 = (ok1, ps1, s3)"
    by (cases "commit_loop tid ps s2") auto
  have pp: "pstate p = PARTICIPANT_PREPARED" using Cons.prems(2) by simp
  have eqs: "ok = (r = 0 \<and> ok1)" "s' = s3"
    "ps' = p\<lparr>pstate := (if r = 0 then PARTICIPANT_COMMITTED else PARTICIPANT_FAILED)\<rparr> # ps1"
    using Cons.prems(3) cb rec pp by (auto simp: s2_def split: if_splits)
  from Cons.IH [OF _ _ rec] Cons.prems obtain cv where
    cv: "calls (trace s3) = calls (trace s2) @ evs tid Commit cv" "ok1 = zeros cv"
      "map fst cv = map pname ps" "\<forall>p \<in> set ps1. quiet p"
      "map pname (to_abort ps1) = map fst (filter (\<lambda>x. snd x \<noteq> 0) cv)" by auto
  have "to_abort ps' = (if r = 0 then to_abort ps1 else p\<lparr>pstate := PARTICIPANT_FAILED\<rparr> # to_abort ps1)"
    using eqs(3) by (simp add: to_abort_def)
  moreover have "quiet (p\<lparr>pstate := x\<rparr>)" for x
    using Cons.prems(1) by (simp add: quiet_def)
  ultimately show ?case
    using cv eqs c1 by (intro exI [of _ "(pname p, r) # cv"]) (auto simp: s2_def)
qed

lemma abort_loop_calls:
  assumes "\<forall>p \<in> set ps. quiet p" and "abort_loop tid ps s = (ps', s')"
  shows "\<exists>av. calls (trace s') = calls (trace s) @ evs tid Abort av \<and>
     map fst av = map pname (to_abort ps)"
  using assms
proof (induction ps arbitrary: s ps' s')
  case Nil
  then show ?case by (auto simp: to_abort_def intro: exI [of _ "[]"])
next
  case (Cons p ps)
  show ?case
  proof (cases "pstate p = PARTICIPANT_PREPARED \<or> pstate p = PARTICIPANT_FAILED")
    case True
    obtain r s1 where cb: "call_cb Abort p tid s = (r, s1)" by fastforce
    have c1: "calls (trace s1) = calls (trace s) @ [Call (pname p) tid Abort r]"
      using call_cb_quiet(1) [OF _ cb] Cons.prems(1) by simp
    define s2 where "s2 = clog ''INFO'' (Some tid) ''Participant aborted'' s1"
    obtain ps1 s3 where rec: "abort_loop tid ps s2 = (ps1, s3)" by fastforce
    have eqs: "s' = s3"
      using Cons.prems(2) cb rec True by (auto simp: s2_def)
    from Cons.IH [OF _ rec] Cons.prems(1) obtain av where
      "calls (trace s3) = calls (trace s2) @ evs tid Abort av" "map fst av = map pname (to_abort ps)"
      by auto
    with eqs c1 True show ?thesis
      by (intro exI [of _ "(pname p, r) # av"]) (auto simp: s2_def to_abort_def)
  next
    case False
    obtain ps1 s3 where rec: "abort_loop tid ps s = (ps1, s3)" by fastforce
    with Cons.prems(2) False have "s' = s3" by auto
    with Cons.IH [OF _ rec] Cons.prems(1) False show ?thesis
      by (auto simp: to_abort_def)
  qed
qed


text \<open>
  Facts about the state that every callback keeps, the loops keep: \<open>R\<close> relates the state
  before to the state after, \<open>G\<close> says what is known of the participants.
\<close>

lemma prepare_loop_preserves:
  assumes "\<And>s. R s s" and tr: "\<And>s t u. R s t \<Longrightarrow> R t u \<Longrightarrow> R s u"
    and lg: "\<And>l e r m s. R s (logj l e r m s)"
    and cb: "\<And>p k s. G p \<Longrightarrow> R s (snd (call_cb k p tid s))"
    and upd: "\<And>p x. G p \<Longrightarrow> G (p\<lparr>pstate := x\<rparr>)"
    and "\<forall>p \<in> set ps. G p" and "prepare_loop tid ps s = (ok, ps', s')"
  shows "R s s' \<and> (\<forall>p \<in> set ps'. G p)"
  using assms(6,7)
proof (induction ps arbitrary: s ok ps' s')
  case Nil
  then show ?case using assms(1) by simp
next
  case (Cons p ps)
  define s0 where "s0 = clog ''INFO'' (Some tid) ''Preparing participant'' s"
  obtain r s1 where c: "call_cb Prepare p tid s0 = (r, s1)" by fastforce
  have "R s0 s1" using cb [of p s0 Prepare] Cons.prems(1) c by simp
  then have r1: "R s (clog l i m s1)" for l i m using lg tr unfolding s0_def by blast
  show ?case
  proof (cases "r = 0")
    case True
    obtain ok1 ps1 s3 where rec:
      "prepare_loop tid ps (clog ''INFO'' (Some tid) ''Participant prepared'' s1) = (ok1, ps1, s3)"
      using prod_cases3 by blast
    with Cons.prems(2) c True have "s' = s3" "ps' = p\<lparr>pstate := PARTICIPANT_PREPARED\<rparr> # ps1"
      by (simp_all add: s0_def)
    moreover have "R s s3" using Cons.IH [OF _ rec] Cons.prems(1) tr [OF r1] by auto
    ultimately show ?thesis using Cons.IH [OF _ rec] Cons.prems(1) upd by auto
  next
    case False
    with Cons.prems c r1 upd show ?thesis by (auto simp: s0_def)
  qed
qed

lemma commit_loop_preserves:
  assumes "\<And>s. R s s" and tr: "\<And>s t u. R s t \<Longrightarrow> R t u \<Longrightarrow> R s u"
    and lg: "\<And>l e r m s. R s (logj l e r m s)"
    and cb: "\<And>p k s. G p \<Longrightarrow> R s (snd (call_cb k p tid s))"
    and upd: "\<And>p x. G p \<Longrightarrow> G (p\<lparr>pstate := x\<rparr>)"
    and "\<forall>p \<in> set ps. G p" and "commit_loop tid ps s = (ok, ps', s')"
  shows "R s s' \<and> (\<forall>p \<in> set ps'. G p)"
  using assms(6,7)
proof (induction ps arbitrary: s ok ps' s')
  case Nil
  then show ?case using assms(1) by simp
next
  case (Cons p ps)
  show ?case
  proof (cases "pstate p = PARTICIPANT_PREPARED")
    case True
    obtain r s1 where c: "call_cb Commit p tid s = (r, s1)" by fastforce
    have "R s s1" using cb [of p s Commit] Cons.prems(1) c by simp
    then have r1: "R s (clog l i m s1)" for l i m using lg tr by blast
    define s2 where "s2 = (if r = 0 then clog ''INFO'' (Some tid) ''Participant committed'' s1
       else clog ''ERROR'' (Some tid) ''Participant commit failed'' s1)"
    obtain ok1 ps1 s3 where rec: "commit_loop tid ps s2 = (ok1, ps1, s3)"
      using prod_cases3 by blast
    with Cons.prems(2) c True have "s' = s3"
      "ps' = p\<lparr>pstate := (if r = 0 then PARTICIPANT_COMMITTED else PARTICIPANT_FAILED)\<rparr> # ps1"
      by (auto simp: s2_def split: if_splits)
    moreover have "R s s2" using r1 by (simp add: s2_def)
    ultimately show ?thesis using Cons.IH [OF _ rec] Cons.prems(1) tr upd by auto
  next
    case False
    obtain ok1 ps1 s3 where rec: "commit_loop tid ps s = (ok1, ps1, s3)"
      using prod_cases3 by blast
    with Cons.prems(2) False have "s' = s3" "ps' = p # ps1" by simp_all
    with Cons.IH [OF _ rec] Cons.prems(1) show ?thesis by auto
  qed
qed

lemma abort_loop_preserves:
  assumes "\<And>s. R s s" and tr: "\<And>s t u. R s t \<Longrightarrow> R t u \<Longrightarrow> R s u"
    and lg: "\<And>l e r m s. R s (logj l e r m s)"
    and cb: "\<And>p k s. G p \<Longrightarrow> R s (snd (call_cb k p tid s))"
    and "\<forall>p \<in> set ps. G p" and "abort_loop tid ps s = (ps', s')"
  shows "R s s'"
  using assms(5,6)
proof (induction ps arbitrary: s ps' s')
  case Nil
  then show ?case using assms(1) by simp
next
  case (Cons p ps)
  show ?case
  proof (cases "pstate p = PARTICIPANT_PREPARED \<or> pstate p = PARTICIPANT_FAILED")
    case True
    obtain r s1 where c: "call_cb Abort p tid s = (r, s1)" by fastforce
    have "R s s1" using cb [of p s Abort] Cons.prems(1) c by simp
    then have r1: "R s (clog l i m s1)" for l i m using lg tr by blast
    obtain ps1 s3 where rec:
      "abort_loop tid ps (clog ''INFO'' (Some tid) ''Participant aborted'' s1) = (ps1, s3)" by fastforce
    with Cons.prems(2) c True have "s' = s3" by simp
    with Cons.IH [OF _ rec] Cons.prems(1) tr [OF r1] show ?thesis by auto
  next
    case False
    obtain ps1 s3 where rec: "abort_loop tid ps s = (ps1, s3)" by fastforce
    with Cons.prems(2) False have "s' = s3" by simp
    with Cons.IH [OF _ rec] Cons.prems(1) show ?thesis by auto
  qed
qed

lemma abort_all_loop_preserves:
  assumes "\<And>s. R s s" and tr: "\<And>s t u. R s t \<Longrightarrow> R t u \<Longrightarrow> R s u"
    and cb: "\<And>p k s. G p \<Longrightarrow> R s (snd (call_cb k p tid s))"
    and "\<forall>p \<in> set ps. G p" and "abort_all_loop tid ps s = (ps', s')"
  shows "R s s'"
  using assms(4,5)
proof (induction ps arbitrary: s ps' s')
  case Nil
  then show ?case using assms(1) by simp
next
  case (Cons p ps)
  obtain r s1 where c: "call_cb Abort p tid s = (r, s1)" by fastforce
  obtain ps1 s3 where rec: "abort_all_loop tid ps s1 = (ps1, s3)" by fastforce
  have "R s s1" using cb [of p s Abort] Cons.prems(1) c by simp
  moreover have "s' = s3" using Cons.prems(2) c rec by simp
  ultimately show ?case using Cons.IH [OF _ rec] Cons.prems(1) tr by auto
qed

definition same_records :: "'a sys_scheme \<Rightarrow> 'a sys_scheme \<Rightarrow> bool" where
  "same_records s s' \<longleftrightarrow> tlog (trace s') = tlog (trace s) \<and> allocs s \<le> allocs s'
     \<and> g_2pc_committed (metrics s') = g_2pc_committed (metrics s)
     \<and> g_2pc_aborted (metrics s') = g_2pc_aborted (metrics s)"

lemma same_records_rules:
  "same_records s s"
  "same_records s t \<Longrightarrow> same_records t u \<Longrightarrow> same_records s u"
  "same_records s (logj l e r m s)"
  "quiet p \<Longrightarrow> same_records s (snd (call_cb k p tid s))"
  "quiet p \<Longrightarrow> quiet (p\<lparr>pstate := x\<rparr>)"
  using call_cb_quiet [of p k tid s "fst (call_cb k p tid s)" "snd (call_cb k p tid s)"]
  by (auto simp: same_records_def quiet_def)

lemma prepare_loop_records:
  assumes "\<forall>p \<in> set ps. quiet p" and "prepare_loop tid ps s = (ok, ps', s')"
  shows "same_records s s' \<and> (\<forall>p \<in> set ps'. quiet p)"
  by (rule prepare_loop_preserves [where R = same_records and G = quiet, OF _ _ _ _ _ assms])
     (fact same_records_rules)+

lemma commit_loop_records:
  assumes "\<forall>p \<in> set ps. quiet p" and "commit_loop tid ps s = (ok, ps', s')"
  shows "same_records s s' \<and> (\<forall>p \<in> set ps'. quiet p)"
  by (rule commit_loop_preserves [where R = same_records and G = quiet, OF _ _ _ _ _ assms])
     (fact same_records_rules)+

lemma abort_loop_records:
  assumes "\<forall>p \<in> set ps. quiet p" and "abort_loop tid ps s = (ps', s')"
  shows "same_records s s'"
  by (rule abort_loop_preserves [where R = same_records and G = quiet, OF _ _ _ _ assms])
     (fact same_records_rules)+

lemma abort_all_loop_records:
  assumes "\<forall>p \<in> set ps. quiet p" and "abort_all_loop tid ps s = (ps', s')"
  shows "same_records s s'"
  by (rule abort_all_loop_preserves [where R = same_records and G = quiet, OF _ _ _ assms])
     (fact same_records_rules)+

subsection \<open>The protocol refines two-phase commit\<close>

definition commit_started ::
    "'s coordinator \<Rightarrow> 's transaction \<Rightarrow> 'a sys_scheme \<Rightarrow> 'a sys_scheme" where
  \<comment> \<open>the state in which the loop over the COMMIT callbacks starts\<close>
  "commit_started c t s = clog ''INFO'' (Some (transaction_id t)) ''Starting COMMIT phase''
    (log_transaction_state c (t\<lparr>tstate := TXN_COMMITTING\<rparr>) ''COMMIT_START''
      (log_transaction_state c (t\<lparr>tstate := TXN_PREPARED\<rparr>) ''PREPARED'' s))"

definition prepare_started ::
    "'s coordinator \<Rightarrow> 's transaction \<Rightarrow> 'a sys_scheme \<Rightarrow> 'a sys_scheme" where
  \<comment> \<open>the state in which the loop over the PREPARE callbacks starts\<close>
  "prepare_started c t s = clog ''INFO'' (Some (transaction_id t)) ''Starting PREPARE phase''
    (log_transaction_state c (t\<lparr>tstate := TXN_PREPARING\<rparr>) ''PREPARE_START'' s)"

definition abort_started ::
    "'s coordinator \<Rightarrow> 's transaction \<Rightarrow> 'a sys_scheme \<Rightarrow> 'a sys_scheme" where
  \<comment> \<open>the state in which the loop over the ABORT callbacks starts\<close>
  "abort_started c t s = clog ''WARN'' (Some (transaction_id t)) ''Aborting transaction''
    (log_transaction_state c (t\<lparr>tstate := TXN_ABORTING\<rparr>) ''ABORT_START'' s)"

lemma commit_phase_eq:
  assumes "commit_loop (transaction_id t) (participants t) (commit_started c t s) = (ok, ps, s4)"
  shows "commit_phase p t c s =
     (if ok then commit_finish p (t\<lparr>tstate := TXN_COMMITTING, participants := ps\<rparr>) c s4
      else commit_abort_path p (t\<lparr>tstate := TXN_COMMITTING, participants := ps\<rparr>) c s4)"
proof -
  have "t\<lparr>tstate := TXN_PREPARED, tstate := TXN_COMMITTING\<rparr> = t\<lparr>tstate := TXN_COMMITTING\<rparr>" by simp
  then show ?thesis using assms by (simp only: commit_phase_def commit_started_def Let_def) simp
qed

lemma txn_commit_eq:
  assumes "tx_heap c p = Some t"
    and "prepare_loop (transaction_id t) (participants t) (prepare_started c t s) = (ok, ps, s3)"
  shows "txn_commit (Some p) c s =
     (if ok then commit_phase p (t\<lparr>tstate := TXN_PREPARING, participants := ps\<rparr>) c s3
      else commit_abort_path p (t\<lparr>tstate := TXN_PREPARING, participants := ps\<rparr>) c s3)"
  using assms by (simp add: txn_commit_def Let_def prepare_started_def)

lemma commit_abort_path_eq:
  assumes "abort_loop (transaction_id t) (participants t) (abort_started c t s) = (ps, s3)"
  shows "commit_abort_path p t c s =
     (let t2 = t\<lparr>participants := ps, tstate := TXN_ABORTED\<rparr>;
          c1 = remove_transaction (transaction_id t) (put_txn p t2 c)
      in (- 1, c1, clog ''INFO'' (Some (transaction_id t)) ''Transaction aborted''
           (read_freed p c1 (with_metrics metrics_inc_2pc_aborted
              (log_transaction_state c t2 ''ABORTED'' s3)))))"
  using assms by (simp add: commit_abort_path_def abort_started_def Let_def)

lemma started_simps [simp]:
  "calls (trace (commit_started c t s)) = calls (trace s)"
  "calls (trace (prepare_started c t s)) = calls (trace s)"
  "calls (trace (abort_started c t s)) = calls (trace s)"
  "metrics (commit_started c t s) = metrics s"
  "metrics (prepare_started c t s) = metrics s"
  "metrics (abort_started c t s) = metrics s"
  "allocs (commit_started c t s) = allocs s"
  "allocs (prepare_started c t s) = allocs s"
  "allocs (abort_started c t s) = allocs s"
  by (simp_all add: commit_started_def prepare_started_def abort_started_def)

lemma commit_abort_path_calls:
  assumes "\<forall>q \<in> set (participants t). quiet q" and "commit_abort_path p t c s = (r, c', s')"
  shows "r = - 1 \<and> (\<exists>av. calls (trace s') = calls (trace s) @ evs (transaction_id t) Abort av \<and>
     map fst av = map pname (to_abort (participants t)))"
proof -
  obtain ps s3 where l: "abort_loop (transaction_id t) (participants t) (abort_started c t s) = (ps, s3)"
    by fastforce
  moreover have "calls (trace s') = calls (trace s3)" "r = - 1"
    using assms(2) by (auto simp: commit_abort_path_eq [OF l] Let_def)
  ultimately show ?thesis using abort_loop_calls [OF assms(1) l] by auto
qed

lemma commit_phase_calls:
  assumes "\<forall>q \<in> set (participants t). quiet q"
    and "\<forall>q \<in> set (participants t). pstate q = PARTICIPANT_PREPARED"
    and "commit_phase p t c s = (r, c', s')"
  shows "\<exists>cv av. calls (trace s') = calls (trace s) @ evs (transaction_id t) Commit cv @ evs (transaction_id t) Abort av
     \<and> map fst cv = map pname (participants t) \<and> map fst av = map fst (filter (\<lambda>x. snd x \<noteq> 0) cv)
     \<and> r = (if zeros cv then 0 else - 1)"
proof -
  obtain ok ps s4 where l:
    "commit_loop (transaction_id t) (participants t) (commit_started c t s) = (ok, ps, s4)"
    using prod_cases3 by blast
  from commit_loop_calls [OF assms(1,2) l] obtain cv where
    cv: "calls (trace s4) = calls (trace s) @ evs (transaction_id t) Commit cv" "ok = zeros cv"
      "map fst cv = map pname (participants t)" "\<forall>q \<in> set ps. quiet q"
      "map pname (to_abort ps) = map fst (filter (\<lambda>x. snd x \<noteq> 0) cv)" by auto
  note res = assms(3) [unfolded commit_phase_eq [OF l]]
  show ?thesis
  proof (cases ok)
    case True
    then have "calls (trace s') = calls (trace s4)" "r = 0"
      using res by (auto simp: commit_finish_def Let_def)
    moreover have "filter (\<lambda>x. snd x \<noteq> 0) cv = []"
      using True cv(2) by (auto simp: zeros_def filter_empty_conv)
    ultimately show ?thesis
      using cv True by (intro exI [of _ cv] exI [of _ "[]"]) simp
  next
    case False
    define t2 where "t2 = t\<lparr>tstate := TXN_COMMITTING, participants := ps\<rparr>"
    have "commit_abort_path p t2 c s4 = (r, c', s')" using res False by (simp add: t2_def)
    from commit_abort_path_calls [OF _ this] cv(4) obtain av where
      "r = - 1" "calls (trace s') = calls (trace s4) @ evs (transaction_id t) Abort av"
      "map fst av = map pname (to_abort ps)" by (auto simp: t2_def)
    then show ?thesis
      using cv False by (intro exI [of _ cv] exI [of _ av]) simp
  qed
qed

lemma txn_commit_calls:
  assumes "tx_heap c p = Some t" and "\<forall>q \<in> set (participants t). quiet q"
    and "\<forall>q \<in> set (participants t). pstate q = PARTICIPANT_INIT"
    and "txn_commit (Some p) c s = (r, c', s')"
  shows "\<exists>pv cv av. twopc_outcome (map pname (participants t)) pv cv av r \<and>
     calls (trace s') = calls (trace s) @ evs (transaction_id t) Prepare pv
       @ evs (transaction_id t) Commit cv @ evs (transaction_id t) Abort av"
proof -
  obtain ok ps s3 where l:
    "prepare_loop (transaction_id t) (participants t) (prepare_started c t s) = (ok, ps, s3)"
    using prod_cases3 by blast
  define t2 where "t2 = t\<lparr>tstate := TXN_PREPARING, participants := ps\<rparr>"
  from prepare_loop_calls [OF assms(2,3) l] obtain pv where
    pv: "calls (trace s3) = calls (trace s) @ evs (transaction_id t) Prepare pv" "ok = zeros pv"
      "map fst pv = map pname (to_abort ps)" "map pname ps = map pname (participants t)"
      "\<forall>q \<in> set ps. quiet q"
      "if ok then map fst pv = map pname (participants t) \<and> (\<forall>q \<in> set ps. pstate q = PARTICIPANT_PREPARED)
       else zeros (butlast pv) \<and> snd (last pv) \<noteq> 0 \<and> prefix (map fst pv) (map pname (participants t))"
    by auto
  note res = assms(4) [unfolded txn_commit_eq [OF assms(1) l] t2_def [symmetric]]
  show ?thesis
  proof (cases ok)
    case True
    with res have "commit_phase p t2 c s3 = (r, c', s')" by simp
    from commit_phase_calls [OF _ _ this] pv(5,6) True obtain cv av where
      "calls (trace s') = calls (trace s3) @ evs (transaction_id t) Commit cv @ evs (transaction_id t) Abort av"
      "map fst cv = map pname ps" "map fst av = map fst (filter (\<lambda>x. snd x \<noteq> 0) cv)"
      "r = (if zeros cv then 0 else - 1)" by (auto simp: t2_def)
    then show ?thesis
      using pv True
      by (intro exI [of _ pv] exI [of _ cv] exI [of _ av]) (simp add: twopc_outcome_def)
  next
    case False
    with res have "commit_abort_path p t2 c s3 = (r, c', s')" by simp
    from commit_abort_path_calls [OF _ this] pv(5) obtain av where
      "r = - 1" "calls (trace s') = calls (trace s3) @ evs (transaction_id t) Abort av"
      "map fst av = map pname (to_abort ps)" by (auto simp: t2_def)
    then show ?thesis
      using pv False
      by (intro exI [of _ pv] exI [of _ "[]"] exI [of _ av]) (simp add: twopc_outcome_def)
  qed
qed

text \<open>
  C1. \<open>txn_commit\<close> implements two-phase commit: on a transaction as registration leaves it, the
  callbacks it makes are exactly those of the abstract protocol. Every participant is asked to
  prepare, in order, up to the first refusal; the COMMIT callbacks are made only when every answer
  to PREPARE was 0, and to every participant; on a refusal exactly the participants that were asked
  are told to abort; after failed COMMIT callbacks exactly the participants whose COMMIT failed are
  told to abort. It returns 0 iff all answers to PREPARE and to COMMIT were 0, and -1 otherwise.
\<close>

theorem txn_commit_refines_2pc:
  assumes "tx_heap c p = Some t" and "\<forall>q \<in> set (participants t). quiet q"
    and "\<forall>q \<in> set (participants t). pstate q = PARTICIPANT_INIT"
    and "txn_commit (Some p) c s = (r, c', s')"
  shows "\<exists>pv cv av. twopc_outcome (map pname (participants t)) pv cv av r \<and>
     calls (trace s') = calls (trace s) @ evs (transaction_id t) Prepare pv
       @ evs (transaction_id t) Commit cv @ evs (transaction_id t) Abort av"
  using assms by (rule txn_commit_calls)


subsection \<open>The transaction log and the counters\<close>

text \<open>The states a transaction may pass through.\<close>

inductive txn_next :: "txn_state \<Rightarrow> txn_state \<Rightarrow> bool" where
  start_prepare: "txn_next TXN_INIT TXN_PREPARING"
| voted_yes: "txn_next TXN_PREPARING TXN_PREPARED"
| start_commit: "txn_next TXN_PREPARED TXN_COMMITTING"
| done_commit: "txn_next TXN_COMMITTING TXN_COMMITTED"
| voted_no: "txn_next TXN_PREPARING TXN_ABORTING"
| commit_failed: "txn_next TXN_COMMITTING TXN_ABORTING"
| abort_unstarted: "txn_next TXN_INIT TXN_ABORTING"
| done_abort: "txn_next TXN_ABORTING TXN_ABORTED"

inductive_simps txn_next_simps [simp]: "txn_next a b"

fun log_action :: "txn_state \<Rightarrow> string" where
  \<comment> \<open>the action text that \<open>txn_commit\<close> logs with each state\<close>
  "log_action TXN_PREPARING = ''PREPARE_START''"
| "log_action TXN_COMMITTING = ''COMMIT_START''"
| "log_action TXN_ABORTING = ''ABORT_START''"
| "log_action st = txn_state_to_string st"

definition log_entries :: "'s coordinator \<Rightarrow> string \<Rightarrow> txn_state list \<Rightarrow> (string \<times> string \<times> string) list" where
  "log_entries c tid sts =
     (if txn_log c then map (\<lambda>st. (tid, txn_state_to_string st, log_action st)) sts else [])"

lemma started_tlog:
  "tlog (trace (prepare_started c t s)) = tlog (trace s) @ log_entries c (transaction_id t) [TXN_PREPARING]"
  "tlog (trace (commit_started c t s)) = tlog (trace s) @ log_entries c (transaction_id t) [TXN_PREPARED, TXN_COMMITTING]"
  "tlog (trace (abort_started c t s)) = tlog (trace s) @ log_entries c (transaction_id t) [TXN_ABORTING]"
  by (simp_all add: prepare_started_def commit_started_def abort_started_def log_entries_def)

lemma commit_abort_path_records:
  assumes "\<forall>q \<in> set (participants t). quiet q" and "commit_abort_path p t c s = (r, c', s')"
  shows "tlog (trace s') = tlog (trace s) @ log_entries c (transaction_id t) [TXN_ABORTING, TXN_ABORTED]"
    and "g_2pc_committed (metrics s') = g_2pc_committed (metrics s)"
    and "g_2pc_aborted (metrics s') = g_2pc_aborted (metrics s) + 1"
    and "allocs s \<le> allocs s'"
proof -
  obtain ps s3 where l: "abort_loop (transaction_id t) (participants t) (abort_started c t s) = (ps, s3)"
    by fastforce
  note k = abort_loop_records [OF assms(1) l, unfolded same_records_def]
  show "tlog (trace s') = tlog (trace s) @ log_entries c (transaction_id t) [TXN_ABORTING, TXN_ABORTED]"
    using assms(2) k by (auto simp: commit_abort_path_eq [OF l] Let_def started_tlog log_entries_def)
  show "g_2pc_committed (metrics s') = g_2pc_committed (metrics s)"
    using assms(2) k by (auto simp: commit_abort_path_eq [OF l] Let_def metrics_inc_2pc_aborted_def)
  show "g_2pc_aborted (metrics s') = g_2pc_aborted (metrics s) + 1"
    using assms(2) k by (auto simp: commit_abort_path_eq [OF l] Let_def metrics_inc_2pc_aborted_def)
  show "allocs s \<le> allocs s'"
    using assms(2) k by (auto simp: commit_abort_path_eq [OF l] Let_def)
qed

lemma commit_phase_records:
  assumes "\<forall>q \<in> set (participants t). quiet q" and "commit_phase p t c s = (r, c', s')"
  shows "r = 0 \<or> r = - 1"
    and "tlog (trace s') = tlog (trace s) @ log_entries c (transaction_id t)
           ([TXN_PREPARED, TXN_COMMITTING] @ (if r = 0 then [TXN_COMMITTED] else [TXN_ABORTING, TXN_ABORTED]))"
    and "g_2pc_committed (metrics s') = g_2pc_committed (metrics s) + (if r = 0 then 1 else 0)"
    and "g_2pc_aborted (metrics s') = g_2pc_aborted (metrics s) + (if r = 0 then 0 else 1)"
    and "allocs s \<le> allocs s'"
proof -
  obtain ok ps s4 where l:
    "commit_loop (transaction_id t) (participants t) (commit_started c t s) = (ok, ps, s4)"
    using prod_cases3 by blast
  from commit_loop_records [OF assms(1) l] have q: "\<forall>q \<in> set ps. quiet q"
    and k: "same_records (commit_started c t s) s4" by simp_all
  note k = k [unfolded same_records_def]
  define t2 where "t2 = t\<lparr>tstate := TXN_COMMITTING, participants := ps\<rparr>"
  note res = assms(2) [unfolded commit_phase_eq [OF l] t2_def [symmetric]]
  have fin: "r = 0 \<and> (tlog (trace s') = tlog (trace s4) @ log_entries c (transaction_id t) [TXN_COMMITTED]) \<and>
      g_2pc_committed (metrics s') = g_2pc_committed (metrics s4) + 1 \<and>
      g_2pc_aborted (metrics s') = g_2pc_aborted (metrics s4) \<and> allocs s' = allocs s4" if ok
    using res that
    by (auto simp: commit_finish_def Let_def t2_def log_entries_def metrics_inc_2pc_committed_def)
  have ab: "r = - 1 \<and> commit_abort_path p t2 c s4 = (r, c', s')" if "\<not> ok"
    using res that by (auto simp: commit_abort_path_def Let_def split: prod.splits)
  note abr = commit_abort_path_records [of t2 p c s4, OF _ ab [THEN conjunct2]]
  have q2: "\<forall>q \<in> set (participants t2). quiet q" using q by (simp add: t2_def)
  show "r = 0 \<or> r = - 1" using fin ab by blast
  show "tlog (trace s') = tlog (trace s) @ log_entries c (transaction_id t)
     ([TXN_PREPARED, TXN_COMMITTING] @ (if r = 0 then [TXN_COMMITTED] else [TXN_ABORTING, TXN_ABORTED]))"
    using fin ab abr(1) [OF q2] k
    by (cases ok) (auto simp: started_tlog log_entries_def t2_def)
  show "g_2pc_committed (metrics s') = g_2pc_committed (metrics s) + (if r = 0 then 1 else 0)"
    using fin ab abr(2) [OF q2] k by (cases ok) auto
  show "g_2pc_aborted (metrics s') = g_2pc_aborted (metrics s) + (if r = 0 then 0 else 1)"
    using fin ab abr(3) [OF q2] k by (cases ok) auto
  show "allocs s \<le> allocs s'" using fin ab abr(4) [OF q2] k by (cases ok) auto
qed


text \<open>
  C16. The lines that \<open>txn_commit\<close> writes to the transaction log record a path of the transaction
  state machine from \<open>INIT\<close>, ending in \<open>COMMITTED\<close> when it returns 0 and in \<open>ABORTED\<close> otherwise
  (and nothing when the log file did not open); and of the two counters of the metrics exactly
  one is incremented, once, according to the result.
\<close>

theorem txn_commit_log_path:
  assumes "tx_heap c p = Some t" and "\<forall>q \<in> set (participants t). quiet q"
    and "txn_commit (Some p) c s = (r, c', s')"
  shows "(\<exists>sts. tlog (trace s') = tlog (trace s) @ log_entries c (transaction_id t) sts \<and>
            successively txn_next (TXN_INIT # sts) \<and>
            last (TXN_INIT # sts) = (if r = 0 then TXN_COMMITTED else TXN_ABORTED)) \<and>
     (r = 0 \<or> r = - 1) \<and>
     g_2pc_committed (metrics s') = g_2pc_committed (metrics s) + (if r = 0 then 1 else 0) \<and>
     g_2pc_aborted (metrics s') = g_2pc_aborted (metrics s) + (if r = 0 then 0 else 1)"
proof -
  obtain ok ps s3 where l:
    "prepare_loop (transaction_id t) (participants t) (prepare_started c t s) = (ok, ps, s3)"
    using prod_cases3 by blast
  define t2 where "t2 = t\<lparr>tstate := TXN_PREPARING, participants := ps\<rparr>"
  from prepare_loop_records [OF assms(2) l] have q: "\<forall>q \<in> set (participants t2). quiet q"
    and k: "same_records (prepare_started c t s) s3" by (simp_all add: t2_def)
  note k = k [unfolded same_records_def]
  note res = assms(3) [unfolded txn_commit_eq [OF assms(1) l] t2_def [symmetric]]
  define sts where "sts = TXN_PREPARING # (if ok then [TXN_PREPARED, TXN_COMMITTING] else []) @
     (if r = 0 then [TXN_COMMITTED] else [TXN_ABORTING, TXN_ABORTED])"
  have rr: "r = 0 \<or> r = - 1" and nr: "\<not> ok \<Longrightarrow> r = - 1"
    using res commit_phase_records(1) [OF q, of p c s3] commit_abort_path_calls [OF q, of p c s3]
    by (auto split: if_splits)
  have "tlog (trace s') = tlog (trace s) @ log_entries c (transaction_id t) sts"
    using res k nr commit_phase_records(2) [OF q, of p c s3] commit_abort_path_records(1) [OF q, of p c s3]
    by (cases ok) (auto simp: started_tlog log_entries_def sts_def t2_def)
  moreover have "successively txn_next (TXN_INIT # sts)"
    "last (TXN_INIT # sts) = (if r = 0 then TXN_COMMITTED else TXN_ABORTED)"
    using nr by (auto simp: sts_def)
  moreover have "g_2pc_committed (metrics s') = g_2pc_committed (metrics s) + (if r = 0 then 1 else 0)"
    using res k nr commit_phase_records(3) [OF q, of p c s3] commit_abort_path_records(2) [OF q, of p c s3]
    by (cases ok) auto
  moreover have "g_2pc_aborted (metrics s') = g_2pc_aborted (metrics s) + (if r = 0 then 0 else 1)"
    using res k nr commit_phase_records(4) [OF q, of p c s3] commit_abort_path_records(3) [OF q, of p c s3]
    by (cases ok) auto
  ultimately show ?thesis using rr by blast
qed

subsection \<open>The table of active transactions\<close>

definition table_ok :: "'s coordinator \<Rightarrow> bool" where
  "table_ok c \<longleftrightarrow> distinct (active_transactions c) \<and> length (active_transactions c) \<le> MAX_ACTIVE_TRANSACTIONS \<and>
     dom (tx_heap c) = set (active_transactions c) \<and>
     (\<forall>p q t u. tx_heap c p = Some t \<longrightarrow> tx_heap c q = Some u \<longrightarrow> transaction_id t = transaction_id u \<longrightarrow> p = q)"

lemma table_okI:
  assumes "distinct (active_transactions c)" and "length (active_transactions c) \<le> MAX_ACTIVE_TRANSACTIONS"
    and "dom (tx_heap c) = set (active_transactions c)"
    and "\<And>p q t u. tx_heap c p = Some t \<Longrightarrow> tx_heap c q = Some u \<Longrightarrow>
           transaction_id t = transaction_id u \<Longrightarrow> p = q"
  shows "table_ok c"
  using assms unfolding table_ok_def by blast

lemma table_okD:
  assumes "table_ok c"
  shows "distinct (active_transactions c)" "length (active_transactions c) \<le> MAX_ACTIVE_TRANSACTIONS"
    "dom (tx_heap c) = set (active_transactions c)"
  using assms unfolding table_ok_def by simp_all

lemma table_ok_unique:
  "table_ok c \<Longrightarrow> tx_heap c p = Some t \<Longrightarrow> tx_heap c q = Some u \<Longrightarrow>
     transaction_id t = transaction_id u \<Longrightarrow> p = q"
  unfolding table_ok_def by blast

lemma table_ok_dom: "table_ok c \<Longrightarrow> p \<in> set (active_transactions c) \<longleftrightarrow> (\<exists>t. tx_heap c p = Some t)"
  unfolding table_ok_def by (metis domD domI)

lemma has_id_iff: "has_id c tid p \<longleftrightarrow> (\<exists>t. tx_heap c p = Some t \<and> transaction_id t = tid)"
  by (auto simp: has_id_def split: option.splits)

lemma find_transaction_iff:
  assumes "table_ok c"
  shows "find_transaction tid c = Some p \<longleftrightarrow> (\<exists>t. tx_heap c p = Some t \<and> transaction_id t = tid)"
proof
  assume "find_transaction tid c = Some p"
  then show "\<exists>t. tx_heap c p = Some t \<and> transaction_id t = tid"
    by (auto simp: find_transaction_def find_Some_iff has_id_def split: option.splits)
next
  assume a: "\<exists>t. tx_heap c p = Some t \<and> transaction_id t = tid"
  then have h: "has_id c tid p" "p \<in> set (active_transactions c)"
    using table_ok_dom [OF assms] by (auto simp: has_id_iff)
  then obtain q where q: "find (has_id c tid) (active_transactions c) = Some q"
    by (cases "find (has_id c tid) (active_transactions c)") (auto simp: find_None_iff)
  then have "has_id c tid q" by (auto simp: find_Some_iff)
  with a have "q = p" using table_ok_unique [OF assms] by (auto simp: has_id_iff)
  with q show "find_transaction tid c = Some p" by (simp add: find_transaction_def)
qed

lemma find_transaction_None_iff:
  assumes "table_ok c"
  shows "find_transaction tid c = None \<longleftrightarrow> (\<forall>p t. tx_heap c p = Some t \<longrightarrow> transaction_id t \<noteq> tid)"
  using find_transaction_iff [OF assms, of tid] by (metis not_None_eq)

lemma remove_transaction_heap:
  assumes "table_ok c"
  shows "tx_heap (remove_transaction tid c) q =
     (case tx_heap c q of None \<Rightarrow> None | Some t \<Rightarrow> if transaction_id t = tid then None else Some t)"
proof (cases "find_transaction tid c")
  case None
  with assms have "\<forall>p t. tx_heap c p = Some t \<longrightarrow> transaction_id t \<noteq> tid"
    using find_transaction_None_iff by blast
  with None show ?thesis by (auto simp: remove_transaction_def split: option.splits)
next
  case (Some p)
  with assms obtain t where t: "tx_heap c p = Some t" "transaction_id t = tid"
    using find_transaction_iff by blast
  then have "\<forall>q u. tx_heap c q = Some u \<longrightarrow> transaction_id u = tid \<longrightarrow> q = p"
    using table_ok_unique [OF assms] by blast
  then have u: "\<And>u. q \<noteq> p \<Longrightarrow> tx_heap c q = Some u \<Longrightarrow> transaction_id u \<noteq> tid" by blast
  have h: "tx_heap (remove_transaction tid c) = (tx_heap c)(p := None)"
    using Some by (simp add: remove_transaction_def)
  show ?thesis
    using t u by (cases "q = p"; cases "tx_heap c q") (simp_all add: h)
qed

lemma remove_transaction_active:
  assumes "table_ok c"
  shows "set (active_transactions (remove_transaction tid c)) =
     {p \<in> set (active_transactions c). \<not> has_id c tid p}"
    and "distinct (active_transactions (remove_transaction tid c))"
    and "length (active_transactions (remove_transaction tid c)) \<le> length (active_transactions c)"
proof -
  let ?a = "active_transactions c" and ?b = "active_transactions (remove_transaction tid c)"
  have d: "distinct ?a" using assms by (simp add: table_ok_def)
  have "set ?b = {p \<in> set ?a. \<not> has_id c tid p} \<and> distinct ?b \<and> length ?b \<le> length ?a"
  proof (cases "find_transaction tid c")
    case None
    then have "remove_transaction tid c = c" by (simp add: remove_transaction_def)
    moreover have "\<forall>p \<in> set ?a. \<not> has_id c tid p"
      using None by (auto simp: find_transaction_def find_None_iff)
    ultimately show ?thesis using d by auto
  next
    case (Some p)
    from remove_first_find [OF Some [unfolded find_transaction_def]] obtain us vs where
      uv: "?a = us @ p # vs" "remove_first (has_id c tid) ?a = us @ vs" "has_id c tid p" by blast
    have u: "q = p" if "has_id c tid q" for q
      using that uv(3) table_ok_unique [OF assms] unfolding has_id_iff by blast
    have b: "?b = us @ vs" using Some uv(2) by (simp add: remove_transaction_def)
    have "p \<notin> set (us @ vs)" "distinct (us @ vs)" using d uv(1) by simp_all
    then show ?thesis unfolding b uv(1) using uv(3) by (auto dest: u)
  qed
  then show "set ?b = {p \<in> set ?a. \<not> has_id c tid p}" "distinct ?b" "length ?b \<le> length ?a"
    by simp_all
qed

lemma table_ok_remove:
  assumes "table_ok c"
  shows "table_ok (remove_transaction tid c)"
proof (rule table_okI)
  let ?c = "remove_transaction tid c"
  note rs = remove_transaction_heap [OF assms, of tid] and ra = remove_transaction_active [OF assms, of tid]
  show "distinct (active_transactions ?c)" by (rule ra(2))
  show "length (active_transactions ?c) \<le> MAX_ACTIVE_TRANSACTIONS"
    using ra(3) table_okD(2) [OF assms] by simp
  have "p \<in> dom (tx_heap ?c) \<longleftrightarrow> p \<in> set (active_transactions ?c)" for p
    using table_ok_dom [OF assms, of p] by (auto simp: rs ra(1) has_id_iff dom_def split: option.splits)
  then show "dom (tx_heap ?c) = set (active_transactions ?c)" by blast
  fix p q t u
  assume "tx_heap ?c p = Some t" "tx_heap ?c q = Some u" and e: "transaction_id t = transaction_id u"
  then have "tx_heap c p = Some t" "tx_heap c q = Some u"
    by (auto simp: rs split: option.splits if_splits)
  then show "p = q" using table_ok_unique [OF assms] e by blast
qed

lemma table_ok_add:
  assumes "table_ok c" and "find_transaction (transaction_id t) c = None" and "tx_heap c p = None"
    and "length (active_transactions c) < MAX_ACTIVE_TRANSACTIONS"
  shows "table_ok (add_transaction p t c)"
proof (rule table_okI)
  have p: "p \<notin> set (active_transactions c)" using table_ok_dom [OF assms(1), of p] assms(3) by simp
  then show "distinct (active_transactions (add_transaction p t c))"
    using table_okD(1) [OF assms(1)] by (simp add: add_transaction_def)
  show "length (active_transactions (add_transaction p t c)) \<le> MAX_ACTIVE_TRANSACTIONS"
    using assms(4) by (simp add: add_transaction_def)
  show "dom (tx_heap (add_transaction p t c)) = set (active_transactions (add_transaction p t c))"
    using table_okD(3) [OF assms(1)] by (simp add: add_transaction_def)
  fix q q' u v
  assume "tx_heap (add_transaction p t c) q = Some u" "tx_heap (add_transaction p t c) q' = Some v"
    "transaction_id u = transaction_id v"
  moreover have "tx_heap c r = Some w \<Longrightarrow> transaction_id w \<noteq> transaction_id t" for r w
    using assms(2) find_transaction_None_iff [OF assms(1)] by blast
  ultimately show "q = q'"
    using table_ok_unique [OF assms(1)]
    by (cases "q = p"; cases "q' = p") (auto simp: add_transaction_def)
qed

lemma table_ok_put:
  assumes "table_ok c" and "tx_heap c p = Some t" and "transaction_id t' = transaction_id t"
  shows "table_ok (put_txn p t' c)"
proof (rule table_okI)
  show "distinct (active_transactions (put_txn p t' c))"
    "length (active_transactions (put_txn p t' c)) \<le> MAX_ACTIVE_TRANSACTIONS"
    using table_okD(1,2) [OF assms(1)] by (simp_all add: put_txn_def)
  have "p \<in> set (active_transactions c)" using table_ok_dom [OF assms(1)] assms(2) by blast
  then show "dom (tx_heap (put_txn p t' c)) = set (active_transactions (put_txn p t' c))"
    using table_okD(3) [OF assms(1)] by (simp add: put_txn_def insert_absorb)
  fix q q' u v
  assume "tx_heap (put_txn p t' c) q = Some u" "tx_heap (put_txn p t' c) q' = Some v"
    "transaction_id u = transaction_id v"
  then show "q = q'"
    using table_ok_unique [OF assms(1)] assms(2,3)
    by (cases "q = p"; cases "q' = p") (auto simp: put_txn_def)
qed


text \<open>
  The interface the protocol relies on: a table with string keys, what a lookup returns after an
  insertion and after a removal, and that both keep the invariant.
\<close>

locale keyed_table =
  fixes invar :: "'c \<Rightarrow> bool"
    and lookup :: "string \<Rightarrow> 'c \<Rightarrow> nat option"
    and insertable :: "nat \<Rightarrow> 't \<Rightarrow> 'c \<Rightarrow> bool"
    and insert :: "nat \<Rightarrow> 't \<Rightarrow> 'c \<Rightarrow> 'c"
    and remove :: "string \<Rightarrow> 'c \<Rightarrow> 'c"
    and key :: "'t \<Rightarrow> string"
  assumes insertable_new: "insertable p t c \<Longrightarrow> lookup (key t) c = None"
    and invar_insert: "invar c \<Longrightarrow> insertable p t c \<Longrightarrow> invar (insert p t c)"
    and lookup_insert: "invar c \<Longrightarrow> insertable p t c \<Longrightarrow>
          lookup k (insert p t c) = (if k = key t then Some p else lookup k c)"
    and invar_remove: "invar c \<Longrightarrow> invar (remove k c)"
    and lookup_remove: "invar c \<Longrightarrow> lookup k (remove k' c) = (if k = k' then None else lookup k c)"
begin

lemma remove_insert:
  assumes "invar c" and "insertable p t c"
  shows "lookup k (remove (key t) (insert p t c)) = lookup k c"
  using assms lookup_remove [OF invar_insert [OF assms], of k "key t"] insertable_new [OF assms(2)]
  by (simp add: lookup_insert)

lemma remove_absent: "invar c \<Longrightarrow> lookup k' c = None \<Longrightarrow> lookup k (remove k' c) = lookup k c"
  by (simp add: lookup_remove)

lemma remove_commute: "invar c \<Longrightarrow> lookup k (remove a (remove b c)) = lookup k (remove b (remove a c))"
  by (simp add: lookup_remove invar_remove)

end

definition addable :: "nat \<Rightarrow> 's transaction \<Rightarrow> 's coordinator \<Rightarrow> bool" where
  "addable p t c \<longleftrightarrow> find_transaction (transaction_id t) c = None \<and> tx_heap c p = None \<and>
     length (active_transactions c) < MAX_ACTIVE_TRANSACTIONS"

lemma find_transaction_add:
  assumes "table_ok c" and "addable p t c"
  shows "find_transaction k (add_transaction p t c) =
     (if k = transaction_id t then Some p else find_transaction k c)"
proof -
  have ok: "table_ok (add_transaction p t c)"
    using assms by (intro table_ok_add) (simp_all add: addable_def)
  show ?thesis
  proof (rule option_eqI)
    fix q
    have "tx_heap c q = Some u \<Longrightarrow> transaction_id u \<noteq> transaction_id t" for u
      using assms(2) find_transaction_None_iff [OF assms(1)] unfolding addable_def by blast
    then show "find_transaction k (add_transaction p t c) = Some q \<longleftrightarrow>
        (if k = transaction_id t then Some p else find_transaction k c) = Some q"
      using assms(2) unfolding find_transaction_iff [OF ok]
      by (cases "q = p") (auto simp: find_transaction_iff [OF assms(1)] add_transaction_def addable_def)
  qed
qed

lemma find_transaction_remove:
  assumes "table_ok c"
  shows "find_transaction k (remove_transaction k' c) = (if k = k' then None else find_transaction k c)"
proof -
  show ?thesis
  proof (rule option_eqI)
    fix q
    show "find_transaction k (remove_transaction k' c) = Some q \<longleftrightarrow>
        (if k = k' then None else find_transaction k c) = Some q"
      unfolding find_transaction_iff [OF table_ok_remove [OF assms]]
      by (cases "tx_heap c q")
         (auto simp: remove_transaction_heap [OF assms] find_transaction_iff [OF assms])
  qed
qed

interpretation txns: keyed_table table_ok find_transaction addable add_transaction
  remove_transaction transaction_id
proof unfold_locales
  fix c :: "'a coordinator" and p :: nat and t :: "'a transaction" and k k' :: string
  show "addable p t c \<Longrightarrow> find_transaction (transaction_id t) c = None" by (simp add: addable_def)
  show "table_ok c \<Longrightarrow> addable p t c \<Longrightarrow> table_ok (add_transaction p t c)"
    by (simp add: addable_def table_ok_add)
  show "table_ok c \<Longrightarrow> addable p t c \<Longrightarrow> find_transaction k (add_transaction p t c) =
      (if k = transaction_id t then Some p else find_transaction k c)"
    by (rule find_transaction_add)
  show "table_ok c \<Longrightarrow> table_ok (remove_transaction k c)" by (rule table_ok_remove)
  show "table_ok c \<Longrightarrow> find_transaction k (remove_transaction k' c) =
      (if k = k' then None else find_transaction k c)"
    by (rule find_transaction_remove)
qed

lemma put_txn_find:
  assumes "table_ok c" and "tx_heap c p = Some t" and "transaction_id t' = transaction_id t"
  shows "find_transaction k (put_txn p t' c) = find_transaction k c"
proof -
  show ?thesis
  proof (rule option_eqI)
    fix q
    show "find_transaction k (put_txn p t' c) = Some q \<longleftrightarrow> find_transaction k c = Some q"
      using assms(2,3)
      unfolding find_transaction_iff [OF table_ok_put [OF assms]] find_transaction_iff [OF assms(1)]
      by (cases "q = p") (simp_all add: put_txn_def)
  qed
qed

definition retired :: "nat \<Rightarrow> 's transaction \<Rightarrow> 's coordinator \<Rightarrow> 's coordinator \<Rightarrow> bool" where
  \<comment> \<open>\<open>c'\<close> is \<open>c\<close> after the transaction \<open>t\<close> at \<open>p\<close> was updated, removed from the table and freed\<close>
  "retired p t c c' \<longleftrightarrow>
     (\<exists>t'. transaction_id t' = transaction_id t \<and> c' = remove_transaction (transaction_id t) (put_txn p t' c))"

lemma retiredI:
  "transaction_id t' = tid \<Longrightarrow> transaction_id t = tid \<Longrightarrow>
     retired p t c (remove_transaction tid (put_txn p t' c))"
  unfolding retired_def by (intro exI [of _ t'] conjI) simp_all

lemma commit_abort_path_retired:
  assumes "commit_abort_path p t c s = (r, c', s')"
  shows "retired p t c c'"
proof -
  obtain ps s3 where l: "abort_loop (transaction_id t) (participants t) (abort_started c t s) = (ps, s3)"
    by fastforce
  have "c' = remove_transaction (transaction_id t) (put_txn p (t\<lparr>participants := ps, tstate := TXN_ABORTED\<rparr>) c)"
    using assms by (simp add: commit_abort_path_eq [OF l] Let_def)
  then show ?thesis by (simp add: retiredI)
qed

lemma commit_finish_retired: "commit_finish p t c s = (r, c', s') \<Longrightarrow> retired p t c c'"
  by (auto simp: commit_finish_def Let_def intro!: retiredI)

lemma retired_cong: "transaction_id u = transaction_id t \<Longrightarrow> retired p u c c' = retired p t c c'"
  by (simp add: retired_def)

lemma commit_phase_retired:
  assumes "commit_phase p t c s = (r, c', s')"
  shows "retired p t c c'"
proof -
  obtain ok ps s4 where l:
    "commit_loop (transaction_id t) (participants t) (commit_started c t s) = (ok, ps, s4)"
    using prod_cases3 by blast
  let ?u = "t\<lparr>tstate := TXN_COMMITTING, participants := ps\<rparr>"
  have "retired p ?u c c'"
    using assms [unfolded commit_phase_eq [OF l]]
    by (cases ok) (auto dest: commit_abort_path_retired commit_finish_retired)
  then show ?thesis using retired_cong [of ?u t] by simp
qed

lemma txn_commit_retired:
  assumes "tx_heap c p = Some t" and "txn_commit (Some p) c s = (r, c', s')"
  shows "retired p t c c'"
proof -
  obtain ok ps s3 where l:
    "prepare_loop (transaction_id t) (participants t) (prepare_started c t s) = (ok, ps, s3)"
    using prod_cases3 by blast
  let ?u = "t\<lparr>tstate := TXN_PREPARING, participants := ps\<rparr>"
  have "retired p ?u c c'"
    using assms(2) [unfolded txn_commit_eq [OF assms(1) l]]
    by (cases ok) (auto dest: commit_abort_path_retired commit_phase_retired)
  then show ?thesis using retired_cong [of ?u t] by simp
qed

lemma txn_abort_retired:
  assumes "tx_heap c p = Some t" and "txn_abort (Some p) c s = (c', s')"
  shows "retired p t c c'"
  using assms by (auto simp: txn_abort_def Let_def split: prod.splits intro!: retiredI)

lemma retired_table:
  assumes "table_ok c" and "tx_heap c p = Some t" and "retired p t c c'"
  shows "table_ok c'" and "tx_heap c' p = None" and "q \<noteq> p \<Longrightarrow> tx_heap c' q = tx_heap c q"
    and "find_transaction k c' = (if k = transaction_id t then None else find_transaction k c)"
proof -
  obtain t' where t': "transaction_id t' = transaction_id t"
    "c' = remove_transaction (transaction_id t) (put_txn p t' c)"
    using assms(3) unfolding retired_def by blast
  note ok = table_ok_put [OF assms(1,2) t'(1)]
  show "table_ok c'" using txns.invar_remove [OF ok] t'(2) by simp
  show "tx_heap c' p = None"
    using t' by (simp add: remove_transaction_heap [OF ok]) (simp add: put_txn_def)
  show "tx_heap c' q = tx_heap c q" if "q \<noteq> p"
  proof (cases "tx_heap c q")
    case None
    with that t'(2) show ?thesis by (simp add: remove_transaction_heap [OF ok]) (simp add: put_txn_def)
  next
    case (Some u)
    with that have "transaction_id u \<noteq> transaction_id t"
      using table_ok_unique [OF assms(1) Some assms(2)] by blast
    with that Some t'(2) show ?thesis
      by (simp add: remove_transaction_heap [OF ok]) (simp add: put_txn_def)
  qed
  show "find_transaction k c' = (if k = transaction_id t then None else find_transaction k c)"
    using t' txns.lookup_remove [OF ok] put_txn_find [OF assms(1,2) t'(1)] by simp
qed

text \<open>
  C17. Committing and explicitly aborting both retire the transaction: the table invariant (distinct
  live entries, distinct identifiers, at most 1024) is kept, the transaction's memory is freed and
  its identifier is no longer found, every other transaction is untouched and still found.
\<close>

theorem txn_commit_abort_retire:
  assumes "table_ok c" and "tx_heap c p = Some t"
    and "txn_commit (Some p) c s = (r, c', s') \<or> txn_abort (Some p) c s = (c', s')"
  shows "table_ok c' \<and> tx_heap c' p = None \<and> (\<forall>q. q \<noteq> p \<longrightarrow> tx_heap c' q = tx_heap c q) \<and>
     (\<forall>k. txn_get_by_id (Some k) c' =
        (if k = transaction_id t then None else txn_get_by_id (Some k) c))"
proof -
  have "retired p t c c'"
    using assms(2,3) txn_commit_retired txn_abort_retired by blast
  then show ?thesis
    using retired_table [OF assms(1,2)] by (simp add: txn_get_by_id_def)
qed

definition fresh_ok :: "'s coordinator \<Rightarrow> 'a sys_scheme \<Rightarrow> bool" where
  \<comment> \<open>the addresses in use were handed out by earlier allocations\<close>
  "fresh_ok c s \<longleftrightarrow> (\<forall>p \<in> dom (tx_heap c). p < allocs s)"

text \<open>
  \<open>txn_begin\<close> with an identifier that fits the transaction record (at most 63 characters)
  fails, without changing the table, exactly when the identifier is in use, the table holds 1024
  transactions or memory is exhausted. Otherwise the new transaction is in state \<open>INIT\<close> with no
  participants and with the configured timeouts counted from its start; it is found under its
  identifier, every other lookup is unchanged, and the table invariant is kept.
\<close>

theorem txn_begin_table:
  assumes "table_ok c" and "fresh_ok c s" and "length tid < MAX_TRANSACTION_ID_LEN"
    and "txn_begin (Some tid) c s = (res, c', s')"
  shows "case res of
       None \<Rightarrow> c' = c \<and> (txn_get_by_id (Some tid) c \<noteq> None
                  \<or> length (active_transactions c) = MAX_ACTIVE_TRANSACTIONS \<or> \<not> alloc_src s (allocs s))
     | Some p \<Rightarrow> txn_get_by_id (Some tid) c = None \<and> table_ok c' \<and> fresh_ok c' s' \<and>
         (\<forall>k. txn_get_by_id (Some k) c' = (if k = tid then Some p else txn_get_by_id (Some k) c)) \<and>
         (\<exists>t. tx_heap c' p = Some t \<and> transaction_id t = tid \<and> tstate t = TXN_INIT \<and> participants t = [] \<and>
              prepare_timeout t = start_time t + prepare_timeout_seconds c \<and>
              commit_timeout t = start_time t + commit_timeout_seconds c)"
proof (cases "find_transaction tid c \<noteq> None \<or> length (active_transactions c) \<ge> MAX_ACTIVE_TRANSACTIONS
     \<or> \<not> alloc_src s (allocs s)")
  case True
  with assms(4) have "res = None \<and> c' = c"
    by (auto simp: txn_begin_def malloc_def split: if_splits)
  with True show ?thesis using table_okD(2) [OF assms(1)] by (auto simp: txn_get_by_id_def)
next
  case False
  let ?p = "allocs s"
  let ?now = "time_src s (time_calls s)"
  define t :: "'a sys_scheme transaction" where
    "t = \<lparr>transaction_id = tid, tstate = TXN_INIT, participants = [], start_time = ?now,
          prepare_timeout = ?now + prepare_timeout_seconds c,
          commit_timeout = ?now + commit_timeout_seconds c\<rparr>"
  have res: "res = Some ?p" "c' = add_transaction ?p t c" "allocs s' = Suc ?p"
    using False assms(4)
    by (auto simp: txn_begin_def malloc_def time_null_def Let_def clip_id [OF assms(3)] t_def)
  have t: "transaction_id t = tid" by (simp add: t_def)
  have ad: "addable ?p t c"
    using False assms(2) t unfolding addable_def fresh_ok_def by (auto simp: domIff)
  have "fresh_ok c' s'"
    using assms(2) res unfolding fresh_ok_def by (auto simp: add_transaction_def less_Suc_eq domI)
  then show ?thesis
    using res t ad txns.invar_insert [OF assms(1) ad] txns.lookup_insert [OF assms(1) ad] False
    by (simp add: txn_get_by_id_def) (simp add: add_transaction_def t_def)
qed

subsection \<open>What the coordinator relies on in its participants\<close>

text \<open>
  The contract of the participants of a transaction: \<open>holds x tid s\<close> says that the participant
  with context \<open>x\<close> keeps something prepared for the transaction \<open>tid\<close>. A successful COMMIT and any
  ABORT give it up, a callback leaves the other participants alone, and neither depends on the
  trace, the clock or the counters. Under this contract no participant is left with something
  prepared when \<open>txn_commit\<close> returns, whatever it returns.
\<close>

locale twopc_participants =
  fixes holds :: "nat \<Rightarrow> string \<Rightarrow> 'a sys_scheme \<Rightarrow> bool"
    and good :: "'a sys_scheme participant \<Rightarrow> bool"
    and inv :: "'a sys_scheme \<Rightarrow> bool"
  assumes good_state: "good p \<Longrightarrow> good (p\<lparr>pstate := st\<rparr>)"
    and holds_trace: "holds x tid (s\<lparr>trace := es\<rparr>) = holds x tid s"
    and holds_time: "holds x tid (s\<lparr>time_calls := n\<rparr>) = holds x tid s"
    and holds_metrics: "holds x tid (s\<lparr>metrics := m\<rparr>) = holds x tid s"
    and inv_trace: "inv (s\<lparr>trace := es\<rparr>) = inv s"
    and inv_time: "inv (s\<lparr>time_calls := n\<rparr>) = inv s"
    and inv_callback: "good p \<Longrightarrow> inv s \<Longrightarrow> f \<in> {prepare_fn p, commit_fn p, abort_fn p} \<Longrightarrow>
          inv (snd (f (pcontext p) tid s))"
    and others: "good p \<Longrightarrow> inv s \<Longrightarrow> f \<in> {prepare_fn p, commit_fn p, abort_fn p} \<Longrightarrow>
          x \<noteq> pcontext p \<Longrightarrow> holds x tid' (snd (f (pcontext p) tid s)) = holds x tid' s"
    and commit_releases: "good p \<Longrightarrow> inv s \<Longrightarrow> tid \<noteq> [] \<Longrightarrow> fst (commit_fn p (pcontext p) tid s) = 0 \<Longrightarrow>
          \<not> holds (pcontext p) tid (snd (commit_fn p (pcontext p) tid s))"
    and abort_releases: "good p \<Longrightarrow> inv s \<Longrightarrow> tid \<noteq> [] \<Longrightarrow>
          \<not> holds (pcontext p) tid (snd (abort_fn p (pcontext p) tid s))"
begin

lemma neutral:
  "holds x tid (emit e s) = holds x tid s" "inv (emit e s) = inv s"
  "holds x tid (logj l ev r m s) = holds x tid s" "inv (logj l ev r m s) = inv s"
  "holds x tid (log_transaction_state c t a s) = holds x tid s"
  "inv (log_transaction_state c t a s) = inv s"
  "holds x tid (with_metrics g s) = holds x tid s"
  "holds x tid (read_freed p c s) = holds x tid s"
  "holds x tid (prepare_started c t s) = holds x tid s" "inv (prepare_started c t s) = inv s"
  "holds x tid (commit_started c t s) = holds x tid s" "inv (commit_started c t s) = inv s"
  "holds x tid (abort_started c t s) = holds x tid s" "inv (abort_started c t s) = inv s"
  by (simp_all add: emit_def logj_def log_transaction_state_def with_metrics_def read_freed_def
      time_null_def prepare_started_def commit_started_def abort_started_def
      holds_trace holds_time holds_metrics inv_trace inv_time)

lemma call_cb_snd: "\<exists>f \<in> {prepare_fn p, commit_fn p, abort_fn p}.
    snd (call_cb k p tid s) = emit (Call (pname p) tid k (fst (call_cb k p tid s))) (snd (f (pcontext p) tid s))"
  by (cases k) (auto simp: call_cb_def split: prod.splits)

lemma call_cb_contract:
  assumes "good p" and "inv s"
  shows "inv (snd (call_cb k p tid s))"
    and "x \<noteq> pcontext p \<Longrightarrow> holds x tid' (snd (call_cb k p tid s)) = holds x tid' s"
  using call_cb_snd [of p k tid s] inv_callback [OF assms] others [OF assms]
  by (auto simp: neutral)

definition confined :: "nat set \<Rightarrow> 'a sys_scheme \<Rightarrow> 'a sys_scheme \<Rightarrow> bool" where
  "confined C s s' \<longleftrightarrow> inv s \<longrightarrow> inv s' \<and> (\<forall>x tid. x \<notin> C \<longrightarrow> holds x tid s' = holds x tid s)"

lemma confined_rules:
  "confined C s s"
  "confined C s t \<Longrightarrow> confined C t u \<Longrightarrow> confined C s u"
  "confined C s (logj l e r m s)"
  "good p \<and> pcontext p \<in> C \<Longrightarrow> confined C s (snd (call_cb k p tid s))"
  "good p \<and> pcontext p \<in> C \<Longrightarrow> good (p\<lparr>pstate := st\<rparr>) \<and> pcontext (p\<lparr>pstate := st\<rparr>) \<in> C"
proof -
  show "confined C s (snd (call_cb k p tid s))" if "good p \<and> pcontext p \<in> C"
    unfolding confined_def using that call_cb_contract [of p s] by metis
qed (auto simp: confined_def neutral good_state)

lemma prepare_loop_confined:
  assumes "\<forall>p \<in> set ps. good p" and "prepare_loop tid ps s = (ok, ps', s')"
  shows "confined (pcontext ` set ps) s s' \<and> (\<forall>p \<in> set ps'. good p)"
proof -
  let ?G = "\<lambda>p. good p \<and> pcontext p \<in> pcontext ` set ps"
  have g: "\<forall>p \<in> set ps. ?G p" using assms(1) by blast
  have "confined (pcontext ` set ps) s s' \<and> (\<forall>p \<in> set ps'. ?G p)"
    by (rule prepare_loop_preserves [where G = ?G, OF _ _ _ _ _ g assms(2)]) (fact confined_rules)+
  then show ?thesis by blast
qed

lemma commit_loop_confined:
  assumes "\<forall>p \<in> set ps. good p" and "commit_loop tid ps s = (ok, ps', s')"
  shows "confined (pcontext ` set ps) s s' \<and> (\<forall>p \<in> set ps'. good p)"
proof -
  let ?G = "\<lambda>p. good p \<and> pcontext p \<in> pcontext ` set ps"
  have g: "\<forall>p \<in> set ps. ?G p" using assms(1) by blast
  have "confined (pcontext ` set ps) s s' \<and> (\<forall>p \<in> set ps'. ?G p)"
    by (rule commit_loop_preserves [where G = ?G, OF _ _ _ _ _ g assms(2)]) (fact confined_rules)+
  then show ?thesis by blast
qed

lemma abort_loop_confined:
  assumes "\<forall>p \<in> set ps. good p" and "abort_loop tid ps s = (ps', s')"
  shows "confined (pcontext ` set ps) s s'"
proof -
  let ?G = "\<lambda>p. good p \<and> pcontext p \<in> pcontext ` set ps"
  have g: "\<forall>p \<in> set ps. ?G p" using assms(1) by blast
  show ?thesis
    by (rule abort_loop_preserves [where G = ?G, OF _ _ _ _ g assms(2)]) (fact confined_rules)+
qed

definition pending :: "'a sys_scheme participant \<Rightarrow> bool" where
  "pending p \<longleftrightarrow> pstate p = PARTICIPANT_PREPARED \<or> pstate p = PARTICIPANT_FAILED"

definition settled :: "string \<Rightarrow> 'a sys_scheme participant list \<Rightarrow> 'a sys_scheme \<Rightarrow> bool" where
  \<comment> \<open>whoever is not marked as prepared or failed holds nothing\<close>
  "settled tid ps s \<longleftrightarrow> (\<forall>p \<in> set ps. \<not> pending p \<longrightarrow> \<not> holds (pcontext p) tid s)"

lemma confined_inv: "confined C s s' \<Longrightarrow> inv s \<Longrightarrow> inv s'"
  by (simp add: confined_def)

lemma confined_holds: "confined C s s' \<Longrightarrow> inv s \<Longrightarrow> x \<notin> C \<Longrightarrow> holds x tid s' = holds x tid s"
  by (simp add: confined_def)

lemma settled_other:
  assumes "settled tid ps s" and "good p" and "inv s" and "pcontext p \<notin> pcontext ` set ps"
  shows "settled tid ps (snd (call_cb k p tid s))"
proof -
  have "holds (pcontext q) tid (snd (call_cb k p tid s)) = holds (pcontext q) tid s" if "q \<in> set ps" for q
    using that assms(4) by (intro call_cb_contract(2) [OF assms(2,3)]) (metis image_eqI)
  then show ?thesis using assms(1) by (simp add: settled_def)
qed

lemma settled_log: "settled tid ps (logj l e r m s) = settled tid ps s"
  by (simp add: settled_def neutral)

lemma prepare_loop_settled:
  assumes "\<forall>p \<in> set ps. good p" and "distinct (map pcontext ps)" and "inv s" and "settled tid ps s"
    and "prepare_loop tid ps s = (ok, ps', s')"
  shows "settled tid ps' s' \<and> map pcontext ps' = map pcontext ps"
  using assms
proof (induction ps arbitrary: s ok ps' s')
  case Nil
  then show ?case by simp
next
  case (Cons p ps)
  define s0 where "s0 = clog ''INFO'' (Some tid) ''Preparing participant'' s"
  obtain r s1 where c: "call_cb Prepare p tid s0 = (r, s1)" by fastforce
  have i0: "inv s0" and g: "good p" and st0: "settled tid ps s0"
    using Cons.prems by (simp_all add: s0_def neutral) (simp add: settled_def neutral)
  have i1: "inv s1" using call_cb_contract(1) [OF g i0, of Prepare tid] c by simp
  have st1: "settled tid ps s1"
    using settled_other [OF st0 g i0, of Prepare] c Cons.prems(2) by simp
  show ?case
  proof (cases "r = 0")
    case False
    then have "ps' = p\<lparr>pstate := PARTICIPANT_FAILED\<rparr> # ps"
      "s' = clog ''ERROR'' (Some tid) ''Participant prepare failed'' s1"
      using Cons.prems(5) c by (simp_all add: s0_def [symmetric])
    with st1 show ?thesis by (simp add: settled_def pending_def neutral)
  next
    case True
    define s2 where "s2 = clog ''INFO'' (Some tid) ''Participant prepared'' s1"
    obtain ok1 ps1 s3 where rec: "prepare_loop tid ps s2 = (ok1, ps1, s3)" using prod_cases3 by blast
    have "settled tid ps1 s3 \<and> map pcontext ps1 = map pcontext ps"
      using Cons.IH [OF _ _ _ _ rec] Cons.prems(1,2) i1 st1 by (simp add: s2_def neutral settled_log)
    moreover have "ps' = p\<lparr>pstate := PARTICIPANT_PREPARED\<rparr> # ps1" "s' = s3"
      using Cons.prems(5) c True rec by (simp_all add: s0_def [symmetric] s2_def)
    ultimately show ?thesis by (simp add: settled_def pending_def)
  qed
qed

lemma commit_loop_settled:
  assumes "\<forall>p \<in> set ps. good p" and "distinct (map pcontext ps)" and "inv s" and "settled tid ps s"
    and "tid \<noteq> []" and "commit_loop tid ps s = (ok, ps', s')"
  shows "settled tid ps' s' \<and> map pcontext ps' = map pcontext ps \<and>
     (ok \<longrightarrow> (\<forall>p \<in> set ps. pstate p \<noteq> PARTICIPANT_FAILED) \<longrightarrow> (\<forall>p \<in> set ps'. \<not> pending p))"
  using assms
proof (induction ps arbitrary: s ok ps' s')
  case Nil
  then show ?case by simp
next
  case (Cons p ps)
  have g: "good p" and i: "inv s" and st: "settled tid ps s" and nc: "pcontext p \<notin> pcontext ` set ps"
    using Cons.prems by (simp_all add: settled_def)
  show ?case
  proof (cases "pstate p = PARTICIPANT_PREPARED")
    case True
    obtain r s1 where c: "call_cb Commit p tid s = (r, s1)" by fastforce
    define st' where "st' = (if r = 0 then PARTICIPANT_COMMITTED else PARTICIPANT_FAILED)"
    define s2 where "s2 = (if r = 0 then clog ''INFO'' (Some tid) ''Participant committed'' s1
       else clog ''ERROR'' (Some tid) ''Participant commit failed'' s1)"
    obtain ok1 ps1 s3 where rec: "commit_loop tid ps s2 = (ok1, ps1, s3)" using prod_cases3 by blast
    have i2: "inv s2" and st2: "settled tid ps s2"
      using call_cb_contract(1) [OF g i, of Commit tid] settled_other [OF st g i nc, of Commit] c
      by (simp_all add: s2_def neutral settled_log)
    have h2: "r = 0 \<Longrightarrow> \<not> holds (pcontext p) tid s2"
      using commit_releases [OF g i Cons.prems(5)] c
      by (auto simp: s2_def neutral call_cb_def split: prod.splits)
    have "holds (pcontext p) tid s3 = holds (pcontext p) tid s2"
      using commit_loop_confined [OF _ rec] Cons.prems(1) i2 nc
      by (intro confined_holds [of "pcontext ` set ps"]) auto
    moreover have "ps' = p\<lparr>pstate := st'\<rparr> # ps1" "s' = s3" "ok = (r = 0 \<and> ok1)"
      using Cons.prems(6) c rec True by (auto simp: s2_def st'_def split: if_splits)
    ultimately show ?thesis
      using Cons.IH [OF _ _ i2 st2 Cons.prems(5) rec] Cons.prems(1,2) h2
      by (auto simp: settled_def pending_def st'_def)
  next
    case False
    obtain ok1 ps1 s3 where rec: "commit_loop tid ps s = (ok1, ps1, s3)" using prod_cases3 by blast
    have "holds (pcontext p) tid s3 = holds (pcontext p) tid s"
      using commit_loop_confined [OF _ rec] Cons.prems(1) i nc
      by (intro confined_holds [of "pcontext ` set ps"]) auto
    moreover have "ps' = p # ps1" "s' = s3" "ok = ok1" using Cons.prems(6) rec False by simp_all
    ultimately show ?thesis
      using Cons.IH [OF _ _ i st Cons.prems(5) rec] Cons.prems(1,2,4) False
      by (auto simp: settled_def pending_def)
  qed
qed

lemma abort_loop_settled:
  assumes "\<forall>p \<in> set ps. good p" and "distinct (map pcontext ps)" and "inv s" and "settled tid ps s"
    and "tid \<noteq> []" and "abort_loop tid ps s = (ps', s')"
  shows "\<forall>p \<in> set ps. \<not> holds (pcontext p) tid s'"
  using assms
proof (induction ps arbitrary: s ps' s')
  case Nil
  then show ?case by simp
next
  case (Cons p ps)
  have g: "good p" and i: "inv s" and st: "settled tid ps s" and nc: "pcontext p \<notin> pcontext ` set ps"
    using Cons.prems by (simp_all add: settled_def)
  obtain r s1 where c: "call_cb Abort p tid s = (r, s1)" by fastforce
  define s2 where "s2 = (if pending p then clog ''INFO'' (Some tid) ''Participant aborted'' s1 else s)"
  obtain ps1 s3 where rec: "abort_loop tid ps s2 = (ps1, s3)" by fastforce
  have s': "s' = s3" using Cons.prems(6) c rec by (auto simp: s2_def pending_def split: if_splits)
  have i2: "inv s2" and st2: "settled tid ps s2"
    using call_cb_contract(1) [OF g i, of Abort tid] settled_other [OF st g i nc, of Abort] c i st
    by (simp_all add: s2_def neutral settled_log)
  have "\<not> holds (pcontext p) tid s2"
    using abort_releases [OF g i Cons.prems(5)] c Cons.prems(4)
    by (auto simp: s2_def neutral call_cb_def settled_def split: prod.splits)
  moreover have "holds (pcontext p) tid s3 = holds (pcontext p) tid s2"
    using abort_loop_confined [OF _ rec] Cons.prems(1) i2 nc
    by (intro confined_holds [of "pcontext ` set ps"]) auto
  ultimately show ?case
    using Cons.IH [OF _ _ i2 st2 Cons.prems(5) rec] Cons.prems(1,2) s' by simp
qed

lemma abort_path_releases:
  assumes "\<forall>q \<in> set (participants t). good q" and "distinct (map pcontext (participants t))" and "inv s"
    and "settled (transaction_id t) (participants t) s" and "transaction_id t \<noteq> []"
    and "commit_abort_path p t c s = (r, c', s')"
  shows "\<forall>q \<in> set (participants t). \<not> holds (pcontext q) (transaction_id t) s'"
proof -
  obtain ps s3 where l: "abort_loop (transaction_id t) (participants t) (abort_started c t s) = (ps, s3)"
    by fastforce
  have "inv (abort_started c t s)" "settled (transaction_id t) (participants t) (abort_started c t s)"
    using assms(3,4) by (simp_all add: neutral settled_def)
  from abort_loop_settled [OF assms(1,2) this assms(5) l]
  have h: "\<forall>q \<in> set (participants t). \<not> holds (pcontext q) (transaction_id t) s3" .
  show ?thesis using h assms(6) by (auto simp: commit_abort_path_eq [OF l] Let_def neutral)
qed

lemma commit_phase_releases:
  assumes "\<forall>q \<in> set (participants t). good q" and "distinct (map pcontext (participants t))" and "inv s"
    and "\<forall>q \<in> set (participants t). pstate q = PARTICIPANT_PREPARED" and "transaction_id t \<noteq> []"
    and "commit_phase p t c s = (r, c', s')"
  shows "\<forall>q \<in> set (participants t). \<not> holds (pcontext q) (transaction_id t) s'"
proof -
  let ?tid = "transaction_id t"
  obtain ok ps s4 where l: "commit_loop ?tid (participants t) (commit_started c t s) = (ok, ps, s4)"
    using prod_cases3 by blast
  have i: "inv (commit_started c t s)" and st: "settled ?tid (participants t) (commit_started c t s)"
    using assms(3,4) by (simp_all add: neutral settled_def pending_def)
  from commit_loop_settled [OF assms(1,2) i st assms(5) l] assms(4)
  have st4: "settled ?tid ps s4" and cx: "map pcontext ps = map pcontext (participants t)"
    and np: "ok \<Longrightarrow> \<forall>q \<in> set ps. \<not> pending q" by auto
  have g4: "\<forall>q \<in> set ps. good q" and i4: "inv s4"
    using commit_loop_confined [OF assms(1) l] i confined_inv by blast+
  have "\<forall>q \<in> set ps. \<not> holds (pcontext q) ?tid s'"
  proof (cases ok)
    case True
    then have "holds x ?tid s' = holds x ?tid s4" for x
      using assms(6) by (auto simp: commit_phase_eq [OF l] commit_finish_def Let_def neutral)
    with st4 np [OF True] show ?thesis by (simp add: settled_def)
  next
    case False
    then have "commit_abort_path p (t\<lparr>tstate := TXN_COMMITTING, participants := ps\<rparr>) c s4 = (r, c', s')"
      using assms(6) by (simp add: commit_phase_eq [OF l])
    from abort_path_releases [OF _ _ i4 _ _ this] show ?thesis
      using g4 st4 assms(2,5) cx by simp
  qed
  then show ?thesis by (rule map_eq_Ball [OF cx])
qed

lemma commit_releases_all:
  assumes "tx_heap c p = Some t" and "\<forall>q \<in> set (participants t). good q"
    and "distinct (map pcontext (participants t))" and "inv s" and "transaction_id t \<noteq> []"
    and "\<forall>q \<in> set (participants t). pstate q = PARTICIPANT_INIT \<and> \<not> holds (pcontext q) (transaction_id t) s"
    and "txn_commit (Some p) c s = (r, c', s')"
    and q: "q \<in> set (participants t)" and qq: "\<forall>q \<in> set (participants t). quiet q"
  shows "\<not> holds (pcontext q) (transaction_id t) s'"
proof -
  let ?tid = "transaction_id t"
  obtain ok ps s3 where l: "prepare_loop ?tid (participants t) (prepare_started c t s) = (ok, ps, s3)"
    using prod_cases3 by blast
  have i: "inv (prepare_started c t s)" and st: "settled ?tid (participants t) (prepare_started c t s)"
    using assms(4,6) by (auto simp: neutral settled_def)
  from prepare_loop_settled [OF assms(2,3) i st l]
  have st3: "settled ?tid ps s3" and cx: "map pcontext ps = map pcontext (participants t)" by simp_all
  have g3: "\<forall>q \<in> set ps. good q" and i3: "inv s3"
    using prepare_loop_confined [OF assms(2) l] i confined_inv by blast+
  have p3: "ok \<Longrightarrow> \<forall>q \<in> set ps. pstate q = PARTICIPANT_PREPARED"
    using prepare_loop_calls [OF qq _ l] assms(6) by auto
  let ?t = "t\<lparr>tstate := TXN_PREPARING, participants := ps\<rparr>"
  have "\<forall>q \<in> set (participants ?t). \<not> holds (pcontext q) (transaction_id ?t) s'"
  proof (cases ok)
    case True
    then have "commit_phase p ?t c s3 = (r, c', s')" using assms(7) by (simp add: txn_commit_eq [OF assms(1) l])
    from commit_phase_releases [OF _ _ i3 _ _ this] g3 p3 [OF True] assms(3,5) cx show ?thesis by simp
  next
    case False
    then have "commit_abort_path p ?t c s3 = (r, c', s')" using assms(7) by (simp add: txn_commit_eq [OF assms(1) l])
    from abort_path_releases [OF _ _ i3 _ _ this] g3 st3 assms(3,5) cx show ?thesis by simp
  qed
  then have "\<forall>q \<in> set ps. \<not> holds (pcontext q) ?tid s'" by simp
  then show ?thesis using map_eq_Ball [OF cx, of "\<lambda>x. \<not> holds x ?tid s'"] q by blast
qed

end

text \<open>
  C40. The abort path of \<open>txn_commit\<close> reads freed memory: whenever it does not return 0, its last log
  call passes \<open>txn_id\<close>, a pointer into the transaction that \<open>remove_transaction\<close> has just freed.
\<close>

theorem txn_commit_abort_use_after_free:
  assumes "table_ok c" and "tx_heap c p = Some t" and "txn_commit (Some p) c s = (r, c', s')" and "r \<noteq> 0"
  shows "Fault ''Transaction'' p \<in> set (trace s') \<and> tx_heap c' p = None"
proof -
  have freed: "tx_heap c' p = None"
    using retired_table(2) [OF assms(1,2) txn_commit_retired [OF assms(2,3)]] .
  have ab: "Fault ''Transaction'' p \<in> set (trace s')"
    if "commit_abort_path p u c s0 = (r, c', s')" for u s0
  proof -
    obtain ps s3 where l: "abort_loop (transaction_id u) (participants u) (abort_started c u s0) = (ps, s3)"
      by fastforce
    from that freed show ?thesis
      by (auto simp: commit_abort_path_eq [OF l] Let_def read_freed_def)
  qed
  have cp: "Fault ''Transaction'' p \<in> set (trace s')" if "commit_phase p u c s0 = (r, c', s')" for u s0
  proof -
    obtain ok ps s4 where l: "commit_loop (transaction_id u) (participants u) (commit_started c u s0) = (ok, ps, s4)"
      using prod_cases3 by blast
    from that assms(4) show ?thesis
      by (cases ok) (auto simp: commit_phase_eq [OF l] commit_finish_def Let_def dest: ab)
  qed
  obtain ok ps s3 where l: "prepare_loop (transaction_id t) (participants t) (prepare_started c t s) = (ok, ps, s3)"
    using prod_cases3 by blast
  from assms(3) show ?thesis
    using freed by (cases ok) (auto simp: txn_commit_eq [OF assms(2) l] dest: ab cp)
qed

subsection \<open>Concrete runs\<close>

definition demo_sys :: sys where
  "demo_sys = \<lparr>env_src = (\<lambda>_. None), time_src = (\<lambda>n. 1000 + int n), time_calls = 0,
     rand_src = (\<lambda>_. 50), rand_calls = 0, alloc_src = (\<lambda>_. True), allocs = 7,
     trace = [], metrics = metrics_zero\<rparr>"

definition answering :: "int \<Rightarrow> sys cbfun" where
  "answering r = (\<lambda>ctx tid s. (r, s))"

definition demo_participant :: "string \<Rightarrow> int \<Rightarrow> int \<Rightarrow> sys participant" where
  "demo_participant n v cm = \<lparr>pname = n, pstate = PARTICIPANT_INIT, pcontext = 0,
     prepare_fn = answering v, commit_fn = answering cm, abort_fn = answering 0\<rparr>"

definition demo_txn :: "sys participant list \<Rightarrow> sys transaction" where
  "demo_txn ps = \<lparr>transaction_id = ''t1'', tstate = TXN_INIT, participants = ps, start_time = 0,
     prepare_timeout = 30, commit_timeout = 30\<rparr>"

definition demo_coordinator :: "sys participant list \<Rightarrow> sys coordinator" where
  "demo_coordinator ps = \<lparr>active_transactions = [3], tx_heap = [3 \<mapsto> demo_txn ps], txn_log = True,
     prepare_timeout_seconds = 30, commit_timeout_seconds = 30\<rparr>"

lemma quiet_answering: "quiet_cb (answering r)"
  by (simp add: quiet_cb_def answering_def)

lemma quiet_demo: "quiet (demo_participant n v cm)"
  by (simp add: quiet_def demo_participant_def quiet_answering)

lemma table_ok_demo: "table_ok (demo_coordinator ps)"
  by (rule table_okI) (auto simp: demo_coordinator_def MAX_ACTIVE_TRANSACTIONS_def split: if_splits)

lemma heap_demo: "tx_heap (demo_coordinator ps) 3 = Some (demo_txn ps)"
  by (simp add: demo_coordinator_def)

lemma demo_txn_simps [simp]:
  "transaction_id (demo_txn ps) = ''t1''" "participants (demo_txn ps) = ps"
  by (simp_all add: demo_txn_def)

text \<open>Witness of C1: the database votes yes, the clearing system no.\<close>

theorem txn_commit_refines_2pc_witness:
  "\<exists>pv cv av. twopc_outcome [''database'', ''clearing''] pv cv av
       (fst (txn_commit (Some 3) (demo_coordinator [demo_participant ''database'' 0 0, demo_participant ''clearing'' (- 1) 0]) demo_sys)) \<and>
     calls (trace (snd (snd (txn_commit (Some 3)
         (demo_coordinator [demo_participant ''database'' 0 0, demo_participant ''clearing'' (- 1) 0]) demo_sys))))
       = [] @ evs ''t1'' Prepare pv @ evs ''t1'' Commit cv @ evs ''t1'' Abort av"
proof -
  let ?ps = "[demo_participant ''database'' 0 0, demo_participant ''clearing'' (- 1) 0]"
  obtain r c' s' where e: "txn_commit (Some 3) (demo_coordinator ?ps) demo_sys = (r, c', s')"
    using prod_cases3 by blast
  have n: "map pname ?ps = [''database'', ''clearing'']" by (simp add: demo_participant_def)
  have i: "\<forall>q \<in> set ?ps. pstate q = PARTICIPANT_INIT" by (simp add: demo_participant_def)
  have t: "calls (trace demo_sys) = []" by (simp add: demo_sys_def)
  from txn_commit_refines_2pc [OF heap_demo _ _ e] show ?thesis
    using e n i t by (simp add: quiet_demo)
qed

text \<open>Witness of C16: a run that commits.\<close>

theorem txn_commit_log_path_witness:
  "\<exists>sts. tlog (trace (snd (snd (txn_commit (Some 3) (demo_coordinator [demo_participant ''database'' 0 0]) demo_sys)))) =
       log_entries (demo_coordinator [demo_participant ''database'' 0 0]) ''t1'' sts \<and>
     successively txn_next (TXN_INIT # sts) \<and> last (TXN_INIT # sts) = TXN_COMMITTED"
proof -
  let ?c = "demo_coordinator [demo_participant ''database'' 0 0]"
  obtain r c' s' where e: "txn_commit (Some 3) ?c demo_sys = (r, c', s')"
    using prod_cases3 by blast
  have "fst (txn_commit (Some 3) ?c demo_sys) = 0"
    by (simp add: txn_commit_def demo_coordinator_def demo_participant_def answering_def call_cb_def
        commit_phase_def commit_finish_def Let_def)
  with e have "r = 0" by simp
  moreover have "tlog (trace demo_sys) = []" by (simp add: demo_sys_def)
  ultimately show ?thesis
    using txn_commit_log_path [OF heap_demo _ e] e by (simp add: quiet_demo)
qed

text \<open>Witness of C17.\<close>

theorem txn_commit_abort_retire_witness:
  "table_ok (fst (txn_abort (Some 3) (demo_coordinator [demo_participant ''database'' 0 0]) demo_sys)) \<and>
   txn_get_by_id (Some ''t1'') (fst (txn_abort (Some 3) (demo_coordinator [demo_participant ''database'' 0 0]) demo_sys)) = None"
proof -
  let ?c = "demo_coordinator [demo_participant ''database'' 0 0]"
  obtain c' s' where e: "txn_abort (Some 3) ?c demo_sys = (c', s')" by fastforce
  from txn_commit_abort_retire [OF table_ok_demo heap_demo disjI2 [OF e]] e show ?thesis by simp
qed

text \<open>A concrete instance: a second transaction is opened beside \<open>t1\<close>.\<close>

theorem txn_begin_table_witness:
  "table_ok (fst (snd (txn_begin (Some ''t2'') (demo_coordinator []) demo_sys))) \<and>
   txn_get_by_id (Some ''t2'') (fst (snd (txn_begin (Some ''t2'') (demo_coordinator []) demo_sys))) = Some 7"
proof -
  obtain res c' s' where e: "txn_begin (Some ''t2'') (demo_coordinator []) demo_sys = (res, c', s')"
    using prod_cases3 by blast
  have "fst (txn_begin (Some ''t2'') (demo_coordinator []) demo_sys) = Some 7"
    by (simp add: txn_begin_def find_transaction_def has_id_def demo_coordinator_def demo_txn_def demo_sys_def
        MAX_ACTIVE_TRANSACTIONS_def malloc_def time_null_def Let_def)
  moreover have "fresh_ok (demo_coordinator []) demo_sys"
    by (simp add: fresh_ok_def demo_coordinator_def demo_sys_def)
  moreover have "length ''t2'' < MAX_TRANSACTION_ID_LEN" by (simp add: MAX_TRANSACTION_ID_LEN_def)
  ultimately show ?thesis
    using txn_begin_table [OF table_ok_demo _ _ e] e by simp
qed

text \<open>Witness of C40: the only participant refuses.\<close>

theorem txn_commit_abort_use_after_free_witness:
  "Fault ''Transaction'' 3 \<in> set (trace (snd (snd (txn_commit (Some 3)
     (demo_coordinator [demo_participant ''clearing'' (- 1) 0]) demo_sys))))"
proof -
  let ?c = "demo_coordinator [demo_participant ''clearing'' (- 1) 0]"
  obtain r c' s' where e: "txn_commit (Some 3) ?c demo_sys = (r, c', s')"
    using prod_cases3 by blast
  have "fst (txn_commit (Some 3) ?c demo_sys) = - 1"
    by (simp add: txn_commit_def demo_coordinator_def demo_participant_def answering_def call_cb_def
        commit_abort_path_def Let_def)
  with e have "r \<noteq> 0" by simp
  with txn_commit_abort_use_after_free [OF table_ok_demo heap_demo e] e show ?thesis by simp
qed

end
