(* ===== verification/Clearing.thy ===== *)
theory Clearing
  imports Coordinator
begin

section \<open>The clearing participant and its circuit breaker (server/clearing_participant.c)\<close>

text \<open>
  The process-wide circuit breaker \<open>g_cb\<close>, the simulated request to the clearing service and the
  participant built on them. Contexts live in \<open>clearing_ctxs\<close>, a map from addresses; a freed
  address maps to \<^const>\<open>None\<close>. A null pointer argument is \<^const>\<open>None\<close>. \<open>srand\<close> only restarts
  the sequence of draws, which is arbitrary here; its reading of the clock is kept. The results of
  \<open>rand()\<close> are never negative, so that \<open>%\<close> is \<open>mod\<close>. Signed arithmetic is exact except for the
  back-off, whose shift and products are written with their wrap-around (the sources overflow there
  when \<open>CLEARING_RETRY_MAX\<close> exceeds 24).
\<close>

record circuit_breaker =
  failure_count :: int
  window_start :: int
  cb_open :: bool
  opened_at :: int
  window_seconds :: int
  failure_threshold :: int
  open_seconds :: int
  max_retries :: int
  req_timeout_seconds :: int

definition g_cb_init :: circuit_breaker where
  "g_cb_init = \<lparr>failure_count = 0, window_start = 0, cb_open = False, opened_at = 0,
     window_seconds = 30, failure_threshold = 5, open_seconds = 20, max_retries = 2,
     req_timeout_seconds = 30\<rparr>"

record clearing_ctx =
  service_url :: string
  timeout_seconds :: int
  cl_txn_id :: string
  has_hold :: bool
  pan_masked :: string
  amount :: string
  merchant_id :: string

record csys = sys +
  g_cb :: circuit_breaker
  cb_loaded :: bool
  clearing_ctxs :: "nat \<Rightarrow> clearing_ctx option"

subsection \<open>The simulated service\<close>

definition simulate_clearing_request ::
    "string \<Rightarrow> string \<Rightarrow> string \<Rightarrow> string \<Rightarrow> nat \<Rightarrow> int \<Rightarrow> 'a csys_scheme \<Rightarrow> int \<times> string \<times> 'a csys_scheme" where
  \<comment> \<open>the old contents of the response buffer come in as \<open>response\<close>; result, new contents, state\<close>
  "simulate_clearing_request url meth payload response response_size timeout s =
     (let (d, s) = c_rand s;
          s = emit (Usleep (50000 + d mod 100000)) s;
          (f, s) = c_rand s in
      if f mod 100 < 5 then
        (- 1, clip response_size (''{\"status\":\"ERROR\",\"reason\":\"network_timeout\"}''),
         emit (Request payload (- 1)) s)
      else
        let (response, s) =
          (if meth = ''POST'' then
             if strstr payload ''prepare'' \<noteq> None then
               (let (n, s) = c_rand s in
                (clip response_size (''{\"status\":\"OK\",\"action\":\"hold_placed\",\"auth_code\":\"AUTH'' @ show_int (n mod 999999) @ ''\"}''), s))
             else if strstr payload ''commit'' \<noteq> None then
               (let (n, s) = c_rand s in
                (clip response_size (''{\"status\":\"OK\",\"action\":\"settled\",\"settlement_id\":\"STL'' @ show_int (n mod 999999) @ ''\"}''), s))
             else if strstr payload ''abort'' \<noteq> None then
               (clip response_size (''{\"status\":\"OK\",\"action\":\"hold_released\"}''), s)
             else (response, s)
           else (response, s))
        in (0, response, emit (Request payload 0) s))"

definition status_ok :: "string \<Rightarrow> bool" where
  "status_ok response \<longleftrightarrow>
     strstr response (''\"status\":\"OK\"'') \<noteq> None"

subsection \<open>The circuit breaker\<close>

definition env_get_int :: "'a sys_scheme \<Rightarrow> string \<Rightarrow> int \<Rightarrow> int" where
  "env_get_int s name defv =
     (case env_src s name of
        None \<Rightarrow> defv
      | Some v \<Rightarrow> if v = [] then defv else let i = atoi v in if i > 0 then i else defv)"

definition cb_load_env_defaults :: "'a csys_scheme \<Rightarrow> 'a csys_scheme" where
  "cb_load_env_defaults s =
     (if cb_loaded s then s
      else
        let c = g_cb s in
        s\<lparr>g_cb := c\<lparr>window_seconds := env_get_int s ''CLEARING_CB_WINDOW'' (window_seconds c),
                   failure_threshold := env_get_int s ''CLEARING_CB_FAILS'' (failure_threshold c),
                   open_seconds := env_get_int s ''CLEARING_CB_OPEN_SECS'' (open_seconds c),
                   max_retries := env_get_int s ''CLEARING_RETRY_MAX'' (max_retries c),
                   req_timeout_seconds := env_get_int s ''CLEARING_TIMEOUT'' (req_timeout_seconds c)\<rparr>,
          cb_loaded := True\<rparr>)"

definition cb_check :: "int \<Rightarrow> circuit_breaker \<Rightarrow> bool \<times> circuit_breaker" where
  \<comment> \<open>the critical section of \<open>cb_should_short_circuit\<close> at time \<open>now\<close>\<close>
  "cb_check now c =
     (if cb_open c \<and> now - opened_at c < open_seconds c then (True, c)
      else
        let c = (if cb_open c then c\<lparr>cb_open := False, failure_count := 0, window_start := now\<rparr> else c);
            c = (if window_start c = 0 \<or> now - window_start c > window_seconds c
                 then c\<lparr>window_start := now, failure_count := 0\<rparr> else c)
        in (False, c))"

definition cb_result :: "int \<Rightarrow> bool \<Rightarrow> circuit_breaker \<Rightarrow> circuit_breaker" where
  \<comment> \<open>the critical section of \<open>cb_on_result\<close> at time \<open>now\<close>\<close>
  "cb_result now ok c =
     (if ok then
        let c = c\<lparr>failure_count := 0\<rparr> in
        if window_start c = 0 then c\<lparr>window_start := now\<rparr> else c
      else
        let c = (if window_start c = 0 \<or> now - window_start c > window_seconds c
                 then c\<lparr>window_start := now, failure_count := 0\<rparr> else c);
            c = c\<lparr>failure_count := failure_count c + 1\<rparr>
        in if \<not> cb_open c \<and> failure_count c \<ge> failure_threshold c
           then c\<lparr>cb_open := True, opened_at := now\<rparr> else c)"

definition cb_should_short_circuit :: "'a csys_scheme \<Rightarrow> bool \<times> 'a csys_scheme" where
  "cb_should_short_circuit s =
     (let (now, s) = time_null s; (b, c) = cb_check now (g_cb s) in (b, s\<lparr>g_cb := c\<rparr>))"

definition cb_on_result :: "bool \<Rightarrow> 'a csys_scheme \<Rightarrow> 'a csys_scheme" where
  "cb_on_result ok s = (let (now, s) = time_null s in s\<lparr>g_cb := cb_result now ok (g_cb s)\<rparr>)"

subsection \<open>The participant\<close>

definition clearing_participant_init ::
    "string option \<Rightarrow> int \<Rightarrow> 'a csys_scheme \<Rightarrow> nat option \<times> 'a csys_scheme" where
  "clearing_participant_init url0 tmo s =
     (case malloc s of
        (None, s) \<Rightarrow> (None, s)
      | (Some a, s) \<Rightarrow>
          let url = (case url0 of
                       Some u \<Rightarrow> clip 256 u | None \<Rightarrow> ''http://clearing.example.com/api'');
              s = cb_load_env_defaults s;
              def_timeout = (if tmo > 0 then tmo else 30);
              env_to = env_get_int s ''CLEARING_TIMEOUT'' def_timeout;
              ctx = \<lparr>service_url = url, timeout_seconds = (if env_to > 0 then env_to else def_timeout),
                     cl_txn_id = [], has_hold = False, pan_masked = [], amount = [], merchant_id = []\<rparr>;
              s = s\<lparr>clearing_ctxs := (clearing_ctxs s)(a \<mapsto> ctx)\<rparr>;
              (_, s) = time_null s
          in (Some a, s))"

definition clog2 :: "string \<Rightarrow> string \<Rightarrow> string \<Rightarrow> 'a sys_scheme \<Rightarrow> 'a sys_scheme" where
  "clog2 lvl tid msg s = logj lvl ''clearing_participant'' (Some tid) msg s"

definition clearing_payload :: "string \<Rightarrow> string \<Rightarrow> clearing_ctx \<Rightarrow> string" where
  \<comment> \<open>the \<open>snprintf\<close> into \<open>payload[512]\<close> that the three callbacks share but for the action\<close>
  "clearing_payload action tid ctx =
     clip 512 (''{\"action\":\"'' @ action @ ''\",\"transaction_id\":\"'' @ tid @ ''\",\"pan\":\"'' @ pan_masked ctx @ ''\",\"amount\":\"'' @ amount ctx @ ''\",\"merchant_id\":\"'' @ merchant_id ctx @ ''\"}'')"

definition backoff_us :: "int \<Rightarrow> int" where
  \<comment> \<open>\<open>int backoff_ms = 100 * (1 << attempt)\<close>, then \<open>(useconds_t)backoff_ms * 1000\<close>\<close>
  "backoff_us attempt = (to_int32 (100 * 2 ^ nat attempt) mod 4294967296 * 1000) mod 4294967296"

function retry_loop ::
    "int \<Rightarrow> int \<Rightarrow> string \<Rightarrow> string \<Rightarrow> int \<Rightarrow> int \<Rightarrow> string \<Rightarrow> 'a csys_scheme \<Rightarrow> int \<times> string \<times> 'a csys_scheme" where
  \<comment> \<open>the loop \<open>for (attempt = 0; attempt <= max_retries; attempt++)\<close> of PREPARE and COMMIT;
      \<open>result\<close> and \<open>response\<close> are the variables it updates\<close>
  "retry_loop maxr attempt url payload timeout result response s =
     (if attempt \<le> maxr then
        let (result, response, s) = simulate_clearing_request url ''POST'' payload response 256 timeout s in
        if result = 0 then (result, response, s)
        else retry_loop maxr (attempt + 1) url payload timeout result response
               (emit (Usleep (backoff_us attempt)) s)
      else (result, response, s))"
  by pat_completeness auto
termination
  by (relation "measure (\<lambda>(maxr, attempt, _). nat (maxr + 1 - attempt))") auto

declare retry_loop.simps [simp del]

definition cl_fault :: "nat \<Rightarrow> 'a sys_scheme \<Rightarrow> 'a sys_scheme" where
  "cl_fault a s = emit (Fault ''clearing_ctx'' a) s"

definition clearing_participant_set_transaction ::
    "nat option \<Rightarrow> string option \<Rightarrow> string option \<Rightarrow> string option \<Rightarrow> string option \<Rightarrow>
     'a csys_scheme \<Rightarrow> int \<times> 'a csys_scheme" where
  "clearing_participant_set_transaction ctx txn_id pan amt merchant s =
     (case (ctx, txn_id, pan, amt) of
        (Some a, Some tid, Some pn, Some am) \<Rightarrow>
          (case clearing_ctxs s a of
             None \<Rightarrow> (- 1, cl_fault a s)
           | Some c \<Rightarrow>
               let c = c\<lparr>cl_txn_id := clip MAX_TRANSACTION_ID_LEN tid, pan_masked := clip 32 pn,
                         amount := clip 16 am,
                         merchant_id := (case merchant of Some m \<Rightarrow> clip 32 m | None \<Rightarrow> ''MERCHANT001'')\<rparr>;
                   s = s\<lparr>clearing_ctxs := (clearing_ctxs s)(a \<mapsto> c)\<rparr>
               in (0, clog2 ''INFO'' tid ''Transaction details set'' s))
      | _ \<Rightarrow> (- 1, s))"

definition clearing_participant_prepare ::
    "nat option \<Rightarrow> string option \<Rightarrow> 'a csys_scheme \<Rightarrow> int \<times> 'a csys_scheme" where
  "clearing_participant_prepare context txn_id s =
     (case (context, txn_id) of
        (Some a, Some tid) \<Rightarrow>
          (case clearing_ctxs s a of
             None \<Rightarrow> (- 1, cl_fault a s)
           | Some ctx \<Rightarrow>
               if cl_txn_id ctx \<noteq> tid then (- 1, clog2 ''ERROR'' tid ''Transaction ID mismatch'' s)
               else
                 let payload = clearing_payload ''prepare'' tid ctx;
                     s = cb_load_env_defaults s;
                     (sc, s) = cb_should_short_circuit s in
                 if sc then
                   (- 1, with_metrics metrics_inc_cb_short_circuit
                           (clog2 ''WARN'' tid ''Circuit open: short-circuit PREPARE'' s))
                 else
                   let (result, response, s) =
                         retry_loop (max_retries (g_cb s)) 0 (service_url ctx) payload (timeout_seconds ctx) (- 1) [] s;
                       s = cb_on_result (result = 0) s in
                   if result \<noteq> 0 then (- 1, clog2 ''ERROR'' tid ''Clearing PREPARE failed'' s)
                   else if status_ok response then
                     (0, clog2 ''INFO'' tid ''Authorization hold placed''
                           (s\<lparr>clearing_ctxs := (clearing_ctxs s)(a \<mapsto> ctx\<lparr>has_hold := True\<rparr>)\<rparr>))
                   else (- 1, clog2 ''ERROR'' tid ''Clearing service declined'' s))
      | _ \<Rightarrow> (- 1, s))"

definition clearing_participant_commit ::
    "nat option \<Rightarrow> string option \<Rightarrow> 'a csys_scheme \<Rightarrow> int \<times> 'a csys_scheme" where
  "clearing_participant_commit context txn_id s =
     (case (context, txn_id) of
        (Some a, Some tid) \<Rightarrow>
          (case clearing_ctxs s a of
             None \<Rightarrow> (- 1, cl_fault a s)
           | Some ctx \<Rightarrow>
               if cl_txn_id ctx \<noteq> tid \<or> \<not> has_hold ctx then
                 (- 1, clog2 ''ERROR'' tid ''No prepared transaction to commit'' s)
               else
                 let payload = clearing_payload ''commit'' tid ctx;
                     s = cb_load_env_defaults s;
                     (sc, s) = cb_should_short_circuit s in
                 if sc then
                   (- 1, with_metrics metrics_inc_cb_short_circuit
                           (clog2 ''WARN'' tid ''Circuit open: short-circuit COMMIT'' s))
                 else
                   let (result, response, s) =
                         retry_loop (max_retries (g_cb s)) 0 (service_url ctx) payload (timeout_seconds ctx) (- 1) [] s;
                       s = cb_on_result (result = 0) s in
                   if result \<noteq> 0 then (- 1, clog2 ''ERROR'' tid ''Clearing COMMIT failed'' s)
                   else if status_ok response then
                     (0, clog2 ''INFO'' tid ''Transaction settled''
                           (s\<lparr>clearing_ctxs := (clearing_ctxs s)(a \<mapsto> ctx\<lparr>has_hold := False, cl_txn_id := []\<rparr>)\<rparr>))
                   else (- 1, clog2 ''ERROR'' tid ''Clearing service commit failed'' s))
      | _ \<Rightarrow> (- 1, s))"

definition clearing_participant_abort ::
    "nat option \<Rightarrow> string option \<Rightarrow> 'a csys_scheme \<Rightarrow> int \<times> 'a csys_scheme" where
  "clearing_participant_abort context txn_id s =
     (case (context, txn_id) of
        (Some a, Some tid) \<Rightarrow>
          (case clearing_ctxs s a of
             None \<Rightarrow> (- 1, cl_fault a s)
           | Some ctx \<Rightarrow>
               let s = (if \<not> has_hold ctx \<or> cl_txn_id ctx \<noteq> tid
                        then clog2 ''INFO'' tid ''No local hold; sending idempotent abort'' s else s);
                   payload = clearing_payload ''abort'' tid ctx;
                   (result, response, s) =
                     simulate_clearing_request (service_url ctx) ''POST'' payload [] 256 (timeout_seconds ctx) s;
                   s = (if result = 0 \<and> status_ok response
                        then clog2 ''INFO'' tid ''Authorization hold released'' s
                        else clog2 ''WARN'' tid ''Hold release failed (may timeout naturally)'' s)
               in (0, s\<lparr>clearing_ctxs := (clearing_ctxs s)(a \<mapsto> ctx\<lparr>has_hold := False, cl_txn_id := []\<rparr>)\<rparr>))
      | _ \<Rightarrow> (- 1, s))"

definition clearing_participant_destroy :: "nat option \<Rightarrow> 'a csys_scheme \<Rightarrow> 'a csys_scheme" where
  "clearing_participant_destroy ctx s =
     (case ctx of
        None \<Rightarrow> s
      | Some a \<Rightarrow>
          (case clearing_ctxs s a of
             None \<Rightarrow> cl_fault a s
           | Some c \<Rightarrow>
               let s = (if has_hold c then snd (clearing_participant_abort (Some a) (Some (cl_txn_id c)) s) else s)
               in s\<lparr>clearing_ctxs := (clearing_ctxs s)(a := None)\<rparr>))"

subsection \<open>The breaker as a state machine\<close>

text \<open>
  The two critical sections are atomic, run under the breaker's mutex by any number of threads with
  whatever clock readings they made before they got the lock; a run of the breaker is therefore any
  sequence of \<open>cb_check\<close> and \<open>cb_result\<close> steps.
\<close>

inductive cb_reach :: "circuit_breaker \<Rightarrow> circuit_breaker \<Rightarrow> bool" for c0 where
  cb_start: "cb_reach c0 c0"
| cb_checked: "cb_reach c0 c \<Longrightarrow> cb_reach c0 (snd (cb_check now c))"
| cb_reported: "cb_reach c0 c \<Longrightarrow> cb_reach c0 (cb_result now ok c)"

definition cb_tunables :: "circuit_breaker \<Rightarrow> int \<times> int \<times> int \<times> int \<times> int" where
  "cb_tunables c = (window_seconds c, failure_threshold c, open_seconds c, max_retries c,
     req_timeout_seconds c)"

definition cb_ok :: "circuit_breaker \<Rightarrow> bool" where
  "cb_ok c \<longleftrightarrow> 0 < failure_threshold c \<and> 0 \<le> failure_count c \<and>
     (\<not> cb_open c \<longrightarrow> failure_count c < failure_threshold c)"

lemma cb_check_tunables [simp]: "cb_tunables (snd (cb_check now c)) = cb_tunables c"
  by (simp add: cb_check_def cb_tunables_def Let_def)

lemma cb_result_tunables [simp]: "cb_tunables (cb_result now ok c) = cb_tunables c"
  by (simp add: cb_result_def cb_tunables_def Let_def)

lemma cb_check_ok: "cb_ok c \<Longrightarrow> cb_ok (snd (cb_check now c))"
  by (auto simp: cb_check_def cb_ok_def Let_def)

lemma cb_result_ok: "cb_ok c \<Longrightarrow> cb_ok (cb_result now ok c)"
  by (auto simp: cb_result_def cb_ok_def Let_def)

lemma cb_reach_ok:
  assumes "cb_reach c0 c" and "cb_ok c0"
  shows "cb_ok c \<and> cb_tunables c = cb_tunables c0"
  using assms by induction (simp_all add: cb_check_ok cb_result_ok)

lemma cb_check_closed: "\<not> fst (cb_check now c) \<Longrightarrow> \<not> cb_open (snd (cb_check now c))"
  by (auto simp: cb_check_def Let_def)

lemma cb_check_short: "fst (cb_check now c) \<longleftrightarrow> cb_open c \<and> now - opened_at c < open_seconds c"
  by (simp add: cb_check_def Let_def)

lemma cb_failures_in_window:
  assumes "\<not> cb_open c" and "failure_count c = 0" and "window_start c \<noteq> 0"
    and "0 < failure_threshold c"
    and "\<forall>t \<in> set ts. t - window_start c \<le> window_seconds c"
  shows "fold (\<lambda>t. cb_result t False) ts c =
    c\<lparr>failure_count := int (length ts), cb_open := failure_threshold c \<le> int (length ts),
      opened_at := (if failure_threshold c \<le> int (length ts)
                    then ts ! (nat (failure_threshold c) - 1) else opened_at c)\<rparr>"
  using assms(5)
proof (induction ts rule: rev_induct)
  case Nil
  then show ?case using assms(1,2,4) by simp
next
  case (snoc t ts)
  let ?n = "nat (failure_threshold c)"
  consider "failure_threshold c \<le> int (length ts)" | "failure_threshold c = int (length ts) + 1"
    | "int (length ts) + 1 < failure_threshold c"
    by linarith
  then show ?case
  proof cases
    case 1
    then have "?n - 1 < length ts" using assms(4) by linarith
    with 1 snoc assms(3) show ?thesis by (simp add: cb_result_def Let_def nth_append)
  next
    case 2
    then have "?n - 1 = length ts" by linarith
    with 2 snoc assms(3) show ?thesis by (simp add: cb_result_def Let_def nth_append)
  next
    case 3
    with snoc assms(3) show ?thesis by (simp add: cb_result_def Let_def)
  qed
qed

text \<open>
  C18. In every interleaving of the threads' uses of the breaker, the tunables stay what the
  environment set, the failure count is never negative, a closed breaker has fewer failures than
  the threshold, and a caller is let through only with the breaker closed.
\<close>

theorem cb_reach_invariant:
  assumes "cb_reach c0 c" and "cb_ok c0"
  shows "cb_ok c \<and> cb_tunables c = cb_tunables c0 \<and>
     (\<not> fst (cb_check now c) \<longrightarrow> \<not> cb_open (snd (cb_check now c)))"
  using cb_reach_ok [OF assms] cb_check_closed by blast

text \<open>
  C20. The breaker trips on the threshold-th failure and for the configured time: on a closed
  breaker with a fresh window, after any sequence of failures reported within the window, a
  caller at time \<open>now\<close> is refused exactly when there were at least \<open>failure_threshold\<close> failures
  and fewer than \<open>open_seconds\<close> seconds have passed since the one that reached the threshold; when
  it is let through after that time the breaker is closed again with no failure counted.
\<close>

theorem cb_trips:
  assumes "\<not> cb_open c" and "failure_count c = 0" and "window_start c \<noteq> 0"
    and "0 < failure_threshold c"
    and "\<forall>t \<in> set ts. t - window_start c \<le> window_seconds c"
  shows "let c' = fold (\<lambda>t. cb_result t False) ts c; n = nat (failure_threshold c) in
     (fst (cb_check now c') \<longleftrightarrow> n \<le> length ts \<and> now - ts ! (n - 1) < open_seconds c) \<and>
     (n \<le> length ts \<and> now - ts ! (n - 1) \<ge> open_seconds c \<longrightarrow>
        \<not> cb_open (snd (cb_check now c')) \<and> failure_count (snd (cb_check now c')) = 0)"
proof -
  have "failure_threshold c \<le> int (length ts) \<longleftrightarrow> nat (failure_threshold c) \<le> length ts" by linarith
  then show ?thesis
    unfolding Let_def cb_failures_in_window [OF assms] cb_check_short
    by (auto simp: cb_check_def Let_def)
qed

definition demo_cb :: circuit_breaker where
  "demo_cb = g_cb_init\<lparr>window_start := 100, failure_threshold := 2\<rparr>"

text \<open>Witness of C18: the breaker as the process starts, after one failure.\<close>

theorem cb_reach_invariant_witness:
  "cb_reach g_cb_init (cb_result 100 False g_cb_init) \<and> cb_ok (cb_result 100 False g_cb_init)"
proof -
  have r: "cb_reach g_cb_init (cb_result 100 False g_cb_init)"
    by (intro cb_reach.intros)
  have "cb_ok g_cb_init" by (simp add: g_cb_init_def cb_ok_def)
  from cb_reach_invariant [OF r this] r show ?thesis by blast
qed

text \<open>Witness of C20: with a threshold of two, the second failure at time 103 opens the breaker.\<close>

theorem cb_trips_witness:
  "fst (cb_check 110 (fold (\<lambda>t. cb_result t False) [101, 103] demo_cb)) \<and>
   \<not> fst (cb_check 123 (fold (\<lambda>t. cb_result t False) [101, 103] demo_cb))"
proof -
  have "\<not> cb_open demo_cb" "failure_count demo_cb = 0" "window_start demo_cb \<noteq> 0"
    "0 < failure_threshold demo_cb"
    "\<forall>t \<in> set [101, 103]. t - window_start demo_cb \<le> window_seconds demo_cb"
    by (simp_all add: demo_cb_def g_cb_init_def)
  note t = cb_trips [OF this]
  have d: "failure_threshold demo_cb = 2" "open_seconds demo_cb = 20"
    by (simp_all add: demo_cb_def g_cb_init_def)
  from t [of 110] t [of 123] show ?thesis unfolding Let_def d by simp
qed

subsection \<open>Requests and retries\<close>

definition same_clearing :: "'a csys_scheme \<Rightarrow> 'a csys_scheme \<Rightarrow> bool" where
  \<comment> \<open>a request touches neither the breaker nor the contexts nor the counters\<close>
  "same_clearing s s' \<longleftrightarrow> g_cb s' = g_cb s \<and> cb_loaded s' = cb_loaded s \<and>
     clearing_ctxs s' = clearing_ctxs s \<and> metrics s' = metrics s \<and> time_src s' = time_src s \<and>
     time_calls s' = time_calls s \<and> rand_src s' = rand_src s \<and> env_src s' = env_src s \<and>
     alloc_src s' = alloc_src s \<and> allocs s' = allocs s \<and> csys.more s' = csys.more s"

lemma same_clearing_refl: "same_clearing s s"
  by (simp add: same_clearing_def)

lemma same_clearing_trans: "same_clearing s t \<Longrightarrow> same_clearing t u \<Longrightarrow> same_clearing s u"
  by (simp add: same_clearing_def)

lemma same_clearing_emit: "same_clearing s (emit e s)" "same_clearing s (clog2 l t m s)"
  by (simp_all add: same_clearing_def emit_def clog2_def logj_def)

definition attempt_fails :: "'a csys_scheme \<Rightarrow> nat \<Rightarrow> bool" where
  \<comment> \<open>the draw that decides attempt \<open>i\<close>, when the \<open>i\<close> attempts before it failed\<close>
  "attempt_fails s i \<longleftrightarrow> rand_src s (rand_calls s + 2 * i + 1) mod 100 < 5"

definition action_payload :: "string \<Rightarrow> bool" where
  "action_payload p \<longleftrightarrow> strstr p ''prepare'' \<noteq> None \<or> strstr p ''commit'' \<noteq> None \<or> strstr p ''abort'' \<noteq> None"

lemma simulate_frame:
  assumes "simulate_clearing_request url m p resp n to s = (r, resp', s')"
  shows "same_clearing s s'"
    and "\<exists>d. trace s' = trace s @ [Usleep (50000 + d mod 100000), Request p r]"
    and "r = (if attempt_fails s 0 then - 1 else 0)"
    and "r \<noteq> 0 \<Longrightarrow> rand_calls s' = rand_calls s + 2"
  using assms
  by (auto simp: simulate_clearing_request_def Let_def c_rand_def emit_def same_clearing_def
      attempt_fails_def split: if_splits prod.splits)

lemma status_ok_response:
  assumes "prefix ''{\"status\":\"OK\"'' resp" and "n \<ge> 64"
  shows "status_ok (clip n resp)"
proof -
  obtain x where "resp = ''{'' @ ''\"status\":\"OK\"'' @ x"
    using assms(1) by (auto simp: prefix_def)
  then show ?thesis
    using strstr_clip [of "''{''" "''\"status\":\"OK\"''" n x] assms(2) by (simp add: status_ok_def)
qed

lemma simulate_ok:
  assumes "simulate_clearing_request url ''POST'' p resp 256 to s = (0, resp', s')"
    and "action_payload p"
  shows "status_ok resp'"
  using assms
  by (auto intro!: status_ok_response simp: simulate_clearing_request_def Let_def c_rand_def action_payload_def
      split: if_splits prod.splits)

lemma clearing_payload_action:
  assumes "length act \<le> 100"
  shows "strstr (clearing_payload act tid c) act \<noteq> None"
  unfolding clearing_payload_def by (rule strstr_clip) (use assms in simp)

lemma clearing_payload_ok:
  "act \<in> {''prepare'', ''commit'', ''abort''} \<Longrightarrow> action_payload (clearing_payload act tid c)"
  using clearing_payload_action [of act tid c] by (auto simp: action_payload_def)

fun reqs :: "event list \<Rightarrow> (string \<times> int) list" where
  \<comment> \<open>the requests to the clearing service in a trace, with their results\<close>
  "reqs [] = []"
| "reqs (Request p r # es) = (p, r) # reqs es"
| "reqs (_ # es) = reqs es"

lemma reqs_append [simp]: "reqs (es @ fs) = reqs es @ reqs fs"
  by (induction es rule: reqs.induct) simp_all

definition first_success :: "'a csys_scheme \<Rightarrow> nat \<Rightarrow> nat" where
  \<comment> \<open>attempts that fail before the first success, at most \<open>n\<close>\<close>
  "first_success s n = length (takeWhile (attempt_fails s) [0..<n])"

lemma first_success_Suc:
  assumes "attempt_fails s 0" and "\<And>i. attempt_fails s' i = attempt_fails s (Suc i)"
  shows "first_success s (Suc n) = Suc (first_success s' n)"
proof -
  have "[0..<Suc n] = 0 # map Suc [0..<n]" by (simp add: map_Suc_upt upt_conv_Cons)
  then show ?thesis
    using assms(1) by (simp add: first_success_def takeWhile_map comp_def assms(2) [symmetric] del: upt_Suc)
qed

lemma first_success_less: "first_success s n < n \<longleftrightarrow> (\<exists>i < n. \<not> attempt_fails s i)"
proof
  assume l: "first_success s n < n"
  have "\<not> attempt_fails s ([0..<n] ! first_success s n)"
    using l unfolding first_success_def by (intro nth_length_takeWhile) simp
  with l show "\<exists>i < n. \<not> attempt_fails s i" by auto
next
  assume "\<exists>i < n. \<not> attempt_fails s i"
  then have "takeWhile (attempt_fails s) [0..<n] \<noteq> [0..<n]"
    by (auto simp: takeWhile_eq_all_conv)
  then have "length (takeWhile (attempt_fails s) [0..<n]) \<noteq> length [0..<n]"
    by (metis takeWhile_eq_take take_all_iff le_refl)
  then show "first_success s n < n"
    using length_takeWhile_le [of "attempt_fails s" "[0..<n]"] by (simp add: first_success_def)
qed

lemma retry_loop_spec:
  assumes "retry_loop maxr k url p to r0 resp0 s = (r, resp, s')"
    and "nat (maxr + 1 - k) = n" and "k \<le> maxr + 1"
  shows "same_clearing s s' \<and>
    (n = 0 \<longrightarrow> r = r0) \<and> (0 < n \<longrightarrow> r = (if first_success s n < n then 0 else - 1)) \<and>
    reqs (trace s') = reqs (trace s) @ replicate (first_success s n) (p, - 1) @
      (if first_success s n < n then [(p, 0)] else []) \<and>
    (0 < n \<and> r = 0 \<and> action_payload p \<longrightarrow> status_ok resp)"
  using assms
proof (induction n arbitrary: k r0 resp0 s)
  case 0
  then have "\<not> k \<le> maxr" by linarith
  with 0 have "(r, resp, s') = (r0, resp0, s)" by (simp add: retry_loop.simps [of maxr k])
  then show ?case by (simp add: same_clearing_refl first_success_def)
next
  case (Suc n)
  then have k: "k \<le> maxr" by linarith
  obtain r1 resp1 s1 where sim: "simulate_clearing_request url ''POST'' p resp0 256 to s = (r1, resp1, s1)"
    by (metis prod_cases3)
  note f = simulate_frame [OF sim]
  show ?case
  proof (cases "attempt_fails s 0")
    case False
    with f(3) have r1: "r1 = 0" by simp
    with Suc.prems(1) k sim have e: "(r, resp, s') = (0, resp1, s1)"
      by (simp add: retry_loop.simps [of maxr k])
    have "first_success s (Suc n) = 0"
      using False by (simp add: first_success_def upt_conv_Cons del: upt_Suc)
    with e f(1,2) r1 simulate_ok sim show ?thesis by auto
  next
    case True
    with f(3) have r1: "r1 = - 1" by simp
    let ?s = "emit (Usleep (backoff_us k)) s1"
    from Suc.prems(1) k sim r1
    have l: "retry_loop maxr (k + 1) url p to (- 1) resp1 ?s = (r, resp, s')"
      by (simp add: retry_loop.simps [of maxr k])
    have sc: "same_clearing s ?s"
      using same_clearing_trans [OF f(1) same_clearing_emit(1)] .
    have "attempt_fails ?s i = attempt_fails s (Suc i)" for i
      using f(1) f(4) r1 by (simp add: attempt_fails_def same_clearing_def emit_def)
    then have fs: "first_success s (Suc n) = Suc (first_success ?s n)"
      by (rule first_success_Suc [OF True])
    from Suc.prems(2) k have n: "nat (maxr + 1 - (k + 1)) = n" "k + 1 \<le> maxr + 1" by linarith+
    obtain d where t: "trace ?s = trace s @ [Usleep d, Request p (- 1), Usleep (backoff_us k)]"
      using f(2) r1 by auto
    note ih = Suc.IH [OF l n]
    have "n = 0 \<longrightarrow> first_success ?s n = 0" by (simp add: first_success_def)
    with ih fs t show ?thesis
      using same_clearing_trans [OF sc] by (cases "n = 0") auto
  qed
qed

subsection \<open>The callbacks\<close>

definition cb_now :: "'a csys_scheme \<Rightarrow> circuit_breaker" where
  \<comment> \<open>the breaker as a callback that starts in \<open>s\<close> finds it\<close>
  "cb_now s = g_cb (cb_load_env_defaults s)"

definition refused :: "'a csys_scheme \<Rightarrow> bool" where
  "refused s \<longleftrightarrow> fst (cb_check (time_src s (time_calls s)) (cb_now s))"

definition tries :: "'a csys_scheme \<Rightarrow> nat" where
  "tries s = nat (max_retries (cb_now s) + 1)"

lemma cb_load_frame [simp]:
  "clearing_ctxs (cb_load_env_defaults s) = clearing_ctxs s"
  "trace (cb_load_env_defaults s) = trace s"
  "metrics (cb_load_env_defaults s) = metrics s"
  "rand_src (cb_load_env_defaults s) = rand_src s"
  "rand_calls (cb_load_env_defaults s) = rand_calls s"
  "time_src (cb_load_env_defaults s) = time_src s"
  "time_calls (cb_load_env_defaults s) = time_calls s"
  "allocs (cb_load_env_defaults s) = allocs s"
  "alloc_src (cb_load_env_defaults s) = alloc_src s"
  "csys.more (cb_load_env_defaults s) = csys.more s"
  by (simp_all add: cb_load_env_defaults_def Let_def)

lemma cb_short_frame:
  assumes "cb_should_short_circuit s = (b, s')"
  shows "clearing_ctxs s' = clearing_ctxs s" "trace s' = trace s" "metrics s' = metrics s"
    "rand_src s' = rand_src s" "rand_calls s' = rand_calls s"
    "allocs s' = allocs s" "alloc_src s' = alloc_src s" "csys.more s' = csys.more s"
    "b = fst (cb_check (time_src s (time_calls s)) (g_cb s))"
    "g_cb s' = snd (cb_check (time_src s (time_calls s)) (g_cb s))"
  using assms by (auto simp: cb_should_short_circuit_def time_null_def split: prod.splits)

lemma cb_on_result_frame [simp]:
  "clearing_ctxs (cb_on_result ok s) = clearing_ctxs s"
  "trace (cb_on_result ok s) = trace s"
  "metrics (cb_on_result ok s) = metrics s"
  "allocs (cb_on_result ok s) = allocs s"
  "alloc_src (cb_on_result ok s) = alloc_src s"
  "csys.more (cb_on_result ok s) = csys.more s"
  by (simp_all add: cb_on_result_def time_null_def)

lemma clog2_frame [simp]:
  "clearing_ctxs (clog2 l t m s) = clearing_ctxs s"
  "trace (clog2 l t m s) = trace s @ [Log l ''clearing_participant'' (Some t) m (- 1)]"
  "metrics (clog2 l t m s) = metrics s"
  "allocs (clog2 l t m s) = allocs s"
  "alloc_src (clog2 l t m s) = alloc_src s"
  "csys.more (clog2 l t m s) = csys.more s"
  by (simp_all add: clog2_def logj_def emit_def)

lemma guarded_request:
  \<comment> \<open>what PREPARE and COMMIT share: the breaker's answer, then the retries\<close>
  assumes "cb_should_short_circuit (cb_load_env_defaults s) = (sc, s2)"
    and "retry_loop (max_retries (g_cb s2)) 0 url p to (- 1) [] s2 = (r, resp, s3)"
    and "0 \<le> max_retries (cb_now s)"
  shows "sc = refused s"
    and "same_clearing s2 s3" and "clearing_ctxs s3 = clearing_ctxs s" and "metrics s3 = metrics s"
    and "allocs s3 = allocs s" and "alloc_src s3 = alloc_src s" and "csys.more s3 = csys.more s"
    and "r = (if \<exists>i < tries s. \<not> attempt_fails s i then 0 else - 1)"
    and "reqs (trace s3) = reqs (trace s) @ replicate (first_success s (tries s)) (p, - 1) @
           (if r = 0 then [(p, 0)] else [])"
    and "r = 0 \<Longrightarrow> action_payload p \<Longrightarrow> status_ok resp"
proof -
  note c = cb_short_frame [OF assms(1)]
  show "sc = refused s" using c(9) by (simp add: refused_def cb_now_def)
  have "cb_tunables (g_cb s2) = cb_tunables (cb_now s)"
    unfolding c(10) cb_now_def by simp
  then have m: "max_retries (g_cb s2) = max_retries (cb_now s)" by (simp add: cb_tunables_def)
  have t: "nat (max_retries (g_cb s2) + 1 - 0) = tries s" "0 < tries s"
    using assms(3) by (simp_all add: tries_def m)
  have a: "attempt_fails s2 = attempt_fails s"
    using c by (simp add: attempt_fails_def fun_eq_iff)
  then have f: "first_success s2 = first_success s" by (intro ext) (simp add: first_success_def)
  note l = retry_loop_spec [OF assms(2) t(1)]
  show sc: "same_clearing s2 s3" using l assms(3) m by simp
  show "clearing_ctxs s3 = clearing_ctxs s" "metrics s3 = metrics s" "allocs s3 = allocs s"
    "alloc_src s3 = alloc_src s" "csys.more s3 = csys.more s"
    using sc c by (simp_all add: same_clearing_def)
  show r: "r = (if \<exists>i < tries s. \<not> attempt_fails s i then 0 else - 1)"
    using l assms(3) m t(2) by (simp add: f first_success_less)
  show "reqs (trace s3) = reqs (trace s) @ replicate (first_success s (tries s)) (p, - 1) @
      (if r = 0 then [(p, 0)] else [])"
    using l assms(3) m c(2) r by (simp add: f first_success_less)
  show "r = 0 \<Longrightarrow> action_payload p \<Longrightarrow> status_ok resp"
    using l assms(3) m t(2) by simp
qed

definition request_outcome ::
    "string \<Rightarrow> string \<Rightarrow> clearing_ctx \<Rightarrow> int \<Rightarrow> 'a csys_scheme \<Rightarrow> 'a csys_scheme \<Rightarrow> bool" where
  \<comment> \<open>what a caller of PREPARE or COMMIT sees: -1 without a request when the breaker is open,
      otherwise one request per attempt until the first that succeeds\<close>
  "request_outcome act tid ctx r s s' \<longleftrightarrow>
     r = (if \<not> refused s \<and> (\<exists>i < tries s. \<not> attempt_fails s i) then 0 else - 1) \<and>
     (let p = clearing_payload act tid ctx in
      reqs (trace s') = reqs (trace s) @
        (if refused s then []
         else replicate (first_success s (tries s)) (p, - 1) @ (if r = 0 then [(p, 0)] else []))) \<and>
     metrics s' = (if refused s then metrics_inc_cb_short_circuit (metrics s) else metrics s)"

lemma clearing_prepare_spec:
  assumes "clearing_ctxs s a = Some ctx" and "cl_txn_id ctx = tid" and "0 \<le> max_retries (cb_now s)"
    and "clearing_participant_prepare (Some a) (Some tid) s = (r, s')"
  shows "request_outcome ''prepare'' tid ctx r s s' \<and>
    clearing_ctxs s' = (if r = 0 then (clearing_ctxs s)(a \<mapsto> ctx\<lparr>has_hold := True\<rparr>) else clearing_ctxs s)"
proof -
  let ?p = "clearing_payload ''prepare'' tid ctx"
  obtain sc s2 where sc: "cb_should_short_circuit (cb_load_env_defaults s) = (sc, s2)" by force
  obtain r3 resp s3 where rl: "retry_loop (max_retries (g_cb s2)) 0 (service_url ctx) ?p
      (timeout_seconds ctx) (- 1) [] s2 = (r3, resp, s3)" by (metis prod_cases3)
  note g = guarded_request [OF sc rl assms(3)]
  note f = cb_short_frame [OF sc]
  have ok: "status_ok resp" if "r3 = 0" by (rule g(10) [OF that clearing_payload_ok]) simp
  show ?thesis
  proof (cases sc)
    case True
    with assms sc f g(1) show ?thesis
      by (auto simp: clearing_participant_prepare_def request_outcome_def Let_def with_metrics_def)
  next
    case False
    have e: "(r, s') = (if r3 \<noteq> 0 then (- 1, clog2 ''ERROR'' tid ''Clearing PREPARE failed'' (cb_on_result (r3 = 0) s3))
       else (0, clog2 ''INFO'' tid ''Authorization hold placed''
           ((cb_on_result (r3 = 0) s3)\<lparr>clearing_ctxs := (clearing_ctxs s)(a \<mapsto> ctx\<lparr>has_hold := True\<rparr>)\<rparr>)))"
      using False assms sc rl ok g(3)
      by (auto simp: clearing_participant_prepare_def Let_def)
    then show ?thesis
      using False g(1,3,4,8,9) by (auto simp: request_outcome_def Let_def split: if_splits)
  qed
qed

lemma clearing_commit_spec:
  assumes "clearing_ctxs s a = Some ctx" and "cl_txn_id ctx = tid" and "has_hold ctx"
    and "0 \<le> max_retries (cb_now s)"
    and "clearing_participant_commit (Some a) (Some tid) s = (r, s')"
  shows "request_outcome ''commit'' tid ctx r s s' \<and>
    clearing_ctxs s' = (if r = 0 then (clearing_ctxs s)(a \<mapsto> ctx\<lparr>has_hold := False, cl_txn_id := []\<rparr>)
                        else clearing_ctxs s)"
proof -
  let ?p = "clearing_payload ''commit'' tid ctx"
  obtain sc s2 where sc: "cb_should_short_circuit (cb_load_env_defaults s) = (sc, s2)" by force
  obtain r3 resp s3 where rl: "retry_loop (max_retries (g_cb s2)) 0 (service_url ctx) ?p
      (timeout_seconds ctx) (- 1) [] s2 = (r3, resp, s3)" by (metis prod_cases3)
  note g = guarded_request [OF sc rl assms(4)]
  note f = cb_short_frame [OF sc]
  have ok: "status_ok resp" if "r3 = 0" by (rule g(10) [OF that clearing_payload_ok]) simp
  show ?thesis
  proof (cases sc)
    case True
    with assms sc f g(1) show ?thesis
      by (auto simp: clearing_participant_commit_def request_outcome_def Let_def with_metrics_def)
  next
    case False
    have e: "(r, s') = (if r3 \<noteq> 0 then (- 1, clog2 ''ERROR'' tid ''Clearing COMMIT failed'' (cb_on_result (r3 = 0) s3))
       else (0, clog2 ''INFO'' tid ''Transaction settled''
           ((cb_on_result (r3 = 0) s3)\<lparr>clearing_ctxs := (clearing_ctxs s)(a \<mapsto> ctx\<lparr>has_hold := False, cl_txn_id := []\<rparr>)\<rparr>)))"
      using False assms sc rl ok g(3)
      by (auto simp: clearing_participant_commit_def Let_def)
    then show ?thesis
      using False g(1,3,4,8,9) by (auto simp: request_outcome_def Let_def split: if_splits)
  qed
qed

text \<open>
  C19. PREPARE and COMMIT of the clearing participant on a live context set up for the transaction
  (COMMIT: with its hold in place). The callback returns 0 exactly when the breaker lets it
  through and one of the \<open>max_retries + 1\<close> attempts gets an answer, so that a prepared hold, and a
  settled one, always rests on an acknowledged request; it sends one request per attempt up to the
  first that succeeds and none when the breaker is open; a failure leaves every context as it was.
\<close>

theorem clearing_prepare_commit_outcome:
  assumes "clearing_ctxs s a = Some ctx" and "cl_txn_id ctx = tid" and "0 \<le> max_retries (cb_now s)"
  shows "(\<forall>r s'. clearing_participant_prepare (Some a) (Some tid) s = (r, s') \<longrightarrow>
      request_outcome ''prepare'' tid ctx r s s' \<and>
      clearing_ctxs s' = (if r = 0 then (clearing_ctxs s)(a \<mapsto> ctx\<lparr>has_hold := True\<rparr>) else clearing_ctxs s)) \<and>
    (\<forall>r s'. has_hold ctx \<and> clearing_participant_commit (Some a) (Some tid) s = (r, s') \<longrightarrow>
      request_outcome ''commit'' tid ctx r s s' \<and>
      clearing_ctxs s' = (if r = 0 then (clearing_ctxs s)(a \<mapsto> ctx\<lparr>has_hold := False, cl_txn_id := []\<rparr>)
                          else clearing_ctxs s))"
  using clearing_prepare_spec [OF assms] clearing_commit_spec [OF assms(1,2) _ assms(3)] by blast

lemma clearing_abort_spec:
  assumes "clearing_ctxs s a = Some ctx"
    and "clearing_participant_abort (Some a) (Some tid) s = (r, s')"
  shows "r = 0 \<and>
    clearing_ctxs s' = (clearing_ctxs s)(a \<mapsto> ctx\<lparr>has_hold := False, cl_txn_id := []\<rparr>) \<and>
    (\<exists>q. reqs (trace s') = reqs (trace s) @ [(clearing_payload ''abort'' tid ctx, q)]) \<and>
    metrics s' = metrics s \<and> allocs s' = allocs s \<and> alloc_src s' = alloc_src s \<and> csys.more s' = csys.more s"
proof -
  define s1 where "s1 = (if \<not> has_hold ctx \<or> cl_txn_id ctx \<noteq> tid
    then clog2 ''INFO'' tid ''No local hold; sending idempotent abort'' s else s)"
  obtain q resp s2 where sim: "simulate_clearing_request (service_url ctx) ''POST''
    (clearing_payload ''abort'' tid ctx) [] 256 (timeout_seconds ctx) s1 = (q, resp, s2)"
    by (metis prod_cases3)
  note f = simulate_frame [OF sim]
  have s1: "clearing_ctxs s1 = clearing_ctxs s" "reqs (trace s1) = reqs (trace s)"
    "metrics s1 = metrics s" "allocs s1 = allocs s" "alloc_src s1 = alloc_src s"
    "csys.more s1 = csys.more s"
    by (simp_all add: s1_def)
  have c2: "clearing_ctxs s2 = clearing_ctxs s" using f(1) s1(1) by (simp add: same_clearing_def)
  have "s' = (if q = 0 \<and> status_ok resp then clog2 ''INFO'' tid ''Authorization hold released'' s2
       else clog2 ''WARN'' tid ''Hold release failed (may timeout naturally)'' s2)
      \<lparr>clearing_ctxs := (clearing_ctxs s)(a \<mapsto> ctx\<lparr>has_hold := False, cl_txn_id := []\<rparr>)\<rparr>" and "r = 0"
    using assms sim c2 by (auto simp: clearing_participant_abort_def s1_def Let_def)
  then show ?thesis
    using f(1,2) s1 by (auto simp: same_clearing_def)
qed

text \<open>
  Aborting never fails and never leaves a hold: on a live context \<open>clearing_participant_abort\<close>
  sends exactly one abort request for the transaction, clears the hold and the identifier whatever
  the service answers, changes no other context and returns 0; and \<open>clearing_participant_destroy\<close>
  frees the context, after one such abort request for the recorded transaction exactly when a hold
  is still in place.
\<close>

theorem clearing_abort_destroy:
  assumes "clearing_ctxs s a = Some ctx"
  shows "(\<exists>s' q. clearing_participant_abort (Some a) (Some tid) s = (0, s') \<and>
      clearing_ctxs s' = (clearing_ctxs s)(a \<mapsto> ctx\<lparr>has_hold := False, cl_txn_id := []\<rparr>) \<and>
      reqs (trace s') = reqs (trace s) @ [(clearing_payload ''abort'' tid ctx, q)]) \<and>
    clearing_ctxs (clearing_participant_destroy (Some a) s) = (clearing_ctxs s)(a := None) \<and>
    (\<exists>q. reqs (trace (clearing_participant_destroy (Some a) s)) =
      reqs (trace s) @ (if has_hold ctx then [(clearing_payload ''abort'' (cl_txn_id ctx) ctx, q)] else []))"
proof -
  have ab: "\<exists>s' q. clearing_participant_abort (Some a) (Some t) s = (0, s') \<and>
      clearing_ctxs s' = (clearing_ctxs s)(a \<mapsto> ctx\<lparr>has_hold := False, cl_txn_id := []\<rparr>) \<and>
      reqs (trace s') = reqs (trace s) @ [(clearing_payload ''abort'' t ctx, q)]" for t
    using clearing_abort_spec [OF assms, of t] by (metis surj_pair)
  from ab [of "cl_txn_id ctx"] obtain s' q where
    "clearing_participant_abort (Some a) (Some (cl_txn_id ctx)) s = (0, s')"
    "clearing_ctxs s' = (clearing_ctxs s)(a \<mapsto> ctx\<lparr>has_hold := False, cl_txn_id := []\<rparr>)"
    "reqs (trace s') = reqs (trace s) @ [(clearing_payload ''abort'' (cl_txn_id ctx) ctx, q)]"
    by blast
  then have "clearing_ctxs (clearing_participant_destroy (Some a) s) = (clearing_ctxs s)(a := None)"
    "\<exists>q. reqs (trace (clearing_participant_destroy (Some a) s)) =
      reqs (trace s) @ (if has_hold ctx then [(clearing_payload ''abort'' (cl_txn_id ctx) ctx, q)] else [])"
    using assms by (auto simp: clearing_participant_destroy_def Let_def)
  with ab [of tid] show ?thesis by blast
qed

definition demo_ctx :: clearing_ctx where
  "demo_ctx = \<lparr>service_url = ''http://c'', timeout_seconds = 30, cl_txn_id = ''t1'', has_hold = False,
     pan_masked = ''411111******1111'', amount = ''12.50'', merchant_id = ''MERCHANT001''\<rparr>"

definition demo_csys :: "clearing_ctx \<Rightarrow> csys" where
  "demo_csys c = \<lparr>env_src = (\<lambda>_. None), time_src = (\<lambda>n. 1000 + int n), time_calls = 0,
     rand_src = (\<lambda>n. if n = 1 then 3 else 50), rand_calls = 0, alloc_src = (\<lambda>_. True), allocs = 10,
     trace = [], metrics = metrics_zero, g_cb = g_cb_init, cb_loaded = False,
     clearing_ctxs = [7 \<mapsto> c]\<rparr>"

lemma demo_csys_breaker: "\<not> refused (demo_csys c)" "tries (demo_csys c) = 3"
    "max_retries (cb_now (demo_csys c)) = 2"
  by (simp_all add: refused_def tries_def cb_now_def cb_load_env_defaults_def Let_def env_get_int_def
      demo_csys_def g_cb_init_def cb_check_def)

text \<open>Witness of C19: the first attempt fails, the second places the hold.\<close>

theorem clearing_prepare_commit_outcome_witness:
  "\<exists>s'. clearing_participant_prepare (Some 7) (Some ''t1'') (demo_csys demo_ctx) = (0, s') \<and>
     clearing_ctxs s' = [7 \<mapsto> demo_ctx\<lparr>has_hold := True\<rparr>] \<and> length (reqs (trace s')) = 2"
proof -
  let ?s = "demo_csys demo_ctx"
  have c: "clearing_ctxs ?s 7 = Some demo_ctx" "cl_txn_id demo_ctx = ''t1''"
    "0 \<le> max_retries (cb_now ?s)"
    by (simp_all add: demo_csys_breaker) (simp_all add: demo_csys_def demo_ctx_def)
  obtain r s' where p: "clearing_participant_prepare (Some 7) (Some ''t1'') ?s = (r, s')" by force
  have a: "attempt_fails ?s 0" "\<not> attempt_fails ?s 1"
    by (simp_all add: attempt_fails_def demo_csys_def)
  then have "\<exists>i < tries ?s. \<not> attempt_fails ?s i"
    unfolding demo_csys_breaker by (intro exI [of _ 1]) simp
  moreover have "first_success ?s (tries ?s) = 1"
    using a unfolding demo_csys_breaker by (simp add: first_success_def upt_conv_Cons)
  ultimately show ?thesis
    using clearing_prepare_commit_outcome [OF c] p
    by (auto simp: request_outcome_def Let_def demo_csys_breaker) (simp_all add: demo_csys_def)
qed

text \<open>A concrete instance: a context with a hold.\<close>

theorem clearing_abort_destroy_witness:
  "\<exists>q. reqs (trace (clearing_participant_destroy (Some 7) (demo_csys (demo_ctx\<lparr>has_hold := True\<rparr>)))) =
     [(clearing_payload ''abort'' ''t1'' (demo_ctx\<lparr>has_hold := True\<rparr>), q)]"
proof -
  let ?c = "demo_ctx\<lparr>has_hold := True\<rparr>"
  have "clearing_ctxs (demo_csys ?c) 7 = Some ?c" by (simp add: demo_csys_def)
  from clearing_abort_destroy [OF this] show ?thesis
    by (simp add: demo_ctx_def) (simp add: demo_csys_def)
qed

end
