(* ===== verification/Db.thy ===== *)
theory Db
  imports Clearing
begin

section \<open>The database layer (server/db.c)\<close>

text \<open>
  The wrapper around libpq. libpq and the server behind it are not part of the sources: they are the
  record \<open>pq\<close> of functions over a state of type \<open>'g\<close>, an argument of every definition that uses
  them. \<open>PQexec\<close> and \<open>PQexecParams\<close> return \<^const>\<open>None\<close> for a null result. \<open>DBConnection\<close>
  objects live in \<open>db_conns\<close> (they are freed only when their thread ends; the statements treat an
  address without an object like one without a handle); \<open>db_tls\<close> is the calling thread's slot of the thread-specific key.
  The mutex of a connection is not modelled (each operation holds it from its first to its last
  use of the connection), nor are the messages to \<open>stderr\<close>.
\<close>

datatype exec_status = PGRES_COMMAND_OK | PGRES_TUPLES_OK | PGRES_FATAL_ERROR

record pgresult =
  result_status :: exec_status
  tuples :: "string list list"

record 'g pq =
  pq_connectdb :: "string \<Rightarrow> 'g \<Rightarrow> nat option \<times> 'g"
  pq_conn_ok :: "nat \<Rightarrow> 'g \<Rightarrow> bool"
  pq_finish :: "nat \<Rightarrow> 'g \<Rightarrow> 'g"
  pq_exec :: "pgptr \<Rightarrow> string \<Rightarrow> 'g \<Rightarrow> pgresult option \<times> 'g"
  pq_exec_params :: "pgptr \<Rightarrow> string \<Rightarrow> string list \<Rightarrow> 'g \<Rightarrow> pgresult option \<times> 'g"

record dbconn =
  conn :: "nat option"
  uri :: "string option"

record db_ctx =
  dbc :: nat
  db_txn_id :: string
  in_transaction :: bool

record 'g dsys = csys +
  pg :: 'g
  db_conns :: "nat \<Rightarrow> dbconn option"
  db_tls :: "nat option"
  db_ctxs :: "nat \<Rightarrow> db_ctx option"

definition PQresultStatus :: "pgresult option \<Rightarrow> exec_status" where
  \<comment> \<open>a null result counts as a fatal error\<close>
  "PQresultStatus res = (case res of None \<Rightarrow> PGRES_FATAL_ERROR | Some r \<Rightarrow> result_status r)"

definition PQgetvalue :: "pgresult \<Rightarrow> nat \<Rightarrow> nat \<Rightarrow> string" where
  "PQgetvalue r i j =
     (if i < length (tuples r) \<and> j < length (tuples r ! i) then tuples r ! i ! j else [])"

definition PQexec :: "'g pq \<Rightarrow> pgptr \<Rightarrow> string \<Rightarrow> ('g, 'a) dsys_scheme \<Rightarrow> pgresult option \<times> ('g, 'a) dsys_scheme" where
  "PQexec pq c cmd s =
     (let (res, g) = pq_exec pq c cmd (pg s) in (res, emit (Sql c cmd []) (s\<lparr>pg := g\<rparr>)))"

definition PQexecParams ::
    "'g pq \<Rightarrow> pgptr \<Rightarrow> string \<Rightarrow> string list \<Rightarrow> ('g, 'a) dsys_scheme \<Rightarrow> pgresult option \<times> ('g, 'a) dsys_scheme" where
  "PQexecParams pq c cmd vs s =
     (let (res, g) = pq_exec_params pq c cmd vs (pg s) in (res, emit (Sql c cmd vs) (s\<lparr>pg := g\<rparr>)))"

subsection \<open>Connections\<close>

definition db_connect :: "'g pq \<Rightarrow> string \<Rightarrow> ('g, 'a) dsys_scheme \<Rightarrow> nat option \<times> ('g, 'a) dsys_scheme" where
  "db_connect pq u s =
     (case malloc s of
        (None, s) \<Rightarrow> (None, s)
      | (Some a, s) \<Rightarrow>
          let (c, g) = pq_connectdb pq u (pg s); s = s\<lparr>pg := g\<rparr> in
          (case c of
             None \<Rightarrow> (None, s)
           | Some n \<Rightarrow>
               if \<not> pq_conn_ok pq n (pg s) then (None, s\<lparr>pg := pq_finish pq n (pg s)\<rparr>)
               else
                 let (d, s) = malloc s;
                     k = \<lparr>conn = Some n, uri = (case d of None \<Rightarrow> None | Some _ \<Rightarrow> Some u)\<rparr>
                 in (Some a, s\<lparr>db_conns := (db_conns s)(a \<mapsto> k)\<rparr>)))"

definition db_fault :: "string \<Rightarrow> nat \<Rightarrow> 'a sys_scheme \<Rightarrow> 'a sys_scheme" where
  "db_fault k a s = emit (Fault k a) s"

definition db_disconnect :: "'g pq \<Rightarrow> nat option \<Rightarrow> ('g, 'a) dsys_scheme \<Rightarrow> ('g, 'a) dsys_scheme" where
  "db_disconnect pq d s =
     (case d of
        None \<Rightarrow> s
      | Some a \<Rightarrow>
          (case db_conns s a of
             None \<Rightarrow> db_fault ''DBConnection'' a s
           | Some k \<Rightarrow>
               let s = (case conn k of None \<Rightarrow> s | Some n \<Rightarrow> s\<lparr>pg := pq_finish pq n (pg s)\<rparr>)
               in s\<lparr>db_conns := (db_conns s)(a := None)\<rparr>))"

definition db_tls_destructor :: "'g pq \<Rightarrow> ('g, 'a) dsys_scheme \<Rightarrow> ('g, 'a) dsys_scheme" where
  \<comment> \<open>run at thread exit with the value of the thread's slot, which is reset first\<close>
  "db_tls_destructor pq s =
     (case db_tls s of None \<Rightarrow> s | Some a \<Rightarrow> db_disconnect pq (Some a) (s\<lparr>db_tls := None\<rparr>))"

definition db_thread_get ::
    "'g pq \<Rightarrow> nat option \<Rightarrow> ('g, 'a) dsys_scheme \<Rightarrow> nat option \<times> ('g, 'a) dsys_scheme" where
  "db_thread_get pq bootstrap s =
     (case bootstrap of
        None \<Rightarrow> (None, s)
      | Some b \<Rightarrow>
          (case db_conns s b of
             None \<Rightarrow> (bootstrap, db_fault ''DBConnection'' b s)
           | Some k \<Rightarrow>
               (case uri k of
                  None \<Rightarrow> (bootstrap, s)
                | Some u \<Rightarrow>
                    (case db_tls s of
                       Some local \<Rightarrow> (Some local, s)
                     | None \<Rightarrow>
                         (case db_connect pq u s of
                            (None, s) \<Rightarrow> (bootstrap, s)
                          | (Some local, s) \<Rightarrow> (Some local, s\<lparr>db_tls := Some local\<rparr>))))))"

definition db_is_ready :: "'g pq \<Rightarrow> nat option \<Rightarrow> ('g, 'a) dsys_scheme \<Rightarrow> bool" where
  "db_is_ready pq d s =
     (case d of
        None \<Rightarrow> False
      | Some a \<Rightarrow>
          (case db_conns s a of
             None \<Rightarrow> False
           | Some k \<Rightarrow> (case conn k of None \<Rightarrow> False | Some n \<Rightarrow> pq_conn_ok pq n (pg s))))"

subsection \<open>Statements\<close>

definition live_conn :: "nat option \<Rightarrow> ('g, 'a) dsys_scheme \<Rightarrow> nat option" where
  \<comment> \<open>the handle behind the guard \<open>!dbc || !dbc->conn\<close>\<close>
  "live_conn d s = (case d of None \<Rightarrow> None | Some a \<Rightarrow> (case db_conns s a of None \<Rightarrow> None | Some k \<Rightarrow> conn k))"

definition sql_insert :: string where
  "sql_insert = ''INSERT INTO transactions (pan_masked, amount, status) VALUES ($1, $2::numeric, $3)''"

definition sql_upsert :: string where
  "sql_upsert = ''INSERT INTO transactions (request_id, pan_masked, amount, status) '' @
     ''VALUES ($1, $2, $3::numeric, $4) '' @
     ''ON CONFLICT (request_id) DO NOTHING RETURNING status''"

definition sql_status :: string where
  "sql_status = ''SELECT status FROM transactions WHERE request_id = $1''"

definition sql_tx :: string where
  "sql_tx = ''SELECT request_id, amount::text, status FROM transactions WHERE request_id=$1 LIMIT 1''"

definition db_insert_transaction ::
    "'g pq \<Rightarrow> nat option \<Rightarrow> string \<Rightarrow> string \<Rightarrow> string \<Rightarrow> ('g, 'a) dsys_scheme \<Rightarrow> int \<times> ('g, 'a) dsys_scheme" where
  "db_insert_transaction pq d pan amt st s =
     (case live_conn d s of
        None \<Rightarrow> (- 1, s)
      | Some n \<Rightarrow>
          let (res, s) = PQexecParams pq (Conn n) sql_insert [pan, amt, st] s in
          (if PQresultStatus res \<noteq> PGRES_COMMAND_OK then - 1 else 0, s))"

definition set_out :: "'b \<Rightarrow> 'b option \<Rightarrow> 'b option" where
  \<comment> \<open>\<open>if (p) *p = v\<close> on an output that may be null\<close>
  "set_out v p = (case p of None \<Rightarrow> None | Some _ \<Rightarrow> Some v)"

definition set_out_str :: "nat \<Rightarrow> string \<Rightarrow> string option \<Rightarrow> string option" where
  \<comment> \<open>\<open>if (out && sz) snprintf(out, sz, "%s", v)\<close>\<close>
  "set_out_str sz v p = (case p of None \<Rightarrow> None | Some x \<Rightarrow> Some (if sz = 0 then x else clip sz v))"

definition db_insert_or_get_by_reqid ::
    "'g pq \<Rightarrow> nat option \<Rightarrow> string option \<Rightarrow> string \<Rightarrow> string \<Rightarrow> string \<Rightarrow> int option \<Rightarrow> string option \<Rightarrow> nat \<Rightarrow>
     ('g, 'a) dsys_scheme \<Rightarrow> int \<times> int option \<times> string option \<times> ('g, 'a) dsys_scheme" where
  \<comment> \<open>result, \<open>*out_is_dup\<close>, \<open>out_status\<close>, state\<close>
  "db_insert_or_get_by_reqid pq d rid pan amt st dup out sz s =
     (case live_conn d s of
        None \<Rightarrow> (- 1, dup, out, s)
      | Some n \<Rightarrow>
          let dup = set_out 0 dup; out = set_out_str sz [] out in
          (case rid of
             Some (c # cs) \<Rightarrow>
               let (res, s) = PQexecParams pq (Conn n) sql_upsert [c # cs, pan, amt, st] s in
               (case res of
                  None \<Rightarrow> (- 1, dup, out, s)
                | Some r \<Rightarrow>
                    if result_status r \<noteq> PGRES_TUPLES_OK then (- 1, dup, out, s)
                    else if length (tuples r) = 1 then (0, dup, set_out_str sz (PQgetvalue r 0 0) out, s)
                    else
                      let (res, s) = PQexecParams pq (Conn n) sql_status [c # cs] s in
                      (case res of
                         None \<Rightarrow> (- 1, dup, out, s)
                       | Some r \<Rightarrow>
                           if result_status r \<noteq> PGRES_TUPLES_OK \<or> length (tuples r) \<noteq> 1 then (- 1, dup, out, s)
                           else (0, set_out 1 dup, set_out_str sz (PQgetvalue r 0 0) out, s)))
           | _ \<Rightarrow>
               let (rc, s) = db_insert_transaction pq d pan amt st s in
               (rc, dup, (if rc = 0 then set_out_str sz st out else out), s)))"

definition tx_json :: "string \<Rightarrow> string \<Rightarrow> string \<Rightarrow> string" where
  "tx_json req amt st =
     ''{\"request_id\":\"'' @ req @ ''\",\"amount\":\"'' @ amt @ ''\",\"status\":\"'' @ st @ ''\"}'' @ [CHR 0x0A]"

definition db_get_tx_by_request_id ::
    "'g pq \<Rightarrow> nat option \<Rightarrow> string option \<Rightarrow> string option \<Rightarrow> nat \<Rightarrow> ('g, 'a) dsys_scheme \<Rightarrow>
     int \<times> string option \<times> ('g, 'a) dsys_scheme" where
  "db_get_tx_by_request_id pq d rid out sz s =
     (case (live_conn d s, rid, out) of
        (Some n, Some (c # cs), Some _) \<Rightarrow>
          if sz = 0 then (- 1, out, s)
          else
            let (res, s) = PQexecParams pq (Conn n) sql_tx [c # cs] s in
            (case res of
               None \<Rightarrow> (- 1, out, s)
             | Some r \<Rightarrow>
                 if result_status r \<noteq> PGRES_TUPLES_OK then (- 1, out, s)
                 else if length (tuples r) \<noteq> 1 then (- 1, out, s)
                 else
                   let j = tx_json (PQgetvalue r 0 0) (PQgetvalue r 0 1) (PQgetvalue r 0 2) in
                   (if length j \<ge> sz then - 1 else 0, Some (clip sz j), s))
      | _ \<Rightarrow> (- 1, out, s))"

subsection \<open>Idempotent insertion\<close>

type_synonym row = "string \<times> string \<times> string"

definition error_result :: "pgresult option \<Rightarrow> bool" where
  "error_result res \<longleftrightarrow> PQresultStatus res = PGRES_FATAL_ERROR"

definition pg_upserts :: "'g pq \<Rightarrow> nat \<Rightarrow> ('g \<Rightarrow> string \<Rightarrow> row option) \<Rightarrow> bool" where
  \<comment> \<open>what PostgreSQL documents of \<open>INSERT ... ON CONFLICT (request_id) DO NOTHING RETURNING status\<close>
      and of the \<open>SELECT\<close>, on the table \<open>tbl\<close> keyed by \<open>request_id\<close>: a statement that fails
      changes nothing\<close>
  "pg_upserts pq n tbl \<longleftrightarrow>
     (\<forall>g rid pan amt st. rid \<noteq> [] \<longrightarrow>
        (let (res, g') = pq_exec_params pq (Conn n) sql_upsert [rid, pan, amt, st] g in
         error_result res \<and> tbl g' = tbl g \<or>
         (if tbl g rid = None
          then res = Some \<lparr>result_status = PGRES_TUPLES_OK, tuples = [[st]]\<rparr> \<and>
               tbl g' = (tbl g)(rid \<mapsto> (pan, amt, st))
          else res = Some \<lparr>result_status = PGRES_TUPLES_OK, tuples = []\<rparr> \<and> tbl g' = tbl g)) \<and>
        (let (res, g') = pq_exec_params pq (Conn n) sql_status [rid] g in
         tbl g' = tbl g \<and>
         (error_result res \<or>
          res = Some \<lparr>result_status = PGRES_TUPLES_OK,
                      tuples = (case tbl g rid of None \<Rightarrow> [] | Some (_, _, st) \<Rightarrow> [[st]])\<rparr>)))"

lemma pg_upserts_insert:
  assumes "pg_upserts pq n tbl" and "rid \<noteq> []"
    and "pq_exec_params pq (Conn n) sql_upsert [rid, pan, amt, st] g = (res, g')"
  shows "error_result res \<and> tbl g' = tbl g \<or>
     tbl g rid = None \<and> res = Some \<lparr>result_status = PGRES_TUPLES_OK, tuples = [[st]]\<rparr> \<and>
       tbl g' = (tbl g)(rid \<mapsto> (pan, amt, st)) \<or>
     tbl g rid \<noteq> None \<and> res = Some \<lparr>result_status = PGRES_TUPLES_OK, tuples = []\<rparr> \<and> tbl g' = tbl g"
proof -
  have "let (res, g') = pq_exec_params pq (Conn n) sql_upsert [rid, pan, amt, st] g in
         error_result res \<and> tbl g' = tbl g \<or>
         (if tbl g rid = None
          then res = Some \<lparr>result_status = PGRES_TUPLES_OK, tuples = [[st]]\<rparr> \<and>
               tbl g' = (tbl g)(rid \<mapsto> (pan, amt, st))
          else res = Some \<lparr>result_status = PGRES_TUPLES_OK, tuples = []\<rparr> \<and> tbl g' = tbl g)"
    using assms(1,2) unfolding pg_upserts_def by blast
  then show ?thesis unfolding assms(3) by (auto split: if_splits)
qed

lemma pg_upserts_select:
  assumes "pg_upserts pq n tbl" and "rid \<noteq> []"
    and "pq_exec_params pq (Conn n) sql_status [rid] g = (res, g')"
  shows "tbl g' = tbl g \<and> (error_result res \<or>
     res = Some \<lparr>result_status = PGRES_TUPLES_OK,
                 tuples = (case tbl g rid of None \<Rightarrow> [] | Some (_, _, st) \<Rightarrow> [[st]])\<rparr>)"
proof -
  have "let (res, g') = pq_exec_params pq (Conn n) sql_status [rid] g in
         tbl g' = tbl g \<and>
         (error_result res \<or>
          res = Some \<lparr>result_status = PGRES_TUPLES_OK,
                      tuples = (case tbl g rid of None \<Rightarrow> [] | Some (_, _, st) \<Rightarrow> [[st]])\<rparr>)"
    using assms(1,2) unfolding pg_upserts_def by blast
  then show ?thesis unfolding assms(3) by simp
qed

lemma pg_simps [simp]:
  "pg (emit e s) = pg s" "pg (s\<lparr>pg := g\<rparr>) = g"
  by (simp_all add: emit_def)

definition insert_spec ::
    "(string \<Rightarrow> row option) \<Rightarrow> string \<Rightarrow> row \<Rightarrow> nat \<Rightarrow> int \<Rightarrow> int option \<Rightarrow> string option \<Rightarrow> (string \<Rightarrow> row option) \<Rightarrow> bool" where
  \<comment> \<open>insert if absent: result \<open>rc\<close>, duplicate flag, status and the table afterwards\<close>
  "insert_spec t rid new sz rc dup out t' \<longleftrightarrow>
     (rc = 0 \<or> rc = - 1) \<and>
     (case t rid of
        Some (_, _, old) \<Rightarrow> t' = t \<and> (rc = 0 \<longrightarrow> dup = Some 1 \<and> out = Some (clip sz old))
      | None \<Rightarrow> if rc = 0 then t' = t(rid \<mapsto> new) \<and> dup = Some 0 \<and> out = Some (clip sz (snd (snd new)))
               else t' = t)"

text \<open>
  C12. With a database that treats the two statements as documented, \<open>db_insert_or_get_by_reqid\<close>
  is insert-if-absent on the table of transactions: a request identifier that is already stored
  keeps its row and, when the call succeeds, is reported as a duplicate with the stored status; a
  new one is stored with the given values and reported as new; a call that fails stores nothing.
\<close>

theorem db_insert_idempotent:
  assumes "live_conn d s = Some n" and "pg_upserts pq n tbl" and "rid \<noteq> []" and "0 < sz"
    and "db_insert_or_get_by_reqid pq d (Some rid) pan amt st (Some dup0) (Some out0) sz s =
      (rc, dup, out, s')"
  shows "insert_spec (tbl (pg s)) rid (pan, amt, st) sz rc dup out (tbl (pg s'))"
proof -
  obtain c cs where rid: "rid = c # cs" using assms(3) by (cases rid) auto
  obtain res g where i: "pq_exec_params pq (Conn n) sql_upsert [rid, pan, amt, st] (pg s) = (res, g)"
    by force
  obtain res2 g2 where q: "pq_exec_params pq (Conn n) sql_status [rid] g = (res2, g2)" by force
  note sel = pg_upserts_select [OF assms(2,3) q]
  from pg_upserts_insert [OF assms(2,3) i] show ?thesis
  proof (elim disjE conjE)
    assume "error_result res" "tbl g = tbl (pg s)"
    then show ?thesis
      using assms i by (auto simp: rid db_insert_or_get_by_reqid_def PQexecParams_def Let_def
          error_result_def PQresultStatus_def insert_spec_def split: option.splits if_splits)
  next
    assume "tbl (pg s) rid = None" "res = Some \<lparr>result_status = PGRES_TUPLES_OK, tuples = [[st]]\<rparr>"
      "tbl g = (tbl (pg s))(rid \<mapsto> (pan, amt, st))"
    then show ?thesis
      using assms i by (auto simp: rid db_insert_or_get_by_reqid_def PQexecParams_def Let_def
          PQgetvalue_def set_out_def set_out_str_def insert_spec_def)
  next
    assume k: "tbl (pg s) rid \<noteq> None" "res = Some \<lparr>result_status = PGRES_TUPLES_OK, tuples = []\<rparr>"
      "tbl g = tbl (pg s)"
    then obtain p a old where row: "tbl (pg s) rid = Some (p, a, old)" by auto
    have "(rc, dup, out, s') = (if error_result res2 then (- 1, Some 0, Some (clip sz []), s')
        else (0, Some 1, Some (clip sz old), s')) \<and> pg s' = g2"
      using assms i q sel k row
      by (auto simp: rid db_insert_or_get_by_reqid_def PQexecParams_def Let_def error_result_def
          PQresultStatus_def PQgetvalue_def set_out_def set_out_str_def split: option.splits if_splits)
    then show ?thesis
      using sel k(3) row by (auto simp: insert_spec_def split: if_splits)
  qed
qed

definition demo_pq :: "(string \<Rightarrow> row option) pq" where
  "demo_pq = \<lparr>pq_connectdb = (\<lambda>_ g. (Some 1, g)), pq_conn_ok = (\<lambda>_ _. True), pq_finish = (\<lambda>_ g. g),
     pq_exec = (\<lambda>_ _ g. (Some \<lparr>result_status = PGRES_COMMAND_OK, tuples = []\<rparr>, g)),
     pq_exec_params = (\<lambda>_ cmd vs g.
       if cmd = sql_upsert \<and> length vs = 4 then
         (case g (vs ! 0) of
            None \<Rightarrow> (Some \<lparr>result_status = PGRES_TUPLES_OK, tuples = [[vs ! 3]]\<rparr>,
                     g(vs ! 0 \<mapsto> (vs ! 1, vs ! 2, vs ! 3)))
          | Some _ \<Rightarrow> (Some \<lparr>result_status = PGRES_TUPLES_OK, tuples = []\<rparr>, g))
       else if cmd = sql_status \<and> length vs = 1 then
         (Some \<lparr>result_status = PGRES_TUPLES_OK,
               tuples = (case g (vs ! 0) of None \<Rightarrow> [] | Some (_, _, st) \<Rightarrow> [[st]])\<rparr>, g)
       else (None, g))\<rparr>"

definition demo_dsys :: "(string \<Rightarrow> row option) \<Rightarrow> (string \<Rightarrow> row option) dsys" where
  "demo_dsys g = \<lparr>env_src = (\<lambda>_. None), time_src = (\<lambda>n. 1000 + int n), time_calls = 0,
     rand_src = (\<lambda>_. 50), rand_calls = 0, alloc_src = (\<lambda>_. True), allocs = 10,
     trace = [], metrics = metrics_zero, g_cb = g_cb_init, cb_loaded = False,
     clearing_ctxs = Map.empty, pg = g, db_conns = [3 \<mapsto> \<lparr>conn = Some 1, uri = Some ''u''\<rparr>],
     db_tls = Some 3, db_ctxs = Map.empty\<rparr>"

text \<open>Witness of C12: the second of two insertions with one identifier keeps the first row.\<close>

theorem db_insert_idempotent_witness:
  "\<exists>rc dup out s'.
     db_insert_or_get_by_reqid demo_pq (Some 3) (Some ''r1'') ''p'' ''9'' ''APPROVED'' (Some 0) (Some []) 32
       (demo_dsys [''r1'' \<mapsto> (''q'', ''8'', ''HELD'')]) = (rc, dup, out, s') \<and>
     insert_spec [''r1'' \<mapsto> (''q'', ''8'', ''HELD'')] ''r1'' (''p'', ''9'', ''APPROVED'') 32 rc dup out (pg s')"
proof -
  let ?s = "demo_dsys [''r1'' \<mapsto> (''q'', ''8'', ''HELD'')]"
  obtain rc dup out s' where e: "db_insert_or_get_by_reqid demo_pq (Some 3) (Some ''r1'') ''p'' ''9''
      ''APPROVED'' (Some 0) (Some []) 32 ?s = (rc, dup, out, s')"
    by (metis prod_cases4)
  have l: "live_conn (Some 3) ?s = Some 1" by (simp add: live_conn_def demo_dsys_def)
  have "sql_upsert \<noteq> sql_status" by (simp add: sql_upsert_def sql_status_def)
  then have u: "pg_upserts demo_pq 1 (\<lambda>g. g)"
    by (auto simp: pg_upserts_def demo_pq_def split: option.split)
  from db_insert_idempotent [OF l u _ _ e] e show ?thesis by (simp add: demo_dsys_def)
qed

text \<open>
  Every thread works on one connection of its own: once \<open>db_thread_get\<close> has opened it, later calls
  return it and open no other.
\<close>

lemma db_thread_get_stable:
  assumes "db_thread_get pq (Some b) s = (Some c, s1)" and "c \<noteq> b"
  shows "db_tls s1 = Some c" and "db_conns s b \<noteq> None"
    and "db_conns s1 b \<noteq> None \<Longrightarrow> uri (the (db_conns s1 b)) \<noteq> None \<Longrightarrow>
         db_thread_get pq (Some b) s1 = (Some c, s1)"
  using assms by (auto simp: db_thread_get_def split: option.splits prod.splits)

end
