(* ===== verification/Db_participant.thy ===== *)
theory Db_participant
  imports Db
begin

section \<open>The database participant (server/db_participant.c)\<close>

text \<open>
  The participant that runs the transaction's INSERT inside a PostgreSQL transaction and takes it
  through \<open>PREPARE TRANSACTION\<close>, \<open>COMMIT PREPARED\<close> and the two forms of rollback. Its contexts
  live in \<open>db_ctxs\<close>. The sources cast the \<open>DBConnection *\<close> of the context to a \<open>PGconn *\<close>; the
  model passes that pointer as \<open>Cast_dbc\<close>, a pointer libpq never returned, and leaves to the
  parameter \<open>pq\<close> what libpq does with it.
\<close>

definition dlog :: "string \<Rightarrow> string option \<Rightarrow> string \<Rightarrow> 'a sys_scheme \<Rightarrow> 'a sys_scheme" where
  "dlog lvl tid msg s = logj lvl ''db_participant'' tid msg s"

definition put_db_ctx :: "nat \<Rightarrow> db_ctx \<Rightarrow> ('g, 'a) dsys_scheme \<Rightarrow> ('g, 'a) dsys_scheme" where
  "put_db_ctx a c s = s\<lparr>db_ctxs := (db_ctxs s)(a \<mapsto> c)\<rparr>"

definition db_participant_init :: "nat option \<Rightarrow> ('g, 'a) dsys_scheme \<Rightarrow> nat option \<times> ('g, 'a) dsys_scheme" where
  "db_participant_init d s =
     (case d of
        None \<Rightarrow> (None, s)
      | Some x \<Rightarrow>
          (case malloc s of
             (None, s) \<Rightarrow> (None, s)
           | (Some a, s) \<Rightarrow> (Some a, put_db_ctx a \<lparr>dbc = x, db_txn_id = [], in_transaction = False\<rparr> s)))"

definition db_participant_begin ::
    "'g pq \<Rightarrow> nat option \<Rightarrow> string option \<Rightarrow> ('g, 'a) dsys_scheme \<Rightarrow> int \<times> ('g, 'a) dsys_scheme" where
  "db_participant_begin pq ctx txn_id s =
     (case (ctx, txn_id) of
        (Some a, Some tid) \<Rightarrow>
          (case db_ctxs s a of
             None \<Rightarrow> (- 1, db_fault ''db_ctx'' a s)
           | Some c \<Rightarrow>
               if in_transaction c then (- 1, dlog ''ERROR'' txn_id ''Already in transaction'' s)
               else
                 let (res, s) = PQexec pq (Cast_dbc (dbc c)) ''BEGIN'' s in
                 if PQresultStatus res \<noteq> PGRES_COMMAND_OK
                 then (- 1, dlog ''ERROR'' txn_id ''Failed to begin transaction'' s)
                 else
                   let s = put_db_ctx a (c\<lparr>db_txn_id := clip MAX_TRANSACTION_ID_LEN tid, in_transaction := True\<rparr>) s
                   in (0, dlog ''INFO'' txn_id ''Transaction started'' s))
      | _ \<Rightarrow> (- 1, s))"

definition db_participant_insert_transaction ::
    "'g pq \<Rightarrow> nat option \<Rightarrow> string option \<Rightarrow> string \<Rightarrow> string \<Rightarrow> string \<Rightarrow> int option \<Rightarrow> string option \<Rightarrow> nat \<Rightarrow>
     ('g, 'a) dsys_scheme \<Rightarrow> int \<times> int option \<times> string option \<times> ('g, 'a) dsys_scheme" where
  "db_participant_insert_transaction pq ctx rid pan amt st dup out sz s =
     (case ctx of
        None \<Rightarrow> (- 1, dup, out, dlog ''ERROR'' None ''Not in transaction'' s)
      | Some a \<Rightarrow>
          (case db_ctxs s a of
             None \<Rightarrow> (- 1, dup, out, db_fault ''db_ctx'' a s)
           | Some c \<Rightarrow>
               if \<not> in_transaction c
               then (- 1, dup, out, dlog ''ERROR'' (Some (db_txn_id c)) ''Not in transaction'' s)
               else db_insert_or_get_by_reqid pq (Some (dbc c)) rid pan amt st dup out sz s))"

definition prepare_cmd :: "string \<Rightarrow> string" where
  "prepare_cmd tid = clip 256 (''PREPARE TRANSACTION '' @ [CHR 0x27] @ ''visa_'' @ tid @ [CHR 0x27])"

definition commit_cmd :: "string \<Rightarrow> string" where
  "commit_cmd tid = clip 256 (''COMMIT PREPARED '' @ [CHR 0x27] @ ''visa_'' @ tid @ [CHR 0x27])"

definition rollback_cmd :: "string \<Rightarrow> string" where
  "rollback_cmd tid = clip 256 (''ROLLBACK PREPARED '' @ [CHR 0x27] @ ''visa_'' @ tid @ [CHR 0x27])"

definition db_participant_prepare ::
    "'g pq \<Rightarrow> nat option \<Rightarrow> string option \<Rightarrow> ('g, 'a) dsys_scheme \<Rightarrow> int \<times> ('g, 'a) dsys_scheme" where
  "db_participant_prepare pq ctx txn_id s =
     (case (ctx, txn_id) of
        (Some a, Some tid) \<Rightarrow>
          (case db_ctxs s a of
             None \<Rightarrow> (- 1, db_fault ''db_ctx'' a s)
           | Some c \<Rightarrow>
               if \<not> in_transaction c \<or> db_txn_id c \<noteq> tid
               then (- 1, dlog ''ERROR'' txn_id ''Transaction mismatch or not active'' s)
               else
                 let (res, s) = PQexec pq (Cast_dbc (dbc c)) (prepare_cmd tid) s in
                 if PQresultStatus res \<noteq> PGRES_COMMAND_OK then (- 1, dlog ''ERROR'' txn_id ''PREPARE failed'' s)
                 else (0, dlog ''INFO'' txn_id ''PREPARE successful'' (put_db_ctx a (c\<lparr>in_transaction := False\<rparr>) s)))
      | _ \<Rightarrow> (- 1, s))"

definition db_participant_commit ::
    "'g pq \<Rightarrow> nat option \<Rightarrow> string option \<Rightarrow> ('g, 'a) dsys_scheme \<Rightarrow> int \<times> ('g, 'a) dsys_scheme" where
  "db_participant_commit pq ctx txn_id s =
     (case (ctx, txn_id) of
        (Some a, Some tid) \<Rightarrow>
          (case db_ctxs s a of
             None \<Rightarrow> (- 1, db_fault ''db_ctx'' a s)
           | Some c \<Rightarrow>
               let (res, s) = PQexec pq (Cast_dbc (dbc c)) (commit_cmd tid) s in
               if PQresultStatus res \<noteq> PGRES_COMMAND_OK
               then (- 1, dlog ''ERROR'' txn_id ''COMMIT PREPARED failed'' s)
               else (0, dlog ''INFO'' txn_id ''COMMIT successful'' (put_db_ctx a (c\<lparr>db_txn_id := []\<rparr>) s)))
      | _ \<Rightarrow> (- 1, s))"

definition db_participant_abort ::
    "'g pq \<Rightarrow> nat option \<Rightarrow> string option \<Rightarrow> ('g, 'a) dsys_scheme \<Rightarrow> int \<times> ('g, 'a) dsys_scheme" where
  "db_participant_abort pq ctx txn_id s =
     (case (ctx, txn_id) of
        (Some a, Some tid) \<Rightarrow>
          (case db_ctxs s a of
             None \<Rightarrow> (- 1, db_fault ''db_ctx'' a s)
           | Some c \<Rightarrow>
               let (res, c, s) =
                     (if in_transaction c \<and> db_txn_id c = tid
                      then let (res, s) = PQexec pq (Cast_dbc (dbc c)) ''ROLLBACK'' s
                           in (res, c\<lparr>in_transaction := False\<rparr>, s)
                      else let (res, s) = PQexec pq (Cast_dbc (dbc c)) (rollback_cmd tid) s in (res, c, s));
                   s = (if PQresultStatus res \<noteq> PGRES_COMMAND_OK
                        then dlog ''WARN'' txn_id ''ROLLBACK failed (may be OK if already rolled back)'' s
                        else dlog ''INFO'' txn_id ''ROLLBACK successful'' s)
               in (0, put_db_ctx a (c\<lparr>db_txn_id := []\<rparr>) s))
      | _ \<Rightarrow> (- 1, s))"

definition db_participant_destroy :: "'g pq \<Rightarrow> nat option \<Rightarrow> ('g, 'a) dsys_scheme \<Rightarrow> ('g, 'a) dsys_scheme" where
  "db_participant_destroy pq ctx s =
     (case ctx of
        None \<Rightarrow> s
      | Some a \<Rightarrow>
          (case db_ctxs s a of
             None \<Rightarrow> db_fault ''db_ctx'' a s
           | Some c \<Rightarrow>
               let s = (if in_transaction c then snd (db_participant_abort pq (Some a) (Some (db_txn_id c)) s) else s)
               in s\<lparr>db_ctxs := (db_ctxs s)(a := None)\<rparr>))"

subsection \<open>Frame facts\<close>

fun sqls :: "event list \<Rightarrow> (pgptr \<times> string) list" where
  \<comment> \<open>the commands given to libpq\<close>
  "sqls [] = []"
| "sqls (Sql c cmd vs # es) = (c, cmd) # sqls es"
| "sqls (_ # es) = sqls es"

lemma sqls_append [simp]: "sqls (es @ fs) = sqls es @ sqls fs"
  by (induction es rule: sqls.induct) simp_all

definition same_db_rest :: "('g, 'a) dsys_scheme \<Rightarrow> ('g, 'a) dsys_scheme \<Rightarrow> bool" where
  \<comment> \<open>a participant operation touches only libpq, its own context and the trace\<close>
  "same_db_rest s s' \<longleftrightarrow> metrics s' = metrics s \<and> allocs s' = allocs s \<and> alloc_src s' = alloc_src s \<and>
     clearing_ctxs s' = clearing_ctxs s \<and> g_cb s' = g_cb s \<and> cb_loaded s' = cb_loaded s \<and>
     db_conns s' = db_conns s \<and> db_tls s' = db_tls s \<and> env_src s' = env_src s \<and>
     time_src s' = time_src s \<and> time_calls s' = time_calls s \<and>
     rand_src s' = rand_src s \<and> rand_calls s' = rand_calls s \<and>
     (\<exists>es. trace s' = trace s @ es \<and> calls es = [] \<and> tlog es = [] \<and> reqs es = [])"

lemma same_db_rest_refl: "same_db_rest s s"
  by (simp add: same_db_rest_def)

lemma PQexec_frame:
  assumes "PQexec pq c cmd s = (res, s')"
  shows "same_db_rest s s'" and "db_ctxs s' = db_ctxs s" and "trace s' = trace s @ [Sql c cmd []]"
  using assms by (auto simp: PQexec_def Let_def emit_def same_db_rest_def split: prod.splits)

lemma dlog_frame [simp]:
  "db_ctxs (dlog l t m s) = db_ctxs s"
  "trace (dlog l t m s) = trace s @ [Log l ''db_participant'' t m (- 1)]"
  by (simp_all add: dlog_def logj_def emit_def)

lemma same_db_rest_step [intro]:
  "same_db_rest s s' \<Longrightarrow> same_db_rest s (dlog l t m s')"
  "same_db_rest s s' \<Longrightarrow> same_db_rest s (put_db_ctx a c s')"
  "same_db_rest s s' \<Longrightarrow> same_db_rest s (db_fault k a s')"
  by (auto simp: same_db_rest_def dlog_def logj_def emit_def put_db_ctx_def db_fault_def)

lemma put_db_ctx_frame [simp]:
  "db_ctxs (put_db_ctx a c s) = (db_ctxs s)(a \<mapsto> c)" "trace (put_db_ctx a c s) = trace s"
  by (simp_all add: put_db_ctx_def)

lemma db_fault_frame [simp]:
  "db_ctxs (db_fault k a s) = db_ctxs s" "trace (db_fault k a s) = trace s @ [Fault k a]"
  by (simp_all add: db_fault_def emit_def)

subsection \<open>The callbacks\<close>

lemma db_begin_spec:
  assumes "db_ctxs s a = Some c" and "db_participant_begin pq (Some a) (Some tid) s = (r, s')"
  shows "same_db_rest s s' \<and> (r = 0 \<or> r = - 1) \<and>
    db_ctxs s' = (if r = 0 then (db_ctxs s)(a \<mapsto> c\<lparr>db_txn_id := clip MAX_TRANSACTION_ID_LEN tid, in_transaction := True\<rparr>)
                  else db_ctxs s) \<and>
    sqls (trace s') = sqls (trace s) @ (if in_transaction c then [] else [(Cast_dbc (dbc c), ''BEGIN'')]) \<and>
    (r = 0 \<longrightarrow> \<not> in_transaction c)"
proof -
  obtain res s1 where q: "PQexec pq (Cast_dbc (dbc c)) ''BEGIN'' s = (res, s1)" by force
  note f = PQexec_frame [OF q]
  show ?thesis
    using assms q f same_db_rest_refl [of s]
    by (auto simp: db_participant_begin_def Let_def split: if_splits)
qed

lemma db_prepare_spec:
  assumes "db_ctxs s a = Some c" and "db_participant_prepare pq (Some a) (Some tid) s = (r, s')"
  shows "same_db_rest s s' \<and> (r = 0 \<or> r = - 1) \<and>
    db_ctxs s' = (if r = 0 then (db_ctxs s)(a \<mapsto> c\<lparr>in_transaction := False\<rparr>) else db_ctxs s) \<and>
    sqls (trace s') = sqls (trace s) @
      (if in_transaction c \<and> db_txn_id c = tid then [(Cast_dbc (dbc c), prepare_cmd tid)] else []) \<and>
    (r = 0 \<longrightarrow> in_transaction c \<and> db_txn_id c = tid)"
proof -
  obtain res s1 where q: "PQexec pq (Cast_dbc (dbc c)) (prepare_cmd tid) s = (res, s1)" by force
  note f = PQexec_frame [OF q]
  show ?thesis
    using assms q f same_db_rest_refl [of s]
    by (auto simp: db_participant_prepare_def Let_def split: if_splits)
qed

lemma db_commit_spec:
  assumes "db_ctxs s a = Some c" and "db_participant_commit pq (Some a) (Some tid) s = (r, s')"
  shows "same_db_rest s s' \<and> (r = 0 \<or> r = - 1) \<and>
    db_ctxs s' = (if r = 0 then (db_ctxs s)(a \<mapsto> c\<lparr>db_txn_id := []\<rparr>) else db_ctxs s) \<and>
    sqls (trace s') = sqls (trace s) @ [(Cast_dbc (dbc c), commit_cmd tid)]"
proof -
  obtain res s1 where q: "PQexec pq (Cast_dbc (dbc c)) (commit_cmd tid) s = (res, s1)" by force
  note f = PQexec_frame [OF q]
  show ?thesis
    using assms q f by (auto simp: db_participant_commit_def Let_def split: if_splits)
qed

lemma db_abort_spec:
  assumes "db_ctxs s a = Some c" and "db_participant_abort pq (Some a) (Some tid) s = (r, s')"
  shows "same_db_rest s s' \<and> r = 0 \<and>
    db_ctxs s' = (db_ctxs s)(a \<mapsto> c\<lparr>db_txn_id := [],
      in_transaction := in_transaction c \<and> db_txn_id c \<noteq> tid\<rparr>) \<and>
    sqls (trace s') = sqls (trace s) @
      [(Cast_dbc (dbc c), if in_transaction c \<and> db_txn_id c = tid then ''ROLLBACK'' else rollback_cmd tid)]"
proof (cases "in_transaction c \<and> db_txn_id c = tid")
  case True
  obtain res s1 where q: "PQexec pq (Cast_dbc (dbc c)) ''ROLLBACK'' s = (res, s1)" by force
  show ?thesis
    using assms q PQexec_frame [OF q] True
    by (auto simp: db_participant_abort_def Let_def split: if_splits)
next
  case False
  obtain res s1 where q: "PQexec pq (Cast_dbc (dbc c)) (rollback_cmd tid) s = (res, s1)" by force
  have "c\<lparr>db_txn_id := [], in_transaction := in_transaction c \<and> db_txn_id c \<noteq> tid\<rparr> = c\<lparr>db_txn_id := []\<rparr>"
    using False by (cases c) auto
  then show ?thesis
    using assms q PQexec_frame [OF q] False
    by (auto simp: db_participant_abort_def Let_def split: if_splits)
qed

subsection \<open>The phases of a context\<close>

datatype db_phase = Idle | Active string | Prepared string

definition phase :: "db_ctx \<Rightarrow> db_phase" where
  "phase c = (if in_transaction c then Active (db_txn_id c)
              else if db_txn_id c = [] then Idle else Prepared (db_txn_id c))"

definition phase_at :: "nat \<Rightarrow> ('g, 'a) dsys_scheme \<Rightarrow> db_phase" where
  "phase_at a s = (case db_ctxs s a of None \<Rightarrow> Idle | Some c \<Rightarrow> phase c)"

lemma cmd_full:
  assumes "length tid < MAX_TRANSACTION_ID_LEN"
  shows "prepare_cmd tid = ''PREPARE TRANSACTION '' @ [CHR 0x27] @ ''visa_'' @ tid @ [CHR 0x27]"
    and "commit_cmd tid = ''COMMIT PREPARED '' @ [CHR 0x27] @ ''visa_'' @ tid @ [CHR 0x27]"
    and "rollback_cmd tid = ''ROLLBACK PREPARED '' @ [CHR 0x27] @ ''visa_'' @ tid @ [CHR 0x27]"
  unfolding prepare_cmd_def commit_cmd_def rollback_cmd_def
  by (rule clip_id; use assms in \<open>simp add: MAX_TRANSACTION_ID_LEN_def\<close>)+

definition sql_step ::
    "nat \<Rightarrow> ('g, 'a) dsys_scheme \<Rightarrow> ('g, 'a) dsys_scheme \<Rightarrow> string list \<Rightarrow> db_phase \<Rightarrow> bool" where
  \<comment> \<open>the step gave these commands to libpq and left the context \<open>a\<close> in this phase\<close>
  "sql_step a s s' cmds ph \<longleftrightarrow>
     map snd (sqls (trace s')) = map snd (sqls (trace s)) @ cmds \<and> phase_at a s' = ph \<and>
     (\<forall>x. x \<noteq> a \<longrightarrow> db_ctxs s' x = db_ctxs s x)"

text \<open>
  C15. The database participant is the state machine Idle, Active, Prepared of PostgreSQL's
  two-phase commit, for an identifier that fits its buffer. BEGIN is sent only when no transaction
  is active and success makes this one active; PREPARE succeeds only from Active of the same
  identifier and sends \<open>PREPARE TRANSACTION\<close>; COMMIT sends \<open>COMMIT PREPARED\<close> with the name that was
  prepared; ABORT always succeeds, sends \<open>ROLLBACK\<close> for the active transaction and
  \<open>ROLLBACK PREPARED\<close> otherwise, and leaves the context idle. A call that fails changes no phase.
\<close>

theorem db_participant_phases:
  assumes "db_ctxs s a = Some c" and "tid \<noteq> []" and "length tid < MAX_TRANSACTION_ID_LEN"
    and "\<forall>t. phase c = Active t \<or> phase c = Prepared t \<longrightarrow> t = tid"
  shows
    "(\<forall>r s'. db_participant_begin pq (Some a) (Some tid) s = (r, s') \<longrightarrow>
       sql_step a s s' (if phase c = Active tid then [] else [''BEGIN''])
         (if r = 0 then Active tid else phase c) \<and> (r = 0 \<longrightarrow> phase c \<noteq> Active tid)) \<and>
     (\<forall>r s'. db_participant_prepare pq (Some a) (Some tid) s = (r, s') \<longrightarrow>
       sql_step a s s' (if phase c = Active tid then [''PREPARE TRANSACTION '' @ [CHR 0x27] @ ''visa_'' @ tid @ [CHR 0x27]] else [])
         (if r = 0 then Prepared tid else phase c) \<and> (r = 0 \<longrightarrow> phase c = Active tid)) \<and>
     (\<forall>r s'. db_participant_commit pq (Some a) (Some tid) s = (r, s') \<longrightarrow>
       sql_step a s s' [''COMMIT PREPARED '' @ [CHR 0x27] @ ''visa_'' @ tid @ [CHR 0x27]]
         (if r = 0 then phase (c\<lparr>db_txn_id := []\<rparr>) else phase c) \<and>
       (phase c \<noteq> Active tid \<and> r = 0 \<longrightarrow> phase_at a s' = Idle)) \<and>
     (\<forall>r s'. db_participant_abort pq (Some a) (Some tid) s = (r, s') \<longrightarrow> r = 0 \<and>
       sql_step a s s' [if phase c = Active tid then ''ROLLBACK''
                        else ''ROLLBACK PREPARED '' @ [CHR 0x27] @ ''visa_'' @ tid @ [CHR 0x27]] Idle)"
proof -
  have ph: "phase c = Active tid \<longleftrightarrow> in_transaction c" "in_transaction c \<Longrightarrow> db_txn_id c = tid"
    "phase_at a s = phase c"
    using assms(1,4) by (auto simp: phase_def phase_at_def split: if_splits)
  have cl: "clip MAX_TRANSACTION_ID_LEN tid = tid" using assms(3) by (rule clip_id)
  note k = cmd_full [OF assms(3)]
  note d = sql_step_def phase_at_def phase_def
  have b: "\<forall>r s'. db_participant_begin pq (Some a) (Some tid) s = (r, s') \<longrightarrow>
       sql_step a s s' (if phase c = Active tid then [] else [''BEGIN''])
         (if r = 0 then Active tid else phase c) \<and> (r = 0 \<longrightarrow> phase c \<noteq> Active tid)"
    using assms(1,2) db_begin_spec [OF assms(1), of pq tid] cl by (auto simp: ph d)
  have p: "\<forall>r s'. db_participant_prepare pq (Some a) (Some tid) s = (r, s') \<longrightarrow>
       sql_step a s s' (if phase c = Active tid then [''PREPARE TRANSACTION '' @ [CHR 0x27] @ ''visa_'' @ tid @ [CHR 0x27]] else [])
         (if r = 0 then Prepared tid else phase c) \<and> (r = 0 \<longrightarrow> phase c = Active tid)"
    using assms(1,2) db_prepare_spec [OF assms(1), of pq tid] ph(2) by (auto simp: ph d k(1))
  have c: "\<forall>r s'. db_participant_commit pq (Some a) (Some tid) s = (r, s') \<longrightarrow>
       sql_step a s s' [''COMMIT PREPARED '' @ [CHR 0x27] @ ''visa_'' @ tid @ [CHR 0x27]]
         (if r = 0 then phase (c\<lparr>db_txn_id := []\<rparr>) else phase c) \<and>
       (phase c \<noteq> Active tid \<and> r = 0 \<longrightarrow> phase_at a s' = Idle)"
    using assms(1) db_commit_spec [OF assms(1), of pq tid] by (auto simp: ph d k(2))
  have a: "\<forall>r s'. db_participant_abort pq (Some a) (Some tid) s = (r, s') \<longrightarrow> r = 0 \<and>
       sql_step a s s' [if phase c = Active tid then ''ROLLBACK''
                        else ''ROLLBACK PREPARED '' @ [CHR 0x27] @ ''visa_'' @ tid @ [CHR 0x27]] Idle"
    using assms(1) db_abort_spec [OF assms(1), of pq tid] ph(2) by (auto simp: ph d k(3))
  from b p c a show ?thesis by blast
qed


definition demo_db_ctx :: db_ctx where
  "demo_db_ctx = \<lparr>dbc = 3, db_txn_id = ''t1'', in_transaction = True\<rparr>"

text \<open>Witness of C15: aborting an active transaction rolls it back.\<close>

theorem db_participant_phases_witness:
  "\<exists>s'. db_participant_abort demo_pq (Some 7) (Some ''t1'') ((demo_dsys Map.empty)\<lparr>db_ctxs := [7 \<mapsto> demo_db_ctx]\<rparr>) = (0, s') \<and>
     map snd (sqls (trace s')) = [''ROLLBACK''] \<and> phase_at 7 s' = Idle"
proof -
  let ?s = "(demo_dsys Map.empty)\<lparr>db_ctxs := [7 \<mapsto> demo_db_ctx]\<rparr>"
  have c: "db_ctxs ?s 7 = Some demo_db_ctx" "''t1'' \<noteq> []" "length ''t1'' < MAX_TRANSACTION_ID_LEN"
    "\<forall>t. phase demo_db_ctx = Active t \<or> phase demo_db_ctx = Prepared t \<longrightarrow> t = ''t1''"
    by (simp_all add: MAX_TRANSACTION_ID_LEN_def phase_def demo_db_ctx_def)
  obtain r s' where e: "db_participant_abort demo_pq (Some 7) (Some ''t1'') ?s = (r, s')" by force
  have "trace ?s = []" "phase demo_db_ctx = Active ''t1''"
    by (simp_all add: demo_dsys_def phase_def demo_db_ctx_def)
  with db_participant_phases [OF c, of demo_pq] e show ?thesis by (auto simp: sql_step_def)
qed

end
