(* ===== verification/Participants.thy ===== *)
theory Participants
  imports Db_participant
begin

section \<open>The two participants of a payment\<close>

text \<open>
  What the handler registers with the coordinator: the callbacks of the database and of the clearing
  participant, as functions of the coordinator's callback type. This theory shows that they meet
  the contract \<open>twopc_participants\<close> that the coordinator's lemmas are proved under, and states
  for a payment's \<open>txn_commit\<close> everything it sends to the database and to the clearing service.
\<close>

definition db_prepare_cb :: "'g pq \<Rightarrow> ('g, 'a) dsys_scheme cbfun" where
  "db_prepare_cb pq a tid s = db_participant_prepare pq (Some a) (Some tid) s"

definition db_commit_cb :: "'g pq \<Rightarrow> ('g, 'a) dsys_scheme cbfun" where
  "db_commit_cb pq a tid s = db_participant_commit pq (Some a) (Some tid) s"

definition db_abort_cb :: "'g pq \<Rightarrow> ('g, 'a) dsys_scheme cbfun" where
  "db_abort_cb pq a tid s = db_participant_abort pq (Some a) (Some tid) s"

definition cl_prepare_cb :: "'a csys_scheme cbfun" where
  "cl_prepare_cb a tid s = clearing_participant_prepare (Some a) (Some tid) s"

definition cl_commit_cb :: "'a csys_scheme cbfun" where
  "cl_commit_cb a tid s = clearing_participant_commit (Some a) (Some tid) s"

definition cl_abort_cb :: "'a csys_scheme cbfun" where
  "cl_abort_cb a tid s = clearing_participant_abort (Some a) (Some tid) s"

lemmas db_cb_defs = db_prepare_cb_def db_commit_cb_def db_abort_cb_def
lemmas cl_cb_defs = cl_prepare_cb_def cl_commit_cb_def cl_abort_cb_def

subsection \<open>What a clearing callback can change\<close>

definition cl_frame :: "nat \<Rightarrow> 'a csys_scheme \<Rightarrow> 'a csys_scheme \<Rightarrow> bool" where
  "cl_frame a s s' \<longleftrightarrow>
     csys.more s' = csys.more s \<and> allocs s' = allocs s \<and> alloc_src s' = alloc_src s \<and>
     g_2pc_committed (metrics s') = g_2pc_committed (metrics s) \<and>
     g_2pc_aborted (metrics s') = g_2pc_aborted (metrics s) \<and>
     (\<exists>es. trace s' = trace s @ es \<and> calls es = [] \<and> tlog es = [] \<and> sqls es = []) \<and>
     (\<forall>x. x \<noteq> a \<longrightarrow> clearing_ctxs s' x = clearing_ctxs s x) \<and>
     (clearing_ctxs s' a = None \<longleftrightarrow> clearing_ctxs s a = None)"

lemma cl_frame_refl: "cl_frame a s s"
  by (simp add: cl_frame_def)

lemma cl_frame_trans: "cl_frame a s t \<Longrightarrow> cl_frame a t u \<Longrightarrow> cl_frame a s u"
  by (auto simp: cl_frame_def)

lemma cl_frame_basic:
  "cl_frame a s (clog2 l t m s)" "cl_frame a s (cl_fault x s)" "cl_frame a s (cb_load_env_defaults s)"
  "cl_frame a s (snd (cb_should_short_circuit s))" "cl_frame a s (cb_on_result ok s)"
  "cl_frame a s (with_metrics metrics_inc_cb_short_circuit s)"
  "clearing_ctxs s a \<noteq> None \<Longrightarrow> cl_frame a s (s\<lparr>clearing_ctxs := (clearing_ctxs s)(a \<mapsto> c)\<rparr>)"
  by (auto simp: cl_frame_def clog2_def logj_def emit_def cl_fault_def cb_load_env_defaults_def Let_def
      cb_should_short_circuit_def time_null_def cb_on_result_def with_metrics_def
      metrics_inc_cb_short_circuit_def split: prod.split)

lemma cl_frame_simulate: "cl_frame a s (snd (snd (simulate_clearing_request u m p resp n to s)))"
proof -
  obtain r resp' s' where e: "simulate_clearing_request u m p resp n to s = (r, resp', s')"
    by (metis prod_cases3)
  from simulate_frame(1,2) [OF e] e show ?thesis
    by (auto simp: cl_frame_def same_clearing_def)
qed

lemma cl_frame_retry: "cl_frame a s (snd (snd (retry_loop maxr k u p to r resp s)))"
proof (induction maxr k u p to r resp s rule: retry_loop.induct)
  case (1 maxr k u p to r resp s)
  obtain r1 resp1 s1 where e: "simulate_clearing_request u ''POST'' p resp 256 to s = (r1, resp1, s1)"
    by (metis prod_cases3)
  have f: "cl_frame a s s1" using cl_frame_simulate [of a s u "''POST''" p resp 256 to] e by simp
  have u: "cl_frame a s (emit (Usleep (backoff_us k)) s1)"
    using f by (auto simp: cl_frame_def emit_def)
  show ?case
  proof (cases "k \<le> maxr \<and> r1 \<noteq> 0")
    case True
    with "1.IH" e have "cl_frame a (emit (Usleep (backoff_us k)) s1)
      (snd (snd (retry_loop maxr (k + 1) u p to r1 resp1 (emit (Usleep (backoff_us k)) s1))))"
      by simp
    with cl_frame_trans [OF u] True e show ?thesis by (simp add: retry_loop.simps [of maxr k])
  next
    case False
    with f e show ?thesis by (auto simp: retry_loop.simps [of maxr k] cl_frame_refl)
  qed
qed

lemma cl_frame_request:
  assumes "cb_should_short_circuit (cb_load_env_defaults s) = (sc, s2)"
    and "retry_loop m k u p to r0 resp0 s2 = (r, resp, s3)"
  shows "cl_frame a s s2" and "cl_frame a s (cb_on_result ok s3)"
proof -
  show s2: "cl_frame a s s2"
    using cl_frame_trans [OF cl_frame_basic(3) cl_frame_basic(4), of a s] assms(1) by simp
  have "cl_frame a s2 s3" using cl_frame_retry [of a s2 m k u p to r0 resp0] assms(2) by simp
  with s2 cl_frame_basic(5) show "cl_frame a s (cb_on_result ok s3)" by (metis cl_frame_trans)
qed

lemma cl_frame_ctx:
  "cl_frame a s s' \<Longrightarrow> clearing_ctxs s a \<noteq> None \<Longrightarrow> h = clearing_ctxs s' \<Longrightarrow>
     cl_frame a s (s'\<lparr>clearing_ctxs := h(a \<mapsto> c)\<rparr>)"
  "cl_frame a s s' \<Longrightarrow> cl_frame a s (clog2 l t m s')"
  "cl_frame a s s' \<Longrightarrow> cl_frame a s (with_metrics metrics_inc_cb_short_circuit s')"
  by (auto simp: cl_frame_def with_metrics_def metrics_inc_cb_short_circuit_def)

lemma cl_prepare_frame: "cl_frame a s (snd (clearing_participant_prepare (Some a) (Some tid) s))"
proof (cases "clearing_ctxs s a")
  case None
  then show ?thesis by (simp add: clearing_participant_prepare_def cl_frame_basic)
next
  case (Some ctx)
  let ?p = "clearing_payload ''prepare'' tid ctx"
  obtain sc s2 where sc: "cb_should_short_circuit (cb_load_env_defaults s) = (sc, s2)" by force
  obtain r resp s3 where rl: "retry_loop (max_retries (g_cb s2)) 0 (service_url ctx) ?p
      (timeout_seconds ctx) (- 1) [] s2 = (r, resp, s3)" by (metis prod_cases3)
  note f = cl_frame_request [OF sc rl, of a]
  from f Some sc rl show ?thesis
    by (auto simp: clearing_participant_prepare_def Let_def cl_frame_basic
        intro!: cl_frame_ctx)
qed

lemma cl_commit_frame: "cl_frame a s (snd (clearing_participant_commit (Some a) (Some tid) s))"
proof (cases "clearing_ctxs s a")
  case None
  then show ?thesis by (simp add: clearing_participant_commit_def cl_frame_basic)
next
  case (Some ctx)
  let ?p = "clearing_payload ''commit'' tid ctx"
  obtain sc s2 where sc: "cb_should_short_circuit (cb_load_env_defaults s) = (sc, s2)" by force
  obtain r resp s3 where rl: "retry_loop (max_retries (g_cb s2)) 0 (service_url ctx) ?p
      (timeout_seconds ctx) (- 1) [] s2 = (r, resp, s3)" by (metis prod_cases3)
  note f = cl_frame_request [OF sc rl, of a]
  from f Some sc rl show ?thesis
    by (auto simp: clearing_participant_commit_def Let_def cl_frame_basic
        intro!: cl_frame_ctx)
qed

lemma cl_abort_frame: "cl_frame a s (snd (clearing_participant_abort (Some a) (Some tid) s))"
proof (cases "clearing_ctxs s a")
  case None
  then show ?thesis by (simp add: clearing_participant_abort_def cl_frame_basic)
next
  case (Some ctx)
  define s1 where "s1 = (if \<not> has_hold ctx \<or> cl_txn_id ctx \<noteq> tid
    then clog2 ''INFO'' tid ''No local hold; sending idempotent abort'' s else s)"
  obtain q resp s2 where sim: "simulate_clearing_request (service_url ctx) ''POST''
    (clearing_payload ''abort'' tid ctx) [] 256 (timeout_seconds ctx) s1 = (q, resp, s2)"
    by (metis prod_cases3)
  have "cl_frame a s s1" by (simp add: s1_def cl_frame_basic cl_frame_refl)
  moreover have "cl_frame a s1 s2"
    using cl_frame_simulate [of a s1 "service_url ctx" "''POST''" "clearing_payload ''abort'' tid ctx" "[]" 256
        "timeout_seconds ctx"] sim
    by simp
  ultimately have f: "cl_frame a s s2" by (rule cl_frame_trans)
  let ?s3 = "if q = 0 \<and> status_ok resp then clog2 ''INFO'' tid ''Authorization hold released'' s2
    else clog2 ''WARN'' tid ''Hold release failed (may timeout naturally)'' s2"
  have "snd (clearing_participant_abort (Some a) (Some tid) s) =
    ?s3\<lparr>clearing_ctxs := (clearing_ctxs ?s3)(a \<mapsto> ctx\<lparr>has_hold := False, cl_txn_id := []\<rparr>)\<rparr>"
    using sim Some by (simp add: clearing_participant_abort_def s1_def Let_def)
  moreover have "cl_frame a s ?s3" using f by (simp add: cl_frame_ctx)
  ultimately show ?thesis using Some cl_frame_ctx(1) by (metis option.distinct(1))
qed

subsection \<open>The contract of the coordinator\<close>

lemma db_fields_more:
  fixes s s' :: "('g, 'a) dsys_scheme"
  assumes "csys.more s' = csys.more s"
  shows "db_ctxs s' = db_ctxs s" "db_conns s' = db_conns s" "pg s' = pg s" "db_tls s' = db_tls s"
  using assms by (cases s; cases s'; simp)+

definition recorded :: "nat \<Rightarrow> string \<Rightarrow> ('g, 'a) dsys_scheme \<Rightarrow> bool" where
  \<comment> \<open>the context \<open>x\<close> itself records something as prepared for the transaction \<open>tid\<close>; the ABORT callbacks clear
      this record whatever the database or the service answers, so it is no statement about those\<close>
  "recorded x tid s \<longleftrightarrow>
     (case db_ctxs s x of None \<Rightarrow> False | Some c \<Rightarrow> phase c = Prepared tid) \<or>
     (case clearing_ctxs s x of None \<Rightarrow> False | Some c \<Rightarrow> has_hold c \<and> cl_txn_id c = tid)"

definition db_participant_at :: "'g pq \<Rightarrow> nat \<Rightarrow> ('g, 'a) dsys_scheme participant \<Rightarrow> bool" where
  "db_participant_at pq a p \<longleftrightarrow> pcontext p = a \<and> prepare_fn p = db_prepare_cb pq \<and>
     commit_fn p = db_commit_cb pq \<and> abort_fn p = db_abort_cb pq"

definition cl_participant_at :: "nat \<Rightarrow> ('g, 'a) dsys_scheme participant \<Rightarrow> bool" where
  "cl_participant_at b p \<longleftrightarrow> pcontext p = b \<and> prepare_fn p = cl_prepare_cb \<and>
     commit_fn p = cl_commit_cb \<and> abort_fn p = cl_abort_cb"

definition payment_participant :: "'g pq \<Rightarrow> nat \<Rightarrow> nat \<Rightarrow> ('g, 'a) dsys_scheme participant \<Rightarrow> bool" where
  "payment_participant pq a b p \<longleftrightarrow> db_participant_at pq a p \<or> cl_participant_at b p"

definition contexts_live :: "nat \<Rightarrow> nat \<Rightarrow> ('g, 'a) dsys_scheme \<Rightarrow> bool" where
  "contexts_live a b s \<longleftrightarrow> db_ctxs s a \<noteq> None \<and> clearing_ctxs s a = None \<and>
     clearing_ctxs s b \<noteq> None \<and> db_ctxs s b = None"

definition db_frame :: "nat \<Rightarrow> ('g, 'a) dsys_scheme \<Rightarrow> ('g, 'a) dsys_scheme \<Rightarrow> bool" where
  "db_frame a s s' \<longleftrightarrow> same_db_rest s s' \<and> (\<forall>x. x \<noteq> a \<longrightarrow> db_ctxs s' x = db_ctxs s x) \<and>
     (db_ctxs s' a = None \<longleftrightarrow> db_ctxs s a = None)"

lemma db_fault_rest: "same_db_rest s (db_fault k a s)"
  using same_db_rest_refl by blast

lemma db_cb_frame:
  assumes "f \<in> {db_prepare_cb pq, db_commit_cb pq, db_abort_cb pq}"
  shows "db_frame a s (snd (f a tid s))"
proof (cases "db_ctxs s a")
  case None
  with assms show ?thesis
    by (auto simp: db_cb_defs db_participant_prepare_def db_participant_commit_def
        db_participant_abort_def db_frame_def db_fault_rest)
next
  case (Some c)
  obtain r1 s1 where p: "db_participant_prepare pq (Some a) (Some tid) s = (r1, s1)" by force
  obtain r2 s2 where q: "db_participant_commit pq (Some a) (Some tid) s = (r2, s2)" by force
  obtain r3 s3 where x: "db_participant_abort pq (Some a) (Some tid) s = (r3, s3)" by force
  from db_prepare_spec [OF Some p] db_commit_spec [OF Some q] db_abort_spec [OF Some x] Some
  have "db_frame a s s1" "db_frame a s s2" "db_frame a s s3" by (auto simp: db_frame_def)
  with assms p q x show ?thesis by (auto simp: db_cb_defs)
qed

lemma cl_cb_frame:
  assumes "f \<in> {cl_prepare_cb, cl_commit_cb, cl_abort_cb}"
  shows "cl_frame a s (snd (f a tid s))"
  using assms cl_prepare_frame cl_commit_frame cl_abort_frame by (auto simp: cl_cb_defs)

lemma db_frame_quiet:
  assumes "db_frame a s s'"
  shows "calls (trace s') = calls (trace s) \<and> tlog (trace s') = tlog (trace s) \<and>
    allocs s \<le> allocs s' \<and> g_2pc_committed (metrics s') = g_2pc_committed (metrics s) \<and>
    g_2pc_aborted (metrics s') = g_2pc_aborted (metrics s)"
  using assms by (auto simp: db_frame_def same_db_rest_def)

lemma cl_frame_quiet:
  assumes "cl_frame a s s'"
  shows "calls (trace s') = calls (trace s) \<and> tlog (trace s') = tlog (trace s) \<and>
    allocs s \<le> allocs s' \<and> g_2pc_committed (metrics s') = g_2pc_committed (metrics s) \<and>
    g_2pc_aborted (metrics s') = g_2pc_aborted (metrics s)"
  using assms by (auto simp: cl_frame_def)

lemma quiet_db: "f \<in> {db_prepare_cb pq, db_commit_cb pq, db_abort_cb pq} \<Longrightarrow> quiet_cb f"
  unfolding quiet_cb_def using db_frame_quiet [OF db_cb_frame] by blast

lemma quiet_cl: "f \<in> {cl_prepare_cb, cl_commit_cb, cl_abort_cb} \<Longrightarrow> quiet_cb f"
  unfolding quiet_cb_def using cl_frame_quiet [OF cl_cb_frame] by blast

lemma payment_participant_quiet: "payment_participant pq a b p \<Longrightarrow> quiet p"
  unfolding payment_participant_def db_participant_at_def cl_participant_at_def quiet_def
  by (auto intro: quiet_db quiet_cl)

lemma recorded_neutral:
  "recorded x tid (s\<lparr>trace := es\<rparr>) = recorded x tid s"
  "recorded x tid (s\<lparr>time_calls := n\<rparr>) = recorded x tid s"
  "recorded x tid (s\<lparr>metrics := m\<rparr>) = recorded x tid s"
  "contexts_live a b (s\<lparr>trace := es\<rparr>) = contexts_live a b s"
  "contexts_live a b (s\<lparr>time_calls := n\<rparr>) = contexts_live a b s"
  by (simp_all add: recorded_def contexts_live_def)

lemma payment_cb_cases:
  assumes "payment_participant pq a b p" and "f \<in> {prepare_fn p, commit_fn p, abort_fn p}"
  obtains "pcontext p = a" "db_frame a s (snd (f a tid s))"
    | "pcontext p = b" "cl_frame b s (snd (f b tid s))"
  using assms unfolding payment_participant_def db_participant_at_def cl_participant_at_def
  using db_cb_frame [of f pq a s tid] cl_cb_frame [of f b s tid] by auto

lemma contexts_live_callback:
  assumes "payment_participant pq a b p" and "contexts_live a b s"
    and "f \<in> {prepare_fn p, commit_fn p, abort_fn p}"
  shows "contexts_live a b (snd (f (pcontext p) tid s))"
    and "x \<noteq> pcontext p \<Longrightarrow> recorded x tid' (snd (f (pcontext p) tid s)) = recorded x tid' s"
proof -
  have ab: "a \<noteq> b" using assms(2) by (auto simp: contexts_live_def)
  have "contexts_live a b (snd (f (pcontext p) tid s)) \<and>
    (x \<noteq> pcontext p \<longrightarrow> recorded x tid' (snd (f (pcontext p) tid s)) = recorded x tid' s)"
  proof (rule payment_cb_cases [OF assms(1,3), of s tid])
    assume "pcontext p = a" and f: "db_frame a s (snd (f a tid s))"
    moreover have "clearing_ctxs (snd (f a tid s)) = clearing_ctxs s"
      using f by (simp add: db_frame_def same_db_rest_def)
    ultimately show ?thesis
      using assms(2) ab by (simp add: contexts_live_def db_frame_def recorded_def)
  next
    assume "pcontext p = b" and f: "cl_frame b s (snd (f b tid s))"
    moreover have "db_ctxs (snd (f b tid s)) = db_ctxs s"
      using f by (intro db_fields_more) (simp add: cl_frame_def)
    ultimately show ?thesis
      using assms(2) ab by (simp add: contexts_live_def cl_frame_def recorded_def)
  qed
  then show "contexts_live a b (snd (f (pcontext p) tid s))"
    and "x \<noteq> pcontext p \<Longrightarrow> recorded x tid' (snd (f (pcontext p) tid s)) = recorded x tid' s"
    by simp_all
qed

lemma cl_commit_hold:
  assumes "clearing_participant_commit (Some b) (Some tid) s = (0, s')" and "clearing_ctxs s b = Some ctx"
  shows "\<exists>c. clearing_ctxs s' b = Some c \<and> \<not> has_hold c"
  using assms by (auto simp: clearing_participant_commit_def Let_def split: if_splits prod.splits)

lemma cb_releases:
  assumes "payment_participant pq a b p" and "contexts_live a b s" and "tid \<noteq> []"
  shows "fst (commit_fn p (pcontext p) tid s) = 0 \<Longrightarrow>
      \<not> recorded (pcontext p) tid (snd (commit_fn p (pcontext p) tid s))"
    and "\<not> recorded (pcontext p) tid (snd (abort_fn p (pcontext p) tid s))"
proof -
  note live = contexts_live_callback(1) [OF assms(1,2)]
  obtain c ctx where c: "db_ctxs s a = Some c" and ctx: "clearing_ctxs s b = Some ctx"
    using assms(2) by (auto simp: contexts_live_def)
  obtain r1 s1 where q: "db_participant_commit pq (Some a) (Some tid) s = (r1, s1)" by force
  obtain r2 s2 where x: "db_participant_abort pq (Some a) (Some tid) s = (r2, s2)" by force
  obtain r3 s3 where q': "clearing_participant_commit (Some b) (Some tid) s = (r3, s3)" by force
  obtain r4 s4 where x': "clearing_participant_abort (Some b) (Some tid) s = (r4, s4)" by force
  note sp = db_commit_spec [OF c q] db_abort_spec [OF c x] clearing_abort_spec [OF ctx x']
  have l: "\<not> recorded a tid t" if "contexts_live a b t" "\<exists>d. db_ctxs t a = Some d \<and> db_txn_id d = []" for t
    using that assms(3) by (auto simp: contexts_live_def recorded_def phase_def split: if_splits)
  have m: "\<not> recorded b tid t" if "contexts_live a b t" "\<exists>d. clearing_ctxs t b = Some d \<and> \<not> has_hold d" for t
    using that by (auto simp: contexts_live_def recorded_def)
  have cases: "pcontext p = a \<and> commit_fn p a tid s = (r1, s1) \<and> abort_fn p a tid s = (r2, s2) \<or>
      pcontext p = b \<and> commit_fn p b tid s = (r3, s3) \<and> abort_fn p b tid s = (r4, s4)"
    using assms(1) q x q' x' unfolding payment_participant_def db_participant_at_def cl_participant_at_def
    by (auto simp: db_cb_defs cl_cb_defs)
  show "\<not> recorded (pcontext p) tid (snd (commit_fn p (pcontext p) tid s))"
    if "fst (commit_fn p (pcontext p) tid s) = 0"
    using cases that live [of "commit_fn p" tid] sp(1) cl_commit_hold [OF _ ctx, of tid s3] q' l [of s1] m [of s3]
    by auto
  show "\<not> recorded (pcontext p) tid (snd (abort_fn p (pcontext p) tid s))"
    using cases live [of "abort_fn p" tid] sp(2,3) l [of s2] m [of s4] by auto
qed

interpretation payment: twopc_participants recorded "payment_participant pq a b" "contexts_live a b"
  for pq a b
proof
  show "payment_participant pq a b p \<Longrightarrow> payment_participant pq a b (p\<lparr>pstate := st\<rparr>)" for p st
    by (simp add: payment_participant_def db_participant_at_def cl_participant_at_def)
qed (simp_all only: recorded_neutral contexts_live_callback cb_releases simp_thms)

subsection \<open>A payment's transaction\<close>

definition payment_txn ::
    "'g pq \<Rightarrow> nat \<Rightarrow> nat \<Rightarrow> ('g, 'a) dsys_scheme transaction \<Rightarrow> bool" where
  \<comment> \<open>the transaction as the handler has set it up: the database first, then clearing\<close>
  "payment_txn pq a b t \<longleftrightarrow> transaction_id t \<noteq> [] \<and>
     (\<exists>d k. participants t = [d, k] \<and> db_participant_at pq a d \<and> cl_participant_at b k \<and>
        pname d = ''database'' \<and> pname k = ''clearing'' \<and>
        pstate d = PARTICIPANT_INIT \<and> pstate k = PARTICIPANT_INIT)"

lemma payment_txn_participants:
  assumes "payment_txn pq a b t" and "q \<in> set (participants t)"
  shows "payment_participant pq a b q" "quiet q" "pstate q = PARTICIPANT_INIT"
  using assms payment_participant_quiet [of pq a b q]
  by (auto simp: payment_txn_def payment_participant_def)

text \<open>
  What follows from the contract: after \<open>txn_commit\<close> neither context records anything as prepared for
  the transaction. These are the contexts' own flags; what was sent is the subject of \<open>payment_commit_wire\<close>.
\<close>

lemma payment_commit_clears_records:
  assumes "tx_heap c p = Some t" and "payment_txn pq a b t" and "contexts_live a b s"
    and "\<not> recorded a (transaction_id t) s" and "\<not> recorded b (transaction_id t) s"
    and "txn_commit (Some p) c s = (r, c', s')"
  shows "\<not> recorded a (transaction_id t) s' \<and> \<not> recorded b (transaction_id t) s'"
proof -
  obtain d k where ps: "participants t = [d, k]" and ctx: "pcontext d = a" "pcontext k = b"
    and id: "transaction_id t \<noteq> []"
    using assms(2) by (auto simp: payment_txn_def db_participant_at_def cl_participant_at_def)
  have ab: "a \<noteq> b" using assms(3) by (auto simp: contexts_live_def)
  note pp = payment_txn_participants [OF assms(2)]
  have "\<not> recorded (pcontext q) (transaction_id t) s'" if "q \<in> set (participants t)" for q
  proof (rule payment.commit_releases_all [OF assms(1) _ _ assms(3) id _ assms(6) that])
    show "distinct (map pcontext (participants t))" using ab by (simp add: ps ctx)
    show "\<forall>q \<in> set (participants t). pstate q = PARTICIPANT_INIT \<and>
        \<not> recorded (pcontext q) (transaction_id t) s"
      using pp(3) assms(4,5) by (auto simp: ps ctx)
  qed (use pp in auto)
  from this [of d] this [of k] show ?thesis by (simp add: ps ctx)
qed

subsection \<open>What goes over the wire\<close>

datatype wire_event =
    To_db pgptr string
  | To_clearing string int
  | Voted string callback int

fun wire :: "event list \<Rightarrow> wire_event list" where
  \<comment> \<open>the commands given to libpq, the requests to the clearing service with their results and the
      results of the callbacks, in the order in which they happened\<close>
  "wire [] = []"
| "wire (Sql c cmd vs # es) = To_db c cmd # wire es"
| "wire (Request p r # es) = To_clearing p r # wire es"
| "wire (Call n tid k r # es) = Voted n k r # wire es"
| "wire (_ # es) = wire es"

lemma wire_append [simp]: "wire (es @ fs) = wire es @ wire fs"
  by (induction es rule: wire.induct) simp_all

lemma wire_sqls: "calls es = [] \<Longrightarrow> reqs es = [] \<Longrightarrow> wire es = map (\<lambda>(c, cmd). To_db c cmd) (sqls es)"
  by (induction es rule: wire.induct) simp_all

lemma wire_reqs: "calls es = [] \<Longrightarrow> sqls es = [] \<Longrightarrow> wire es = map (\<lambda>(p, r). To_clearing p r) (reqs es)"
  by (induction es rule: wire.induct) simp_all

lemma wire_log [simp]:
  "wire (trace (clog l t m s)) = wire (trace s)" "wire (trace (log_transaction_state c tx a s)) = wire (trace s)"
  "wire (trace (read_freed p c s)) = wire (trace s)" "wire (trace (with_metrics f s)) = wire (trace s)"
  by (simp_all add: logj_def emit_def log_transaction_state_def read_freed_def with_metrics_def Let_def time_null_def)

lemma wire_started [simp]:
  "wire (trace (prepare_started c t s)) = wire (trace s)" "wire (trace (commit_started c t s)) = wire (trace s)"
  "wire (trace (abort_started c t s)) = wire (trace s)"
  by (simp_all add: prepare_started_def commit_started_def abort_started_def)

lemma db_wire:
  assumes "same_db_rest s s'" and "sqls (trace s') = sqls (trace s) @ cmds"
  shows "wire (trace s') = wire (trace s) @ map (\<lambda>(c, cmd). To_db c cmd) cmds"
  using assms wire_sqls by (auto simp: same_db_rest_def)

lemma cl_wire:
  assumes "cl_frame b s s'" and "reqs (trace s') = reqs (trace s) @ rs"
  shows "wire (trace s') = wire (trace s) @ map (\<lambda>(p, r). To_clearing p r) rs"
  using assms wire_reqs by (auto simp: cl_frame_def)

definition tried :: "string \<Rightarrow> nat \<Rightarrow> int \<Rightarrow> wire_event list" where
  \<comment> \<open>\<open>n\<close> attempts without an answer and, when the result is 0, the one that was answered\<close>
  "tried p n r = replicate n (To_clearing p (- 1)) @ (if r = 0 then [To_clearing p 0] else [])"

lemma tried_map:
  "map (\<lambda>(p, r). To_clearing p r) (replicate n (p, - 1) @ (if r = 0 then [(p, 0)] else [])) = tried p n r"
  by (simp add: tried_def)

lemma retry_attempts:
  assumes "retry_loop maxr 0 url p to (- 1) [] s = (r, resp, s')"
  shows "same_clearing s s' \<and> (r = 0 \<or> r = - 1) \<and> (r = 0 \<and> action_payload p \<longrightarrow> status_ok resp) \<and>
    (\<exists>n \<le> nat (maxr + 1). reqs (trace s') = reqs (trace s) @ replicate n (p, - 1) @ (if r = 0 then [(p, 0)] else []))"
proof (cases "0 \<le> maxr")
  case True
  have "first_success s (nat (maxr + 1)) \<le> nat (maxr + 1)"
    using length_takeWhile_le [of "attempt_fails s" "[0..<nat (maxr + 1)]"] by (simp add: first_success_def)
  with retry_loop_spec [OF assms, of "nat (maxr + 1)"] True show ?thesis
    by (intro conjI exI [of _ "first_success s (nat (maxr + 1))"]) auto
next
  case False
  then have "(r, resp, s') = (- 1, [], s)" using assms by (simp add: retry_loop.simps [of maxr])
  then show ?thesis by (auto simp: same_clearing_refl intro: exI [of _ 0])
qed

lemma clearing_payload_flags [simp]:
  "clearing_payload act tid (k\<lparr>has_hold := h\<rparr>) = clearing_payload act tid k"
  "clearing_payload act tid (k\<lparr>cl_txn_id := i\<rparr>) = clearing_payload act tid k"
  by (simp_all add: clearing_payload_def)

lemma cl_prepare_wire:
  assumes "clearing_ctxs s b = Some k" "cl_txn_id k = tid" "clearing_participant_prepare (Some b) (Some tid) s = (r, s')"
  shows "(r = 0 \<or> r = - 1) \<and> clearing_ctxs s' b = Some (if r = 0 then k\<lparr>has_hold := True\<rparr> else k) \<and>
    (\<exists>n. wire (trace s') = wire (trace s) @ tried (clearing_payload ''prepare'' tid k) n r)"
proof -
  let ?p = "clearing_payload ''prepare'' tid k"
  obtain sc s2 where sc: "cb_should_short_circuit (cb_load_env_defaults s) = (sc, s2)" by force
  obtain r3 resp s3 where rl: "retry_loop (max_retries (g_cb s2)) 0 (service_url k) ?p
      (timeout_seconds k) (- 1) [] s2 = (r3, resp, s3)" by (metis prod_cases3)
  note f = cb_short_frame [OF sc] and g = retry_attempts [OF rl]
  have ok: "r3 = 0 \<Longrightarrow> status_ok resp" using g clearing_payload_ok [of "''prepare''"] by simp
  have "(r = 0 \<or> r = - 1) \<and> clearing_ctxs s' b = Some (if r = 0 then k\<lparr>has_hold := True\<rparr> else k) \<and>
    (\<exists>n. reqs (trace s') = reqs (trace s) @ replicate n (?p, - 1) @ (if r = 0 then [(?p, 0)] else []))"
  proof (cases sc)
    case True
    with assms sc f show ?thesis
      by (auto simp: clearing_participant_prepare_def Let_def with_metrics_def intro: exI [of _ 0])
  next
    case False
    have "clearing_ctxs s3 = clearing_ctxs s" "reqs (trace s2) = reqs (trace s)" using f g by (simp_all add: same_clearing_def)
    with False assms sc rl ok g show ?thesis
      by (auto simp: clearing_participant_prepare_def Let_def split: if_splits)
  qed
  moreover have "cl_frame b s s'" using cl_prepare_frame [of b s tid] assms(3) by simp
  ultimately show ?thesis by (metis cl_wire tried_map)
qed

lemma cl_commit_wire:
  assumes "clearing_ctxs s b = Some k" "cl_txn_id k = tid" "has_hold k" "clearing_participant_commit (Some b) (Some tid) s = (r, s')"
  shows "(r = 0 \<or> r = - 1) \<and> clearing_ctxs s' b = Some (if r = 0 then k\<lparr>has_hold := False, cl_txn_id := []\<rparr> else k) \<and>
    (\<exists>n. wire (trace s') = wire (trace s) @ tried (clearing_payload ''commit'' tid k) n r)"
proof -
  let ?p = "clearing_payload ''commit'' tid k"
  obtain sc s2 where sc: "cb_should_short_circuit (cb_load_env_defaults s) = (sc, s2)" by force
  obtain r3 resp s3 where rl: "retry_loop (max_retries (g_cb s2)) 0 (service_url k) ?p
      (timeout_seconds k) (- 1) [] s2 = (r3, resp, s3)" by (metis prod_cases3)
  note f = cb_short_frame [OF sc] and g = retry_attempts [OF rl]
  have ok: "r3 = 0 \<Longrightarrow> status_ok resp" using g clearing_payload_ok [of "''commit''"] by simp
  have "(r = 0 \<or> r = - 1) \<and> clearing_ctxs s' b = Some (if r = 0 then k\<lparr>has_hold := False, cl_txn_id := []\<rparr> else k) \<and>
    (\<exists>n. reqs (trace s') = reqs (trace s) @ replicate n (?p, - 1) @ (if r = 0 then [(?p, 0)] else []))"
  proof (cases sc)
    case True
    with assms sc f show ?thesis
      by (auto simp: clearing_participant_commit_def Let_def with_metrics_def intro: exI [of _ 0])
  next
    case False
    have "clearing_ctxs s3 = clearing_ctxs s" "reqs (trace s2) = reqs (trace s)" using f g by (simp_all add: same_clearing_def)
    with False assms sc rl ok g show ?thesis
      by (auto simp: clearing_participant_commit_def Let_def split: if_splits)
  qed
  moreover have "cl_frame b s s'" using cl_commit_frame [of b s tid] assms(4) by simp
  ultimately show ?thesis by (metis cl_wire tried_map)
qed

lemma cl_abort_wire:
  assumes "clearing_ctxs s b = Some k" "clearing_participant_abort (Some b) (Some tid) s = (r, s')"
  shows "r = 0 \<and> (\<exists>q. wire (trace s') = wire (trace s) @ [To_clearing (clearing_payload ''abort'' tid k) q])"
  using clearing_abort_spec [OF assms] cl_wire [OF cl_abort_frame [of b s tid, unfolded assms(2) snd_conv]] by fastforce

definition sees :: "nat \<Rightarrow> nat \<Rightarrow> db_ctx \<Rightarrow> clearing_ctx \<Rightarrow> ('g, 'a) dsys_scheme \<Rightarrow> bool" where
  \<comment> \<open>the contents of the two participants' contexts\<close>
  "sees a b d k s \<longleftrightarrow> db_ctxs s a = Some d \<and> clearing_ctxs s b = Some k"

lemma sees_log [simp]:
  "sees a b d k (logj l e t m s) = sees a b d k s" "sees a b d k (log_transaction_state c tx act s) = sees a b d k s"
  "sees a b d k (prepare_started c tx s) = sees a b d k s" "sees a b d k (commit_started c tx s) = sees a b d k s"
  "sees a b d k (abort_started c tx s) = sees a b d k s"
  by (simp_all add: sees_def logj_def emit_def log_transaction_state_def prepare_started_def commit_started_def
      abort_started_def Let_def time_null_def)

lemma sees_emit [simp]: "sees a b d k (emit e s) = sees a b d k s"
  by (simp add: sees_def emit_def)

lemma wire_call [simp]: "wire (trace (emit (Call n tid cb r) s)) = wire (trace s) @ [Voted n cb r]"
  by (simp add: emit_def)

lemma call_db:
  assumes "db_participant_at pq a p" "pname p = ''database''" "sees a b d k s" "call_cb cb p tid s = (r, s')"
  shows "cb = Prepare \<Longrightarrow> in_transaction d \<Longrightarrow> db_txn_id d = tid \<Longrightarrow>
      sees a b (if r = 0 then d\<lparr>in_transaction := False\<rparr> else d) k s' \<and>
      wire (trace s') = wire (trace s) @ [To_db (Cast_dbc (dbc d)) (prepare_cmd tid), Voted ''database'' Prepare r]"
    and "cb = Commit \<Longrightarrow> sees a b (if r = 0 then d\<lparr>db_txn_id := []\<rparr> else d) k s' \<and>
      wire (trace s') = wire (trace s) @ [To_db (Cast_dbc (dbc d)) (commit_cmd tid), Voted ''database'' Commit r]"
    and "cb = Abort \<Longrightarrow> r = 0 \<and> (\<exists>d'. sees a b d' k s') \<and>
      wire (trace s') = wire (trace s) @
        [To_db (Cast_dbc (dbc d)) (if in_transaction d \<and> db_txn_id d = tid then ''ROLLBACK'' else rollback_cmd tid),
         Voted ''database'' Abort 0]"
proof -
  have d: "db_ctxs s a = Some d" and k: "clearing_ctxs s b = Some k" using assms(3) by (simp_all add: sees_def)
  have same: "clearing_ctxs t = clearing_ctxs s" if "same_db_rest s t" for t using that by (simp add: same_db_rest_def)
  have p: "pcontext p = a" "prepare_fn p = db_prepare_cb pq" "commit_fn p = db_commit_cb pq" "abort_fn p = db_abort_cb pq"
    using assms(1) by (simp_all add: db_participant_at_def)
  {
    assume "cb = Prepare" "in_transaction d" "db_txn_id d = tid"
    then obtain s1 where c: "db_participant_prepare pq (Some a) (Some tid) s = (r, s1)"
      and s': "s' = emit (Call ''database'' tid Prepare r) s1"
      using assms(2,4) by (auto simp: call_cb_def p db_cb_defs Let_def split: prod.splits)
    note sp = db_prepare_spec [OF d c]
    then show "sees a b (if r = 0 then d\<lparr>in_transaction := False\<rparr> else d) k s' \<and>
      wire (trace s') = wire (trace s) @ [To_db (Cast_dbc (dbc d)) (prepare_cmd tid), Voted ''database'' Prepare r]"
      using db_wire [of s s1] same [of s1] d k \<open>in_transaction d\<close> \<open>db_txn_id d = tid\<close> by (auto simp: s' sees_def emit_def)
  next
    assume "cb = Commit"
    then obtain s1 where c: "db_participant_commit pq (Some a) (Some tid) s = (r, s1)"
      and s': "s' = emit (Call ''database'' tid Commit r) s1"
      using assms(2,4) by (auto simp: call_cb_def p db_cb_defs Let_def split: prod.splits)
    note sp = db_commit_spec [OF d c]
    then show "sees a b (if r = 0 then d\<lparr>db_txn_id := []\<rparr> else d) k s' \<and>
      wire (trace s') = wire (trace s) @ [To_db (Cast_dbc (dbc d)) (commit_cmd tid), Voted ''database'' Commit r]"
      using db_wire [of s s1] same [of s1] d k by (auto simp: s' sees_def emit_def)
  next
    assume "cb = Abort"
    then obtain s1 where c: "db_participant_abort pq (Some a) (Some tid) s = (r, s1)"
      and s': "s' = emit (Call ''database'' tid Abort r) s1"
      using assms(2,4) by (auto simp: call_cb_def p db_cb_defs Let_def split: prod.splits)
    note sp = db_abort_spec [OF d c]
    then show "r = 0 \<and> (\<exists>d'. sees a b d' k s') \<and>
      wire (trace s') = wire (trace s) @
        [To_db (Cast_dbc (dbc d)) (if in_transaction d \<and> db_txn_id d = tid then ''ROLLBACK'' else rollback_cmd tid),
         Voted ''database'' Abort 0]"
      using db_wire [of s s1] same [of s1] d k by (auto simp: s' sees_def emit_def)
  }
qed

lemma call_cl:
  assumes "cl_participant_at b p" "pname p = ''clearing''" "sees a b d k s" "call_cb cb p tid s = (r, s')"
  shows "cb = Prepare \<Longrightarrow> cl_txn_id k = tid \<Longrightarrow>
      sees a b d (if r = 0 then k\<lparr>has_hold := True\<rparr> else k) s' \<and>
      (\<exists>n. wire (trace s') = wire (trace s) @ tried (clearing_payload ''prepare'' tid k) n r @ [Voted ''clearing'' Prepare r])"
    and "cb = Commit \<Longrightarrow> cl_txn_id k = tid \<Longrightarrow> has_hold k \<Longrightarrow>
      sees a b d (if r = 0 then k\<lparr>has_hold := False, cl_txn_id := []\<rparr> else k) s' \<and>
      (\<exists>n. wire (trace s') = wire (trace s) @ tried (clearing_payload ''commit'' tid k) n r @ [Voted ''clearing'' Commit r])"
    and "cb = Abort \<Longrightarrow> r = 0 \<and> (\<exists>q. wire (trace s') = wire (trace s) @
      [To_clearing (clearing_payload ''abort'' tid k) q, Voted ''clearing'' Abort 0])"
proof -
  have d: "db_ctxs s a = Some d" and k: "clearing_ctxs s b = Some k" using assms(3) by (simp_all add: sees_def)
  have p: "pcontext p = b" "prepare_fn p = cl_prepare_cb" "commit_fn p = cl_commit_cb" "abort_fn p = cl_abort_cb"
    using assms(1) by (simp_all add: cl_participant_at_def)
  have same: "db_ctxs t = db_ctxs s" if "cl_frame b s t" for t
    using that by (intro db_fields_more) (simp add: cl_frame_def)
  {
    assume "cb = Prepare" "cl_txn_id k = tid"
    then obtain s1 where c: "clearing_participant_prepare (Some b) (Some tid) s = (r, s1)"
      and s': "s' = emit (Call ''clearing'' tid Prepare r) s1"
      using assms(2,4) by (auto simp: call_cb_def p cl_cb_defs Let_def split: prod.splits)
    then show "sees a b d (if r = 0 then k\<lparr>has_hold := True\<rparr> else k) s' \<and>
      (\<exists>n. wire (trace s') = wire (trace s) @ tried (clearing_payload ''prepare'' tid k) n r @ [Voted ''clearing'' Prepare r])"
      using cl_prepare_wire [OF k \<open>cl_txn_id k = tid\<close> c] same [OF cl_prepare_frame [of b s tid, unfolded c snd_conv]] d
      by (auto simp: s' sees_def emit_def)
  next
    assume "cb = Commit" "cl_txn_id k = tid" "has_hold k"
    then obtain s1 where c: "clearing_participant_commit (Some b) (Some tid) s = (r, s1)"
      and s': "s' = emit (Call ''clearing'' tid Commit r) s1"
      using assms(2,4) by (auto simp: call_cb_def p cl_cb_defs Let_def split: prod.splits)
    then show "sees a b d (if r = 0 then k\<lparr>has_hold := False, cl_txn_id := []\<rparr> else k) s' \<and>
      (\<exists>n. wire (trace s') = wire (trace s) @ tried (clearing_payload ''commit'' tid k) n r @ [Voted ''clearing'' Commit r])"
      using cl_commit_wire [OF k \<open>cl_txn_id k = tid\<close> \<open>has_hold k\<close> c] same [OF cl_commit_frame [of b s tid, unfolded c snd_conv]] d
      by (auto simp: s' sees_def emit_def)
  next
    assume "cb = Abort"
    then obtain s1 where c: "clearing_participant_abort (Some b) (Some tid) s = (r, s1)"
      and s': "s' = emit (Call ''clearing'' tid Abort r) s1"
      using assms(2,4) by (auto simp: call_cb_def p cl_cb_defs Let_def split: prod.splits)
    then show "r = 0 \<and> (\<exists>q. wire (trace s') = wire (trace s) @
      [To_clearing (clearing_payload ''abort'' tid k) q, Voted ''clearing'' Abort 0])"
      using cl_abort_wire [OF k c] by (auto simp: s' emit_def)
  }
qed

definition db_aborted :: "pgptr \<Rightarrow> string \<Rightarrow> wire_event list" where
  "db_aborted x cmd = [To_db x cmd, Voted ''database'' Abort 0]"

definition cl_aborted :: "string \<Rightarrow> clearing_ctx \<Rightarrow> int \<Rightarrow> wire_event list" where
  "cl_aborted tid k q = [To_clearing (clearing_payload ''abort'' tid k) q, Voted ''clearing'' Abort 0]"

definition payment_wire :: "pgptr \<Rightarrow> string \<Rightarrow> clearing_ctx \<Rightarrow> int \<Rightarrow> int \<Rightarrow> int \<Rightarrow> int \<Rightarrow> nat \<Rightarrow> nat \<Rightarrow> int \<Rightarrow> wire_event list" where
  \<comment> \<open>what a payment sends, given the votes \<open>p1\<close>, \<open>p2\<close>, the results \<open>c1\<close>, \<open>c2\<close> of the COMMITs, the
      unanswered attempts \<open>n\<close>, \<open>m\<close> of the two clearing requests and the answer \<open>q\<close> to the release\<close>
  "payment_wire x tid k p1 p2 c1 c2 n m q =
     [To_db x (prepare_cmd tid), Voted ''database'' Prepare p1] @
     (if p1 \<noteq> 0 then db_aborted x ''ROLLBACK''
      else tried (clearing_payload ''prepare'' tid k) n p2 @ [Voted ''clearing'' Prepare p2] @
        (if p2 \<noteq> 0 then db_aborted x (rollback_cmd tid) @ cl_aborted tid k q
         else [To_db x (commit_cmd tid), Voted ''database'' Commit c1] @
           tried (clearing_payload ''commit'' tid k) m c2 @ [Voted ''clearing'' Commit c2] @
           (if c1 \<noteq> 0 then db_aborted x (rollback_cmd tid) else []) @ (if c2 \<noteq> 0 then cl_aborted tid k q else [])))"

lemma abort_path_wire:
  assumes "abort_loop (transaction_id t) (participants t) (abort_started c t s) = (ps, s3)"
    and "commit_abort_path p t c s = (r, c', s')"
  shows "r = - 1 \<and> wire (trace s') = wire (trace s3)"
  using assms(2) by (auto simp: commit_abort_path_eq [OF assms(1)] Let_def)

definition must_abort :: "'s participant \<Rightarrow> bool" where
  \<comment> \<open>the guard of the loop over the ABORT callbacks\<close>
  "must_abort p \<longleftrightarrow> pstate p = PARTICIPANT_PREPARED \<or> pstate p = PARTICIPANT_FAILED"

lemma abort_both_wire:
  assumes "participants t = [d, k]" "db_participant_at pq a d" "pname d = ''database''" "cl_participant_at b k"
    "pname k = ''clearing''" "sees a b x y s" "transaction_id t = tid"
    "commit_abort_path p t c s = (r, c', s')"
  shows "r = - 1 \<and> (\<exists>q. wire (trace s') = wire (trace s) @
    (if must_abort d then db_aborted (Cast_dbc (dbc x)) (if in_transaction x \<and> db_txn_id x = tid then ''ROLLBACK'' else rollback_cmd tid) else []) @
    (if must_abort k then cl_aborted tid y q else []))"
proof -
  let ?s = "abort_started c t s"
  let ?w = "if must_abort d then db_aborted (Cast_dbc (dbc x)) (if in_transaction x \<and> db_txn_id x = tid then ''ROLLBACK'' else rollback_cmd tid) else []"
  obtain ps s3 where l: "abort_loop (transaction_id t) (participants t) ?s = (ps, s3)" by fastforce
  define u where "u = (if must_abort d then clog ''INFO'' (Some tid) ''Participant aborted'' (snd (call_cb Abort d tid ?s)) else ?s)"
  obtain r1 s1 where c1: "call_cb Abort d tid ?s = (r1, s1)" by force
  have s: "sees a b x y ?s" using assms(6) by simp
  have u1: "\<exists>x'. sees a b x' y u" and u2: "wire (trace u) = wire (trace s) @ ?w"
    using call_db(3) [OF assms(2,3) s c1 refl] s by (auto simp: u_def c1 db_aborted_def)
  from u1 obtain x' where u1: "sees a b x' y u" by blast
  obtain r2 s2 where c2: "call_cb Abort k tid u = (r2, s2)" by force
  obtain q where q: "wire (trace s2) = wire (trace u) @ cl_aborted tid y q"
    using call_cl(3) [OF assms(4,5) u1 c2 refl] by (auto simp: cl_aborted_def)
  have "wire (trace s3) = wire (trace u) @ (if must_abort k then cl_aborted tid y q else [])"
    using l c1 c2 q by (auto simp: assms(1,7) u_def must_abort_def split: if_splits prod.splits)
  then show ?thesis using abort_path_wire [OF l assms(8)] u2 by auto
qed

lemma commit_both_wire:
  assumes "participants t = [d, k]" "db_participant_at pq a d" "pname d = ''database''" "cl_participant_at b k"
    "pname k = ''clearing''" "sees a b x y s" "transaction_id t = tid" "commit_phase p t c s = (r, c', s')"
    and "pstate d = PARTICIPANT_PREPARED" "pstate k = PARTICIPANT_PREPARED" "\<not> in_transaction x" "cl_txn_id y = tid" "has_hold y"
  shows "\<exists>c1 c2 m q. r = (if c1 = 0 \<and> c2 = 0 then 0 else - 1) \<and> wire (trace s') = wire (trace s) @
    [To_db (Cast_dbc (dbc x)) (commit_cmd tid), Voted ''database'' Commit c1] @
    tried (clearing_payload ''commit'' tid y) m c2 @ [Voted ''clearing'' Commit c2] @
    (if c1 \<noteq> 0 then db_aborted (Cast_dbc (dbc x)) (rollback_cmd tid) else []) @ (if c2 \<noteq> 0 then cl_aborted tid y q else [])"
proof -
  let ?s = "commit_started c t s"
  obtain c1 s1 where k1: "call_cb Commit d tid ?s = (c1, s1)" by force
  define x1 where "x1 = (if c1 = 0 then x\<lparr>db_txn_id := []\<rparr> else x)"
  have v: "sees a b x1 y s1" "wire (trace s1) = wire (trace s) @ [To_db (Cast_dbc (dbc x)) (commit_cmd tid), Voted ''database'' Commit c1]"
    using call_db(2) [OF assms(2,3) _ k1 refl] assms(6) by (simp_all add: x1_def)
  define u where "u = (if c1 = 0 then clog ''INFO'' (Some tid) ''Participant committed'' s1 else clog ''ERROR'' (Some tid) ''Participant commit failed'' s1)"
  have u: "sees a b x1 y u" "wire (trace u) = wire (trace s1)" using v by (simp_all add: u_def)
  obtain c2 s2 where k2: "call_cb Commit k tid u = (c2, s2)" by force
  define y1 where "y1 = (if c2 = 0 then y\<lparr>has_hold := False, cl_txn_id := []\<rparr> else y)"
  obtain m where w: "sees a b x1 y1 s2"
    "wire (trace s2) = wire (trace u) @ tried (clearing_payload ''commit'' tid y) m c2 @ [Voted ''clearing'' Commit c2]"
    using call_cl(2) [OF assms(4,5) u(1) k2 refl] assms(12,13) by (auto simp: y1_def)
  define s4 where "s4 = (if c2 = 0 then clog ''INFO'' (Some tid) ''Participant committed'' s2 else clog ''ERROR'' (Some tid) ''Participant commit failed'' s2)"
  have s4: "sees a b x1 y1 s4" "wire (trace s4) = wire (trace s2)" using w by (simp_all add: s4_def)
  let ?ps = "[d\<lparr>pstate := if c1 = 0 then PARTICIPANT_COMMITTED else PARTICIPANT_FAILED\<rparr>,
    k\<lparr>pstate := if c2 = 0 then PARTICIPANT_COMMITTED else PARTICIPANT_FAILED\<rparr>]"
  let ?t = "t\<lparr>tstate := TXN_COMMITTING, participants := ?ps\<rparr>"
  have l: "commit_loop (transaction_id t) (participants t) ?s = (c1 = 0 \<and> c2 = 0, ?ps, s4)"
    using k1 k2 by (auto simp: assms(1,7,9,10) u_def s4_def)
  note e = assms(8) [unfolded commit_phase_eq [OF l]]
  have goal: ?thesis if "r = (if c1 = 0 \<and> c2 = 0 then 0 else - 1)" "wire (trace s') = wire (trace s4) @
      (if c1 \<noteq> 0 then db_aborted (Cast_dbc (dbc x)) (rollback_cmd tid) else []) @ (if c2 \<noteq> 0 then cl_aborted tid y q else [])" for q
    by (rule exI [of _ c1], rule exI [of _ c2], rule exI [of _ m], rule exI [of _ q])
      (use that s4(2) w(2) u(2) v(2) in simp)
  show ?thesis
  proof (cases "c1 = 0 \<and> c2 = 0")
    case True
    then have "r = 0" "wire (trace s') = wire (trace s4)" using e by (auto simp: commit_finish_def Let_def)
    with True show ?thesis by (intro goal) simp_all
  next
    case False
    have a: "commit_abort_path p ?t c s4 = (r, c', s')" using e unfolding if_not_P [OF False] .
    have at: "db_participant_at pq a (d\<lparr>pstate := st\<rparr>)" "cl_participant_at b (k\<lparr>pstate := st\<rparr>)" for st
      using assms(2,4) by (simp_all add: db_participant_at_def cl_participant_at_def)
    have ab: "must_abort (d\<lparr>pstate := if c1 = 0 then PARTICIPANT_COMMITTED else PARTICIPANT_FAILED\<rparr>) = (c1 \<noteq> 0)"
      "must_abort (k\<lparr>pstate := if c2 = 0 then PARTICIPANT_COMMITTED else PARTICIPANT_FAILED\<rparr>) = (c2 \<noteq> 0)"
      by (simp_all add: must_abort_def)
    have x1: "dbc x1 = dbc x" "\<not> in_transaction x1" "cl_aborted tid y1 = cl_aborted tid y"
      using assms(11) by (simp_all add: x1_def y1_def cl_aborted_def fun_eq_iff)
    have pt: "participants ?t = ?ps" by simp
    have rb: "(if in_transaction x1 \<and> db_txn_id x1 = tid then ''ROLLBACK'' else rollback_cmd tid) = rollback_cmd tid"
      using x1(2) by simp
    have "r = - 1 \<and> (\<exists>q. wire (trace s') = wire (trace s4) @
      (if c1 \<noteq> 0 then db_aborted (Cast_dbc (dbc x)) (rollback_cmd tid) else []) @ (if c2 \<noteq> 0 then cl_aborted tid y q else []))"
      using abort_both_wire [OF pt at(1) _ at(2) _ s4(1) _ a, of tid] assms(3,5,7)
      unfolding ab x1(1,3) rb by simp
    then obtain q where "r = - 1" "wire (trace s') = wire (trace s4) @
      (if c1 \<noteq> 0 then db_aborted (Cast_dbc (dbc x)) (rollback_cmd tid) else []) @ (if c2 \<noteq> 0 then cl_aborted tid y q else [])"
      by blast
    with False show ?thesis by (intro goal [of q]) auto
  qed
qed

definition marked :: "int \<Rightarrow> 's participant \<Rightarrow> 's participant" where
  \<comment> \<open>a participant after its vote\<close>
  "marked r p = p\<lparr>pstate := if r = 0 then PARTICIPANT_PREPARED else PARTICIPANT_FAILED\<rparr>"

lemma marked_at [simp]:
  "db_participant_at pq a (marked r p) = db_participant_at pq a p" "cl_participant_at b (marked r p) = cl_participant_at b p"
  "pname (marked r p) = pname p" "must_abort (marked r p)" "pstate (marked 0 p) = PARTICIPANT_PREPARED"
  by (simp_all add: marked_def db_participant_at_def cl_participant_at_def must_abort_def)

lemma prepare_both_wire:
  assumes "db_participant_at pq a dp" "pname dp = ''database''" "cl_participant_at b kp" "pname kp = ''clearing''"
    and "sees a b d k s" "in_transaction d" "db_txn_id d = tid" "cl_txn_id k = tid"
  shows "(\<exists>p1 s'. p1 \<noteq> 0 \<and> prepare_loop tid [dp, kp] s = (False, [marked p1 dp, kp], s') \<and> sees a b d k s' \<and>
      wire (trace s') = wire (trace s) @ [To_db (Cast_dbc (dbc d)) (prepare_cmd tid), Voted ''database'' Prepare p1]) \<or>
    (\<exists>p2 n s'. prepare_loop tid [dp, kp] s = (p2 = 0, [marked 0 dp, marked p2 kp], s') \<and>
      sees a b (d\<lparr>in_transaction := False\<rparr>) (if p2 = 0 then k\<lparr>has_hold := True\<rparr> else k) s' \<and>
      wire (trace s') = wire (trace s) @ [To_db (Cast_dbc (dbc d)) (prepare_cmd tid), Voted ''database'' Prepare 0] @
        tried (clearing_payload ''prepare'' tid k) n p2 @ [Voted ''clearing'' Prepare p2])"
proof -
  let ?i = "clog ''INFO'' (Some tid) ''Preparing participant''"
  obtain p1 s1 where c1: "call_cb Prepare dp tid (?i s) = (p1, s1)" by force
  have s1: "sees a b (if p1 = 0 then d\<lparr>in_transaction := False\<rparr> else d) k s1"
    "wire (trace s1) = wire (trace s) @ [To_db (Cast_dbc (dbc d)) (prepare_cmd tid), Voted ''database'' Prepare p1]"
    using call_db(1) [OF assms(1,2) _ c1 refl assms(6,7)] assms(5) by simp_all
  show ?thesis
  proof (cases "p1 = 0")
    case False
    with c1 s1 show ?thesis
      by (intro disjI1 exI [of _ p1] exI [of _ "clog ''ERROR'' (Some tid) ''Participant prepare failed'' s1"]) (simp add: marked_def)
  next
    case True
    define s2 where "s2 = clog ''INFO'' (Some tid) ''Participant prepared'' s1"
    obtain p2 s3 where c2: "call_cb Prepare kp tid (?i s2) = (p2, s3)" by force
    have s2: "sees a b (d\<lparr>in_transaction := False\<rparr>) k (?i s2)" using s1 True by (simp add: s2_def)
    obtain n where s3: "sees a b (d\<lparr>in_transaction := False\<rparr>) (if p2 = 0 then k\<lparr>has_hold := True\<rparr> else k) s3"
      "wire (trace s3) = wire (trace s2) @ tried (clearing_payload ''prepare'' tid k) n p2 @ [Voted ''clearing'' Prepare p2]"
      using call_cl(1) [OF assms(3,4) s2 c2 refl assms(8)] by auto
    let ?s = "if p2 = 0 then clog ''INFO'' (Some tid) ''Participant prepared'' s3
      else clog ''ERROR'' (Some tid) ''Participant prepare failed'' s3"
    have "prepare_loop tid [dp, kp] s = (p2 = 0, [marked 0 dp, marked p2 kp], ?s)"
      using c1 c2 True by (simp add: s2_def marked_def)
    moreover have "sees a b (d\<lparr>in_transaction := False\<rparr>) (if p2 = 0 then k\<lparr>has_hold := True\<rparr> else k) ?s" "wire (trace ?s) = wire (trace s3)"
      using s3(1) by (simp_all split: if_splits)
    ultimately show ?thesis using s1(2) s3(2) True by (intro disjI2 exI [of _ p2] exI [of _ n] exI [of _ ?s]) (simp add: s2_def)
  qed
qed

lemma payment_wireI:
  assumes "es = es0 @ payment_wire x tid k p1 p2 c1 c2 n m q"
    and "r = (if p1 = 0 \<and> p2 = 0 \<and> c1 = 0 \<and> c2 = 0 then 0 else - 1)"
  shows "\<exists>p1 p2 c1 c2 n m q. es = es0 @ payment_wire x tid k p1 p2 c1 c2 n m q \<and>
     (r :: int) = (if p1 = 0 \<and> p2 = 0 \<and> c1 = 0 \<and> c2 = 0 then 0 else - 1)"
  using assms by blast

text \<open>
  C7. Everything that a payment's \<open>txn_commit\<close> gives to libpq and sends to the clearing service, in order and
  with the callbacks' results, whatever they answer, for a transaction that is active in its database context and
  set up in its clearing context. PREPARE TRANSACTION goes out first. If it fails, ROLLBACK follows and clearing is
  never contacted. If clearing does not take the hold (after some unanswered attempts, or none when the breaker is
  open), ROLLBACK PREPARED and one release request follow. Otherwise COMMIT PREPARED and the clearing commit are both
  tried, and each that was not confirmed is followed by its ROLLBACK PREPARED or its release request. The result is 0
  exactly when all four were confirmed. The theorem says what is sent, not that the rollback or the
  release is carried out: their answers change neither the result nor anything sent.
\<close>

theorem payment_commit_wire:
  assumes "tx_heap c p = Some t" and "payment_txn pq a b t" and "sees a b d k s"
    and "phase d = Active (transaction_id t)" and "cl_txn_id k = transaction_id t"
    and "txn_commit (Some p) c s = (r, c', s')"
  shows "\<exists>p1 p2 c1 c2 n m q.
     wire (trace s') = wire (trace s) @ payment_wire (Cast_dbc (dbc d)) (transaction_id t) k p1 p2 c1 c2 n m q \<and>
     r = (if p1 = 0 \<and> p2 = 0 \<and> c1 = 0 \<and> c2 = 0 then 0 else - 1)"
proof -
  let ?tid = "transaction_id t" and ?x = "Cast_dbc (dbc d)" and ?d = "d\<lparr>in_transaction := False\<rparr>"
  obtain dp kp where ps: "participants t = [dp, kp]" and dp: "db_participant_at pq a dp" "pname dp = ''database''"
    and kp: "cl_participant_at b kp" "pname kp = ''clearing''" and i: "\<not> must_abort kp"
    using assms(2) by (auto simp: payment_txn_def must_abort_def)
  have act: "in_transaction d" "db_txn_id d = ?tid" using assms(4) by (auto simp: phase_def split: if_splits)
  have v: "sees a b d k (prepare_started c t s)" using assms(3) by simp
  from prepare_both_wire [OF dp kp v act assms(5)]
  consider (no) p1 s1 where "p1 \<noteq> 0" "prepare_loop ?tid [dp, kp] (prepare_started c t s) = (False, [marked p1 dp, kp], s1)"
      "sees a b d k s1" "wire (trace s1) = wire (trace s) @ [To_db ?x (prepare_cmd ?tid), Voted ''database'' Prepare p1]"
    | (yes) p2 n s1 where "prepare_loop ?tid [dp, kp] (prepare_started c t s) = (p2 = 0, [marked 0 dp, marked p2 kp], s1)"
      "sees a b ?d (if p2 = 0 then k\<lparr>has_hold := True\<rparr> else k) s1"
      "wire (trace s1) = wire (trace s) @ [To_db ?x (prepare_cmd ?tid), Voted ''database'' Prepare 0] @
        tried (clearing_payload ''prepare'' ?tid k) n p2 @ [Voted ''clearing'' Prepare p2]"
    by (auto simp del: prepare_loop.simps)
  then show ?thesis
  proof cases
    case no
    let ?t = "t\<lparr>tstate := TXN_PREPARING, participants := [marked p1 dp, kp]\<rparr>"
    have pt: "participants ?t = [marked p1 dp, kp]" by simp
    have e: "commit_abort_path p ?t c s1 = (r, c', s')"
      using assms(6) txn_commit_eq [OF assms(1), unfolded ps, OF no(2)] by simp
    show ?thesis
      using abort_both_wire [OF pt _ _ kp no(3) _ e, of pq ?tid] dp act i no(1,4)
      by (intro payment_wireI [of _ _ _ _ _ p1 0 0 0 0 0 0]) (simp_all add: payment_wire_def)
  next
    case yes
    let ?t = "t\<lparr>tstate := TXN_PREPARING, participants := [marked 0 dp, marked p2 kp]\<rparr>"
    have pt: "participants ?t = [marked 0 dp, marked p2 kp]" by simp
    note e = assms(6) [unfolded txn_commit_eq [OF assms(1), unfolded ps, OF yes(1)]]
    show ?thesis
    proof (cases "p2 = 0")
      case False
      have a: "commit_abort_path p ?t c s1 = (r, c', s')" using e unfolding if_not_P [OF False] .
      obtain q where "r = - 1" "wire (trace s') = wire (trace s1) @ db_aborted ?x (rollback_cmd ?tid) @ cl_aborted ?tid k q"
        using abort_both_wire [OF pt _ _ _ _ yes(2) _ a, of pq ?tid, unfolded if_not_P [OF False]] dp kp by auto
      with False yes(3) show ?thesis
        by (intro payment_wireI [of _ _ _ _ _ 0 p2 0 0 n 0 q]) (simp_all add: payment_wire_def)
    next
      case True
      have a: "commit_phase p ?t c s1 = (r, c', s')" using e unfolding if_P [OF True] .
      have s1: "sees a b ?d (k\<lparr>has_hold := True\<rparr>) s1" using yes(2) unfolding if_P [OF True] .
      have k: "dbc ?d = dbc d" "clearing_payload act ?tid (k\<lparr>has_hold := True\<rparr>) = clearing_payload act ?tid k"
        "cl_aborted ?tid (k\<lparr>has_hold := True\<rparr>) = cl_aborted ?tid k" for act
        by (simp_all add: cl_aborted_def fun_eq_iff)
      from commit_both_wire [OF pt _ _ _ _ s1 _ a, of pq ?tid, unfolded k] dp kp True assms(5)
      obtain c1 c2 m q where "r = (if c1 = 0 \<and> c2 = 0 then 0 else - 1)" "wire (trace s') = wire (trace s1) @
        [To_db ?x (commit_cmd ?tid), Voted ''database'' Commit c1] @
        tried (clearing_payload ''commit'' ?tid k) m c2 @ [Voted ''clearing'' Commit c2] @
        (if c1 \<noteq> 0 then db_aborted ?x (rollback_cmd ?tid) else []) @ (if c2 \<noteq> 0 then cl_aborted ?tid k q else [])"
        by auto
      with True yes(3) show ?thesis
        by (intro payment_wireI [of _ _ _ _ _ 0 0 c1 c2 n m q]) (simp_all add: payment_wire_def)
    qed
  qed
qed

subsection \<open>The callbacks of a payment\<close>

lemma prefix_two:
  assumes "prefix xs [x, y]"
  obtains "xs = []" | "xs = [x]" | "xs = [x, y]"
proof -
  obtain zs where z: "[x, y] = xs @ zs" using assms by (auto simp: prefix_def)
  then show thesis using that by (auto simp: Cons_eq_append_conv)
qed

lemma map_fst_two:
  assumes "map fst xs = [x, y]"
  shows "\<exists>i j. xs = [(x, i), (y, j)]"
  using assms by (auto simp: map_eq_Cons_conv)

definition payment_calls :: "string \<Rightarrow> int \<Rightarrow> int \<Rightarrow> int \<Rightarrow> int \<Rightarrow> int \<Rightarrow> int \<Rightarrow> event list" where
  \<comment> \<open>the callbacks of a payment, given the answers to PREPARE, COMMIT and ABORT\<close>
  "payment_calls tid p1 p2 c1 c2 a1 a2 =
     (let db = Call ''database'' tid; cl = Call ''clearing'' tid in
      if p1 \<noteq> 0 then [db Prepare p1, db Abort a1]
      else if p2 \<noteq> 0 then [db Prepare 0, cl Prepare p2, db Abort a1, cl Abort a2]
      else [db Prepare 0, cl Prepare 0, db Commit c1, cl Commit c2] @
           (if c1 \<noteq> 0 then [db Abort a1] else []) @ (if c2 \<noteq> 0 then [cl Abort a2] else []))"

lemma payment_callsI:
  assumes "es = es0 @ payment_calls tid p1 p2 c1 c2 a1 a2"
    and "r = (if p1 = 0 \<and> p2 = 0 \<and> c1 = 0 \<and> c2 = 0 then 0 else - 1)"
  shows "\<exists>p1 p2 c1 c2 a1 a2. es = es0 @ payment_calls tid p1 p2 c1 c2 a1 a2 \<and>
     (r :: int) = (if p1 = 0 \<and> p2 = 0 \<and> c1 = 0 \<and> c2 = 0 then 0 else - 1)"
  using assms by blast

lemma payment_commit_calls:
  assumes "tx_heap c p = Some t" and "payment_txn pq a b t"
    and "txn_commit (Some p) c s = (r, c', s')"
  shows "\<exists>p1 p2 c1 c2 a1 a2.
     calls (trace s') = calls (trace s) @ payment_calls (transaction_id t) p1 p2 c1 c2 a1 a2 \<and>
     r = (if p1 = 0 \<and> p2 = 0 \<and> c1 = 0 \<and> c2 = 0 then 0 else - 1)"
proof -
  have n: "map pname (participants t) = [''database'', ''clearing'']"
    using assms(2) by (auto simp: payment_txn_def)
  obtain pv cv av where o: "twopc_outcome [''database'', ''clearing''] pv cv av r"
    and tr: "calls (trace s') = calls (trace s) @ evs (transaction_id t) Prepare pv
       @ evs (transaction_id t) Commit cv @ evs (transaction_id t) Abort av"
    using txn_commit_calls [OF assms(1) _ _ assms(3)] payment_txn_participants [OF assms(2)] n by metis
  show ?thesis
  proof (cases "zeros pv")
    case True
    with o obtain c1 c2 where cv: "cv = [(''database'', c1), (''clearing'', c2)]"
      using map_fst_two unfolding twopc_outcome_def by meson
    from True o have pv: "pv = [(''database'', 0), (''clearing'', 0)]"
      using map_fst_two [of pv "''database''" "''clearing''"] by (auto simp: twopc_outcome_def)
    have "map fst av = (if c1 \<noteq> 0 then [''database''] else []) @ (if c2 \<noteq> 0 then [''clearing''] else [])"
      and r: "r = (if c1 = 0 \<and> c2 = 0 then 0 else - 1)"
      using True o by (auto simp: twopc_outcome_def cv)
    then obtain a1 a2 where "av = (if c1 \<noteq> 0 then [(''database'', a1)] else []) @
        (if c2 \<noteq> 0 then [(''clearing'', a2)] else [])"
      by (auto simp: map_eq_Cons_conv split: if_splits)
    with r tr pv cv show ?thesis
      by (intro payment_callsI [of _ _ _ 0 0 c1 c2 a1 a2]) (auto simp: payment_calls_def Let_def)
  next
    case False
    then have "pv \<noteq> []" by auto
    have z: "zeros (butlast pv)" "snd (last pv) \<noteq> 0" and pre: "prefix (map fst pv) [''database'', ''clearing'']"
      using False o by (auto simp: twopc_outcome_def)
    from pre \<open>pv \<noteq> []\<close> have "map fst pv = [''database''] \<or> map fst pv = [''database'', ''clearing'']"
      by (elim prefix_two) simp_all
    then obtain p1 p2 where "pv = [(''database'', p1)] \<or> pv = [(''database'', p1), (''clearing'', p2)]"
      using map_fst_two [of pv] by (auto simp: map_eq_Cons_conv)
    with z have pv: "pv = [(''database'', p1)] \<and> p1 \<noteq> 0 \<or>
        pv = [(''database'', 0), (''clearing'', p2)] \<and> p2 \<noteq> 0" by auto
    have cv: "cv = []" and av: "map fst av = map fst pv" and r: "r = - 1"
      using False o by (auto simp: twopc_outcome_def)
    from pv show ?thesis
    proof (elim disjE conjE)
      assume p: "pv = [(''database'', p1)]" "p1 \<noteq> 0"
      with av obtain a1 where "av = [(''database'', a1)]" by (auto simp: map_eq_Cons_conv)
      with p cv r tr show ?thesis 
        by (intro payment_callsI [of _ _ _ p1 0 0 0 a1 0]) (auto simp: payment_calls_def Let_def)
    next
      assume p: "pv = [(''database'', 0), (''clearing'', p2)]" "p2 \<noteq> 0"
      with av obtain a1 a2 where "av = [(''database'', a1), (''clearing'', a2)]"
        by (auto simp: map_eq_Cons_conv)
      with p cv r tr show ?thesis
        by (intro payment_callsI [of _ _ _ 0 p2 0 0 a1 a2]) (auto simp: payment_calls_def Let_def)
    qed
  qed
qed

text \<open>
  C8. All outcomes of a payment's \<open>txn_commit\<close>. It returns 0 exactly when the database and the
  clearing service both prepared and both committed. In particular, when the clearing COMMIT fails
  after the database has committed, only clearing is told to abort and the result is -1: the
  caller sees a failed transaction whose database part is committed.
\<close>

theorem payment_commit_outcomes:
  assumes "tx_heap c p = Some t" and "payment_txn pq a b t"
    and "txn_commit (Some p) c s = (r, c', s')"
  shows "\<exists>p1 p2 c1 c2 a1 a2.
     calls (trace s') = calls (trace s) @ payment_calls (transaction_id t) p1 p2 c1 c2 a1 a2 \<and>
     r = (if p1 = 0 \<and> p2 = 0 \<and> c1 = 0 \<and> c2 = 0 then 0 else - 1)"
  using assms by (rule payment_commit_calls)

subsection \<open>A concrete payment\<close>

text \<open>
  A payment \<open>t1\<close> with its INSERT done, on a database that accepts every command and a clearing
  service that acknowledges the PREPARE and fails all three attempts of the COMMIT.
\<close>

definition demo_payment_sys :: "(string \<Rightarrow> row option) dsys" where
  "demo_payment_sys = (demo_dsys Map.empty)\<lparr>rand_src := (\<lambda>n. if n \<in> {4, 6, 8} then 0 else 50),
     db_ctxs := [20 \<mapsto> \<lparr>dbc = 3, db_txn_id = ''t1'', in_transaction = True\<rparr>],
     clearing_ctxs := [21 \<mapsto> demo_ctx]\<rparr>"

definition demo_payment_txn :: "(string \<Rightarrow> row option) dsys transaction" where
  "demo_payment_txn = \<lparr>transaction_id = ''t1'', tstate = TXN_INIT,
     participants = [\<lparr>pname = ''database'', pstate = PARTICIPANT_INIT, pcontext = 20,
        prepare_fn = db_prepare_cb demo_pq, commit_fn = db_commit_cb demo_pq, abort_fn = db_abort_cb demo_pq\<rparr>,
       \<lparr>pname = ''clearing'', pstate = PARTICIPANT_INIT, pcontext = 21,
        prepare_fn = cl_prepare_cb, commit_fn = cl_commit_cb, abort_fn = cl_abort_cb\<rparr>],
     start_time = 1000, prepare_timeout = 1030, commit_timeout = 1030\<rparr>"

definition demo_payment_coordinator :: "(string \<Rightarrow> row option) dsys coordinator" where
  "demo_payment_coordinator = \<lparr>active_transactions = [5], tx_heap = [5 \<mapsto> demo_payment_txn],
     txn_log = True, prepare_timeout_seconds = 30, commit_timeout_seconds = 30\<rparr>"

lemma demo_payment:
  "tx_heap demo_payment_coordinator 5 = Some demo_payment_txn"
  "payment_txn demo_pq 20 21 demo_payment_txn"
  "contexts_live 20 21 demo_payment_sys"
  "\<not> recorded 20 (transaction_id demo_payment_txn) demo_payment_sys"
  "\<not> recorded 21 (transaction_id demo_payment_txn) demo_payment_sys"
  by (simp_all add: demo_payment_coordinator_def payment_txn_def demo_payment_txn_def
      db_participant_at_def cl_participant_at_def contexts_live_def demo_payment_sys_def demo_dsys_def
      recorded_def phase_def demo_ctx_def)

lemma demo_payment_sees:
  "sees 20 21 \<lparr>dbc = 3, db_txn_id = ''t1'', in_transaction = True\<rparr> demo_ctx demo_payment_sys"
  "phase \<lparr>dbc = 3, db_txn_id = ''t1'', in_transaction = True\<rparr> = Active (transaction_id demo_payment_txn)"
  "cl_txn_id demo_ctx = transaction_id demo_payment_txn"
  by (simp_all add: sees_def demo_payment_sys_def phase_def demo_payment_txn_def demo_ctx_def)

text \<open>Witness of C7.\<close>

theorem payment_commit_wire_witness:
  "\<exists>r c' s' p1 p2 c1 c2 n m q. txn_commit (Some 5) demo_payment_coordinator demo_payment_sys = (r, c', s') \<and>
     wire (trace s') = payment_wire (Cast_dbc 3) ''t1'' demo_ctx p1 p2 c1 c2 n m q \<and>
     r = (if p1 = 0 \<and> p2 = 0 \<and> c1 = 0 \<and> c2 = 0 then 0 else - 1)"
proof -
  obtain r c' s' where e: "txn_commit (Some 5) demo_payment_coordinator demo_payment_sys = (r, c', s')"
    by (metis prod_cases3)
  have "trace demo_payment_sys = []" "transaction_id demo_payment_txn = ''t1''"
    by (simp_all add: demo_payment_sys_def demo_dsys_def demo_payment_txn_def)
  then show ?thesis
    using payment_commit_wire [OF demo_payment(1,2) demo_payment_sees e] e by simp
qed

text \<open>Witness of C8: the database commits, clearing does not, and the result is -1.\<close>

theorem payment_commit_outcomes_witness:
  "\<exists>r c' s' p1 p2 c1 c2 a1 a2.
     txn_commit (Some 5) demo_payment_coordinator demo_payment_sys = (r, c', s') \<and>
     calls (trace s') = payment_calls ''t1'' p1 p2 c1 c2 a1 a2 \<and>
     r = (if p1 = 0 \<and> p2 = 0 \<and> c1 = 0 \<and> c2 = 0 then 0 else - 1) \<and>
     calls (trace s') = payment_calls ''t1'' 0 0 0 (- 1) 0 0 \<and> r = - 1"
proof -
  obtain r c' s' where e: "txn_commit (Some 5) demo_payment_coordinator demo_payment_sys = (r, c', s')"
    by (metis prod_cases3)
  have "(case txn_commit (Some 5) demo_payment_coordinator demo_payment_sys of
      (r, _, s) \<Rightarrow> (r, calls (trace s))) = (- 1, payment_calls ''t1'' 0 0 0 (- 1) 0 0)"
    by code_simp
  then have "r = - 1" "calls (trace s') = payment_calls ''t1'' 0 0 0 (- 1) 0 0" by (simp_all add: e)
  moreover have "calls (trace demo_payment_sys) = []" "transaction_id demo_payment_txn = ''t1''"
    by (simp_all add: demo_payment_sys_def demo_dsys_def demo_payment_txn_def)
  ultimately show ?thesis
    using payment_commit_outcomes [OF demo_payment(1,2) e] e by (simp add: exI)
qed

end
