(* ===== verification/Reversal.thy ===== *)
theory Reversal
  imports Clearing Queues
begin

section \<open>The reversal worker (server/reversal.c)\<close>

text \<open>
  The queue of reversal tasks, a linked list from \<open>g_head\<close> through the heap \<open>g_tasks\<close>, and the body
  of the worker's loop. The loops that follow the links end only on a list without a cycle, so they
  are partial functions into \<^typ>\<open>'a option\<close>: \<^const>\<open>None\<close> means that the loop does not return or
  follows a dangling pointer, and the statements show that this does not happen. The worker's
  iteration is split at its lock operations: \<open>reversal_take\<close> is the part under the mutex and
  \<open>reversal_perform\<close> the part outside it.
\<close>

record task =
  r_txn_id :: string
  r_pan_masked :: string
  r_amount :: string
  r_merchant_id :: string
  attempts :: int
  next_at :: int
  r_next :: "nat option"

record reversal =
  g_head :: "nat option"
  g_tasks :: "nat \<Rightarrow> task option"
  g_shutdown :: bool

definition reversal_start :: reversal where
  "reversal_start = \<lparr>g_head = None, g_tasks = (\<lambda>_. None), g_shutdown = False\<rparr>"

definition env_or :: "'a sys_scheme \<Rightarrow> string \<Rightarrow> int \<Rightarrow> int" where
  "env_or s name d = (let v = (case env_src s name of Some t \<Rightarrow> atoi t | None \<Rightarrow> d) in if v > 0 then v else d)"

definition max_attempts :: "'a sys_scheme \<Rightarrow> int" where
  "max_attempts s = env_or s ''REVERSAL_MAX_ATTEMPTS'' 6"

definition base_delay_ms :: "'a sys_scheme \<Rightarrow> int" where
  "base_delay_ms s = env_or s ''REVERSAL_BASE_DELAY_MS'' 250"

partial_function (option) find_last :: "(nat \<Rightarrow> task option) \<Rightarrow> nat \<Rightarrow> nat option" where
  \<comment> \<open>\<open>while (p->next) p = p->next\<close>\<close>
  "find_last h p =
     (case h p of
        None \<Rightarrow> None
      | Some t \<Rightarrow> (case r_next t of None \<Rightarrow> Some p | Some q \<Rightarrow> find_last h q))"

declare find_last.simps [code]

definition set_next :: "nat \<Rightarrow> nat option \<Rightarrow> (nat \<Rightarrow> task option) \<Rightarrow> nat \<Rightarrow> task option" where
  "set_next p q h = h(p := map_option (\<lambda>t. t\<lparr>r_next := q\<rparr>) (h p))"

definition queue_push :: "nat \<Rightarrow> reversal \<Rightarrow> reversal option" where
  "queue_push t r =
     (let h = set_next t None (g_tasks r) in
      case g_head r of
        None \<Rightarrow> Some (r\<lparr>g_tasks := h, g_head := Some t\<rparr>)
      | Some p \<Rightarrow>
          (case find_last h p of
             None \<Rightarrow> None
           | Some l \<Rightarrow> Some (r\<lparr>g_tasks := set_next l (Some t) h\<rparr>)))"

partial_function (option) find_ready ::
    "(nat \<Rightarrow> task option) \<Rightarrow> int \<Rightarrow> nat option \<Rightarrow> nat option \<Rightarrow> (nat option \<times> nat) option option" where
  \<comment> \<open>the loop of \<open>queue_pop_ready\<close>: the pair \<open>prev\<close>, \<open>cur\<close> of the first ready task, if any\<close>
  "find_ready h now prev cur =
     (if cur = None then Some None
      else
        (case h (the cur) of
           None \<Rightarrow> None
         | Some t \<Rightarrow>
             if next_at t \<le> now then Some (Some (prev, the cur))
             else find_ready h now cur (r_next t)))"

declare find_ready.simps [code]

definition queue_pop_ready :: "int \<Rightarrow> reversal \<Rightarrow> (nat option \<times> reversal) option" where
  "queue_pop_ready now r =
     (case find_ready (g_tasks r) now None (g_head r) of
        None \<Rightarrow> None
      | Some None \<Rightarrow> Some (None, r)
      | Some (Some (prev, c)) \<Rightarrow>
          let nx = (case g_tasks r c of None \<Rightarrow> None | Some t \<Rightarrow> r_next t);
              r = (case prev of
                     Some p \<Rightarrow> r\<lparr>g_tasks := set_next p nx (g_tasks r)\<rparr>
                   | None \<Rightarrow> r\<lparr>g_head := nx\<rparr>)
          in Some (Some c, r\<lparr>g_tasks := set_next c None (g_tasks r)\<rparr>))"

definition reversal_enqueue ::
    "string option \<Rightarrow> string option \<Rightarrow> string option \<Rightarrow> string option \<Rightarrow> reversal \<Rightarrow> 'a csys_scheme \<Rightarrow>
     (int \<times> reversal \<times> 'a csys_scheme) option" where
  "reversal_enqueue txn_id pm amt mid r s =
     (case txn_id of
        Some (c # cs) \<Rightarrow>
          (case malloc s of
             (None, s) \<Rightarrow> Some (- 1, r, s)
           | (Some a, s) \<Rightarrow>
               let field = (\<lambda>n v. case v of None \<Rightarrow> [] | Some x \<Rightarrow> clip n x);
                   (now, s) = time_null s;
                   t = \<lparr>r_txn_id = clip MAX_TRANSACTION_ID_LEN (c # cs), r_pan_masked = field 32 pm,
                        r_amount = field 16 amt, r_merchant_id = field 32 mid, attempts = 0,
                        next_at = now, r_next = None\<rparr>
               in case queue_push a (r\<lparr>g_tasks := (g_tasks r)(a \<mapsto> t)\<rparr>) of
                    None \<Rightarrow> None
                  | Some r \<Rightarrow>
                      Some (0, r, logj ''WARN'' ''reversal'' (Some (c # cs)) ''Reversal enqueued''
                                   (with_metrics metrics_inc_reversal_enqueued s)))
      | _ \<Rightarrow> Some (- 1, r, s))"

datatype taken = Blocked | Stop | Not_ready | Task nat

definition reversal_take :: "reversal \<Rightarrow> 'a csys_scheme \<Rightarrow> (taken \<times> reversal \<times> 'a csys_scheme) option" where
  \<comment> \<open>the worker under the mutex: it keeps waiting, leaves the loop, waits for a task to become
      ready, or takes one\<close>
  "reversal_take r s =
     (if g_head r = None then Some (if g_shutdown r then Stop else Blocked, r, s)
      else
        let (now, s) = time_null s in
        case queue_pop_ready now r of
          None \<Rightarrow> None
        | Some (None, r) \<Rightarrow> Some (Not_ready, r, s)
        | Some (Some a, r) \<Rightarrow> Some (Task a, r, s))"

definition c_div1000 :: "int \<Rightarrow> int" where
  "c_div1000 d = (if d \<ge> 0 then d div 1000 else - ((- d) div 1000))"

definition reversal_retry :: "nat \<Rightarrow> task \<Rightarrow> reversal \<Rightarrow> 'a csys_scheme \<Rightarrow> (reversal \<times> 'a csys_scheme) option" where
  \<comment> \<open>the part of the loop below \<open>schedule retry\<close>\<close>
  "reversal_retry a t r s =
     (let t = t\<lparr>attempts := attempts t + 1\<rparr> in
      if attempts t \<ge> max_attempts s then
        Some (r\<lparr>g_tasks := (g_tasks r)(a := None)\<rparr>,
              with_metrics metrics_inc_reversal_failed
                (logj ''ERROR'' ''reversal'' (Some (r_txn_id t)) ''Reversal failed permanently'' s))
      else
        let delay = to_int32 (base_delay_ms s * to_int32 (2 ^ nat (attempts t - 1)));
            (now, s) = time_null s;
            t = t\<lparr>next_at := now + c_div1000 delay\<rparr>
        in case queue_push a (r\<lparr>g_tasks := (g_tasks r)(a \<mapsto> t)\<rparr>) of
             None \<Rightarrow> None
           | Some r \<Rightarrow> Some (r, s))"

definition reversal_perform :: "nat \<Rightarrow> reversal \<Rightarrow> 'a csys_scheme \<Rightarrow> (reversal \<times> 'a csys_scheme) option" where
  \<comment> \<open>the worker outside the mutex, with the task at \<open>a\<close>\<close>
  "reversal_perform a r s =
     (case g_tasks r a of
        None \<Rightarrow> None
      | Some t \<Rightarrow>
          (case clearing_participant_init None 10 s of
             (Some x, s) \<Rightarrow>
               let (_, s) = clearing_participant_set_transaction (Some x) (Some (r_txn_id t))
                              (Some (r_pan_masked t)) (Some (r_amount t)) (Some (r_merchant_id t)) s;
                   (rc, s) = clearing_participant_abort (Some x) (Some (r_txn_id t)) s;
                   s = clearing_participant_destroy (Some x) s
               in if rc = 0 then
                    Some (r\<lparr>g_tasks := (g_tasks r)(a := None)\<rparr>,
                          with_metrics metrics_inc_reversal_succeeded
                            (logj ''INFO'' ''reversal'' (Some (r_txn_id t)) ''Reversal success'' s))
                  else reversal_retry a t r s
           | (None, s) \<Rightarrow> reversal_retry a t r s))"

partial_function (option) free_tasks :: "(nat \<Rightarrow> task option) \<Rightarrow> nat option \<Rightarrow> (nat \<Rightarrow> task option) option" where
  \<comment> \<open>the loop at the end of \<open>reversal_shutdown\<close>\<close>
  "free_tasks h cur =
     (if cur = None then Some h
      else (case h (the cur) of None \<Rightarrow> None | Some t \<Rightarrow> free_tasks (h(the cur := None)) (r_next t)))"

declare free_tasks.simps [code]

definition reversal_shutdown_begin :: "reversal \<Rightarrow> reversal" where
  "reversal_shutdown_begin r = r\<lparr>g_shutdown := True\<rparr>"

definition reversal_shutdown_end :: "reversal \<Rightarrow> reversal option" where
  \<comment> \<open>after the worker is joined\<close>
  "reversal_shutdown_end r =
     (case free_tasks (g_tasks r) (g_head r) of
        None \<Rightarrow> None
      | Some h \<Rightarrow> Some (r\<lparr>g_tasks := h, g_head := None\<rparr>))"

definition reversal_init :: "bool \<Rightarrow> reversal \<Rightarrow> int \<times> reversal" where
  \<comment> \<open>the argument: whether \<open>pthread_create\<close> succeeds\<close>
  "reversal_init created r = (if created then 0 else - 1, r\<lparr>g_shutdown := False\<rparr>)"

subsection \<open>The queue\<close>

definition rev_chain :: "reversal \<Rightarrow> nat list \<Rightarrow> bool" where
  "rev_chain r as \<longleftrightarrow> chain (g_tasks r) r_next (g_head r) as \<and> distinct as"

lemma find_last_chain:
  assumes "chain h r_next (Some p) as"
  shows "find_last h p = Some (last as)"
  using assms
proof (induction as arbitrary: p)
  case Nil
  then show ?case by simp
next
  case (Cons a as)
  then obtain t where t: "h a = Some t" and c: "chain h r_next (r_next t) as" and p: "p = a"
    by (auto split: option.splits)
  show ?case
  proof (cases as)
    case Nil
    with t c p show ?thesis by (simp add: find_last.simps)
  next
    case (Cons b bs)
    with c have n: "r_next t = Some b" by simp
    then have "find_last h b = Some (last as)" using Cons.IH c by simp
    with t p n Cons show ?thesis by (simp add: find_last.simps [of h a])
  qed
qed

lemma queue_push_chain:
  assumes "rev_chain r as" and "a \<notin> set as" and "g_tasks r a = Some t"
  shows "\<exists>r'. queue_push a r = Some r' \<and> rev_chain r' (as @ [a]) \<and> g_shutdown r' = g_shutdown r \<and>
    (\<forall>x. map_option (\<lambda>t. t\<lparr>r_next := None\<rparr>) (g_tasks r' x) = map_option (\<lambda>t. t\<lparr>r_next := None\<rparr>) (g_tasks r x))"
proof -
  let ?h = "set_next a None (g_tasks r)"
  have c: "chain ?h r_next (g_head r) as"
    using assms(1,2) by (auto simp: rev_chain_def set_next_def intro: chain_fresh)
  have d: "distinct (as @ [a])" using assms(1,2) by (simp add: rev_chain_def)
  show ?thesis
  proof (cases as)
    case Nil
    with c have "g_head r = None" by simp
    then show ?thesis
      using assms(3) Nil by (auto simp: queue_push_def rev_chain_def set_next_def)
  next
    case (Cons p ps)
    then have p: "g_head r = Some p" using c by simp
    have l: "find_last ?h p = Some (last as)" using find_last_chain c p by simp
    obtain n where n: "?h (last as) = Some n"
      using chain_dom [OF c] Cons last_in_set by (metis list.distinct(1) option.exhaust)
    have "chain (?h(last as \<mapsto> n\<lparr>r_next := Some a\<rparr>)) r_next (g_head r) (as @ [a])"
      by (rule chain_snoc [OF c _ _ assms(2) _ _ n, of "t\<lparr>r_next := None\<rparr>"])
        (use d assms(3) Cons in \<open>simp_all add: set_next_def\<close>)
    moreover have "set_next (last as) (Some a) ?h = ?h(last as \<mapsto> n\<lparr>r_next := Some a\<rparr>)"
      using n by (simp add: set_next_def)
    ultimately show ?thesis
      using p l d n assms(3)
      by (auto simp: queue_push_def rev_chain_def set_next_def option.map_comp comp_def)
  qed
qed

definition waits :: "(nat \<Rightarrow> task option) \<Rightarrow> int \<Rightarrow> nat \<Rightarrow> bool" where
  \<comment> \<open>the task at \<open>a\<close> is not ready yet\<close>
  "waits h now a \<longleftrightarrow> (case h a of None \<Rightarrow> False | Some t \<Rightarrow> now < next_at t)"

lemma find_ready_spec:
  assumes "chain h r_next cur as"
  shows "(\<forall>a \<in> set as. waits h now a) \<and> find_ready h now prev cur = Some None \<or>
    (\<exists>us c vs. as = us @ c # vs \<and> (\<forall>a \<in> set us. waits h now a) \<and> \<not> waits h now c \<and>
      find_ready h now prev cur = Some (Some (if us = [] then prev else Some (last us), c)))"
  using assms
proof (induction as arbitrary: prev cur)
  case Nil
  then show ?case by (simp add: find_ready.simps)
next
  case (Cons a as)
  then obtain t where t: "h a = Some t" and c: "chain h r_next (r_next t) as" and p: "cur = Some a"
    by (auto split: option.splits)
  show ?case
  proof (cases "next_at t \<le> now")
    case True
    then have "find_ready h now prev cur = Some (Some (prev, a))" "\<not> waits h now a"
      using t p by (simp_all add: find_ready.simps [of h now prev] waits_def)
    then have "a # as = [] @ a # as \<and> (\<forall>x \<in> set []. waits h now x) \<and> \<not> waits h now a \<and>
        find_ready h now prev cur = Some (Some (if [] = [] then prev else Some (last []), a))"
      by simp
    then show ?thesis by blast
  next
    case False
    then have e: "find_ready h now prev cur = find_ready h now (Some a) (r_next t)" and w: "waits h now a"
      using t p by (simp_all add: find_ready.simps [of h now prev] waits_def)
    from Cons.IH [OF c, of "Some a"] show ?thesis
    proof (elim disjE conjE exE)
      assume "\<forall>a \<in> set as. waits h now a" "find_ready h now (Some a) (r_next t) = Some None"
      with e w show ?thesis by simp
    next
      fix us d vs assume s: "as = us @ d # vs" "\<forall>a \<in> set us. waits h now a" "\<not> waits h now d"
        "find_ready h now (Some a) (r_next t) = Some (Some (if us = [] then Some a else Some (last us), d))"
      then have "a # as = (a # us) @ d # vs \<and> (\<forall>x \<in> set (a # us). waits h now x) \<and> \<not> waits h now d \<and>
          find_ready h now prev cur = Some (Some (if a # us = [] then prev else Some (last (a # us)), d))"
        using e w by simp
      then show ?thesis by blast
    qed
  qed
qed

lemma queue_pop_ready_chain:
  assumes "rev_chain r as"
  shows "(\<forall>a \<in> set as. waits (g_tasks r) now a) \<and> queue_pop_ready now r = Some (None, r) \<or>
    (\<exists>us c vs r'. as = us @ c # vs \<and> (\<forall>a \<in> set us. waits (g_tasks r) now a) \<and> \<not> waits (g_tasks r) now c \<and>
      queue_pop_ready now r = Some (Some c, r') \<and> rev_chain r' (us @ vs) \<and> g_shutdown r' = g_shutdown r \<and>
      (\<forall>x. map_option (\<lambda>t. t\<lparr>r_next := None\<rparr>) (g_tasks r' x) = map_option (\<lambda>t. t\<lparr>r_next := None\<rparr>) (g_tasks r x)))"
proof -
  let ?h = "g_tasks r"
  have ch: "chain ?h r_next (g_head r) as" and d: "distinct as" using assms by (simp_all add: rev_chain_def)
  from find_ready_spec [OF ch, of now None] show ?thesis
  proof (elim disjE conjE exE)
    assume "\<forall>a \<in> set as. waits ?h now a" "find_ready ?h now None (g_head r) = Some None"
    then show ?thesis by (simp add: queue_pop_ready_def)
  next
    fix us c vs assume s: "as = us @ c # vs" "\<forall>a \<in> set us. waits ?h now a" "\<not> waits ?h now c"
      and f: "find_ready ?h now None (g_head r) = Some (Some (if us = [] then None else Some (last us), c))"
    obtain m where m: "?h c = Some m" using chain_dom [OF ch] s(1) by fastforce
    show ?thesis
    proof (cases us rule: rev_cases)
      case Nil
      let ?r = "r\<lparr>g_head := r_next m, g_tasks := set_next c None ?h\<rparr>"
      have "chain ?h r_next (r_next m) vs" using ch s(1) m Nil by simp
      then have "chain (set_next c None ?h) r_next (r_next m) vs"
        unfolding set_next_def by (rule chain_fresh) (use d s(1) in simp)
      moreover have "queue_pop_ready now r = Some (Some c, ?r)"
        using f m Nil by (simp add: queue_pop_ready_def)
      ultimately show ?thesis
        using s d Nil m
        by (intro disjI2 exI [of _ us] exI [of _ c] exI [of _ vs] exI [of _ ?r])
          (auto simp: rev_chain_def set_next_def)
    next
      case (snoc ws x)
      have as: "as = ws @ x # c # vs" using s(1) snoc by simp
      obtain n where n: "?h x = Some n" using chain_dom [OF ch] as by fastforce
      let ?h1 = "?h(x \<mapsto> n\<lparr>r_next := r_next m\<rparr>)"
      let ?r = "r\<lparr>g_tasks := set_next c None ?h1\<rparr>"
      have "chain ?h1 r_next (g_head r) (ws @ x # vs)"
        by (rule chain_unlink [OF ch [unfolded as] d [unfolded as] n m]) simp
      then have "chain (set_next c None ?h1) r_next (g_head r) (us @ vs)"
        unfolding set_next_def snoc append_assoc append_Cons append_Nil
        by (rule chain_fresh) (use d as in auto)
      moreover have "x \<noteq> c" using d as by auto
      then have "queue_pop_ready now r = Some (Some c, ?r)"
        using f m n snoc by (simp add: queue_pop_ready_def set_next_def)
      ultimately show ?thesis
        using s d snoc m n \<open>x \<noteq> c\<close>
        by (intro disjI2 exI [of _ us] exI [of _ c] exI [of _ vs] exI [of _ ?r])
          (auto simp: rev_chain_def set_next_def)
    qed
  qed
qed

text \<open>
  The task queue serves the first task that is ready and loses nothing: on a well-formed queue
  with the tasks \<open>as\<close>, \<open>queue_pop_ready\<close> returns, either with nothing because every task is still
  waiting, or with the first task of the queue that is ready, leaving the others queued in their
  order with their contents; and \<open>queue_push\<close> of a new task returns with it appended at the end.
\<close>

theorem reversal_queue_order:
  assumes "rev_chain r as"
  shows "(if \<forall>a \<in> set as. waits (g_tasks r) now a then queue_pop_ready now r = Some (None, r)
     else \<exists>us c vs r'. as = us @ c # vs \<and> (\<forall>a \<in> set us. waits (g_tasks r) now a) \<and>
       \<not> waits (g_tasks r) now c \<and> queue_pop_ready now r = Some (Some c, r') \<and> rev_chain r' (us @ vs) \<and>
       (\<forall>x. map_option (\<lambda>t. t\<lparr>r_next := None\<rparr>) (g_tasks r' x) =
            map_option (\<lambda>t. t\<lparr>r_next := None\<rparr>) (g_tasks r x))) \<and>
    (\<forall>a t. a \<notin> set as \<and> g_tasks r a = Some t \<longrightarrow>
       (\<exists>r'. queue_push a r = Some r' \<and> rev_chain r' (as @ [a])))"
proof (rule conjI)
  show "if \<forall>a \<in> set as. waits (g_tasks r) now a then queue_pop_ready now r = Some (None, r)
     else \<exists>us c vs r'. as = us @ c # vs \<and> (\<forall>a \<in> set us. waits (g_tasks r) now a) \<and>
       \<not> waits (g_tasks r) now c \<and> queue_pop_ready now r = Some (Some c, r') \<and> rev_chain r' (us @ vs) \<and>
       (\<forall>x. map_option (\<lambda>t. t\<lparr>r_next := None\<rparr>) (g_tasks r' x) =
            map_option (\<lambda>t. t\<lparr>r_next := None\<rparr>) (g_tasks r x))"
    using queue_pop_ready_chain [OF assms, of now] by auto
  show "\<forall>a t. a \<notin> set as \<and> g_tasks r a = Some t \<longrightarrow>
       (\<exists>r'. queue_push a r = Some r' \<and> rev_chain r' (as @ [a]))"
    using queue_push_chain [OF assms] by meson
qed

subsection \<open>Performing a reversal\<close>

lemma clearing_init_spec:
  assumes "clearing_participant_init u to s = (x, s')"
  shows "x = (if alloc_src s (allocs s) then Some (allocs s) else None)"
    and "allocs s' = Suc (allocs s)" and "metrics s' = metrics s" and "trace s' = trace s"
    and "alloc_src s' = alloc_src s" and "env_src s' = env_src s" and "csys.more s' = csys.more s"
    and "x = Some a \<Longrightarrow> \<exists>ctx. clearing_ctxs s' = (clearing_ctxs s)(a \<mapsto> ctx) \<and> \<not> has_hold ctx"
    and "x = None \<Longrightarrow> clearing_ctxs s' = clearing_ctxs s"
  using assms
  by (auto simp: clearing_participant_init_def malloc_def Let_def time_null_def cb_load_env_defaults_def
      split: if_splits prod.splits)

lemma clearing_set_spec:
  assumes "clearing_ctxs s x = Some c"
    and "clearing_participant_set_transaction (Some x) (Some tid) (Some pm) (Some am) (Some mid) s = (rc, s')"
  shows "clearing_ctxs s' = (clearing_ctxs s)(x \<mapsto> c\<lparr>cl_txn_id := clip MAX_TRANSACTION_ID_LEN tid,
      pan_masked := clip 32 pm, amount := clip 16 am, merchant_id := clip 32 mid\<rparr>)"
    and "metrics s' = metrics s" and "allocs s' = allocs s" and "reqs (trace s') = reqs (trace s)"
    and "csys.more s' = csys.more s" and "rc = 0" and "alloc_src s' = alloc_src s"
  using assms by (auto simp: clearing_participant_set_transaction_def Let_def)

lemma reversal_perform_spec:
  assumes "g_tasks r a = Some t" and "alloc_src s (allocs s)"
  shows "\<exists>s' ctx q. reversal_perform a r s = Some (r\<lparr>g_tasks := (g_tasks r)(a := None)\<rparr>, s') \<and>
    metrics s' = metrics_inc_reversal_succeeded (metrics s) \<and> allocs s' = Suc (allocs s) \<and>
    reqs (trace s') = reqs (trace s) @ [(clearing_payload ''abort'' (r_txn_id t) ctx, q)] \<and>
    pan_masked ctx = clip 32 (r_pan_masked t) \<and> amount ctx = clip 16 (r_amount t) \<and>
    merchant_id ctx = clip 32 (r_merchant_id t) \<and>
    clearing_ctxs s' = (clearing_ctxs s)(allocs s := None) \<and> csys.more s' = csys.more s"
proof -
  obtain x s1 where i: "clearing_participant_init None 10 s = (x, s1)" by force
  note fi = clearing_init_spec [OF i]
  let ?x = "allocs s"
  have x: "x = Some ?x" using fi(1) assms(2) by simp
  from fi(8) [OF x] obtain c0 where c0: "clearing_ctxs s1 = (clearing_ctxs s)(?x \<mapsto> c0)" "\<not> has_hold c0" by blast
  obtain rc0 s2 where st: "clearing_participant_set_transaction (Some ?x) (Some (r_txn_id t))
      (Some (r_pan_masked t)) (Some (r_amount t)) (Some (r_merchant_id t)) s1 = (rc0, s2)" by force
  let ?c = "c0\<lparr>cl_txn_id := clip MAX_TRANSACTION_ID_LEN (r_txn_id t), pan_masked := clip 32 (r_pan_masked t),
      amount := clip 16 (r_amount t), merchant_id := clip 32 (r_merchant_id t)\<rparr>"
  have "clearing_ctxs s1 ?x = Some c0" by (simp add: c0)
  note fs = clearing_set_spec [OF this st]
  have c2: "clearing_ctxs s2 ?x = Some ?c" by (simp add: fs(1))
  obtain rc s3 where ab: "clearing_participant_abort (Some ?x) (Some (r_txn_id t)) s2 = (rc, s3)" by force
  note fa = clearing_abort_spec [OF c2 ab]
  have ctx3: "clearing_ctxs s3 ?x = Some (?c\<lparr>has_hold := False, cl_txn_id := []\<rparr>)" using fa by simp
  have d: "clearing_participant_destroy (Some ?x) s3 = s3\<lparr>clearing_ctxs := (clearing_ctxs s3)(?x := None)\<rparr>"
    using ctx3 by (simp add: clearing_participant_destroy_def)
  let ?s = "with_metrics metrics_inc_reversal_succeeded (logj ''INFO'' ''reversal'' (Some (r_txn_id t))
      ''Reversal success'' (s3\<lparr>clearing_ctxs := (clearing_ctxs s3)(?x := None)\<rparr>))"
  have e: "reversal_perform a r s = Some (r\<lparr>g_tasks := (g_tasks r)(a := None)\<rparr>, ?s)"
    using assms(1) i x st ab fa d by (simp add: reversal_perform_def)
  obtain q where q: "reqs (trace s3) = reqs (trace s2) @ [(clearing_payload ''abort'' (r_txn_id t) ?c, q)]"
    using fa by blast
  have "clearing_ctxs ?s = (clearing_ctxs s)(?x := None)"
    using fa fs(1) c0(1) by (simp add: with_metrics_def logj_def emit_def)
  moreover have "reqs (trace ?s) = reqs (trace s) @ [(clearing_payload ''abort'' (r_txn_id t) ?c, q)]"
    using q fs(4) fi(4) by simp
  moreover have "metrics ?s = metrics_inc_reversal_succeeded (metrics s)" "allocs ?s = Suc (allocs s)"
    using fa fs(2,3) fi(2,3) by simp_all
  moreover have "csys.more ?s = csys.more s" using fa fs(5) fi(7) by (simp add: with_metrics_def logj_def emit_def)
  ultimately show ?thesis using e by (intro exI [of _ ?s] exI [of _ ?c] exI [of _ q]) simp
qed

text \<open>
  A reversal sends one abort and is then over: whenever the clearing context can be allocated,
  \<open>reversal_perform\<close> sends exactly one abort request, for the task's transaction with its card
  number, amount and merchant, counts the reversal as succeeded and frees the task and the context,
  whatever the service answers (the result \<open>q\<close> of the request may be -1). A task is retried only
  when memory runs out.
\<close>

theorem reversal_perform_once:
  assumes "g_tasks r a = Some t" and "alloc_src s (allocs s)"
  shows "\<exists>s' ctx q. reversal_perform a r s = Some (r\<lparr>g_tasks := (g_tasks r)(a := None)\<rparr>, s') \<and>
    metrics s' = metrics_inc_reversal_succeeded (metrics s) \<and>
    reqs (trace s') = reqs (trace s) @ [(clearing_payload ''abort'' (r_txn_id t) ctx, q)] \<and>
    pan_masked ctx = clip 32 (r_pan_masked t) \<and> amount ctx = clip 16 (r_amount t) \<and>
    merchant_id ctx = clip 32 (r_merchant_id t) \<and>
    clearing_ctxs s' = (clearing_ctxs s)(allocs s := None)"
  using reversal_perform_spec [OF assms] by blast

definition demo_task :: task where
  "demo_task = \<lparr>r_txn_id = ''t1'', r_pan_masked = ''411111******1111'', r_amount = ''12.50'',
     r_merchant_id = ''MERCHANT001'', attempts = 0, next_at = 1000, r_next = None\<rparr>"

definition demo_reversal :: reversal where
  "demo_reversal = \<lparr>g_head = Some 3, g_tasks = [3 \<mapsto> demo_task, 4 \<mapsto> demo_task], g_shutdown = False\<rparr>"

text \<open>A concrete instance.\<close>

theorem reversal_queue_order_witness:
  "queue_pop_ready 999 demo_reversal = Some (None, demo_reversal) \<and>
   (\<exists>r'. queue_push 4 demo_reversal = Some r' \<and> rev_chain r' [3, 4])"
proof -
  have "rev_chain demo_reversal [3]" by (simp add: rev_chain_def demo_reversal_def demo_task_def)
  note t = reversal_queue_order [OF this, of 999]
  have "\<forall>a \<in> set [3]. waits (g_tasks demo_reversal) 999 a"
    by (simp add: waits_def demo_reversal_def demo_task_def)
  moreover have "g_tasks demo_reversal 4 = Some demo_task" by (simp add: demo_reversal_def)
  ultimately show ?thesis using t by auto
qed

text \<open>A concrete instance: the second draw makes the request fail, and the reversal still succeeds.\<close>

theorem reversal_perform_once_witness:
  "\<exists>r' s'. reversal_perform 3 demo_reversal (demo_csys demo_ctx) = Some (r', s') \<and>
     metrics s' = metrics_inc_reversal_succeeded metrics_zero \<and> length (reqs (trace s')) = 1"
proof -
  have "g_tasks demo_reversal 3 = Some demo_task" by (simp add: demo_reversal_def)
  moreover have "alloc_src (demo_csys demo_ctx) (allocs (demo_csys demo_ctx))"
    "metrics (demo_csys demo_ctx) = metrics_zero" "trace (demo_csys demo_ctx) = []"
    by (simp_all add: demo_csys_def)
  ultimately show ?thesis using reversal_perform_once [of demo_reversal 3 demo_task "demo_csys demo_ctx"]
    by fastforce
qed

subsection \<open>The worker and the request threads\<close>

text \<open>
  The request threads enqueue at any time; the worker takes a ready task and performs it. The
  clearing traffic of \<open>reversal_perform\<close> happens outside the queue's mutex and touches nothing that
  \<open>reversal_enqueue\<close> touches, so it is one step here; likewise the increment of a counter right after
  the critical section it belongs to.
\<close>

record rev_state =
  rv :: reversal
  rv_sys :: csys
  in_flight :: "nat option"

inductive rev_step :: "rev_state \<Rightarrow> rev_state \<Rightarrow> bool" where
  enqueue: "reversal_enqueue tid pm am mid (rv w) (rv_sys w) = Some (rc, r', s') \<Longrightarrow>
     rev_step w (w\<lparr>rv := r', rv_sys := s'\<rparr>)"
| take: "in_flight w = None \<Longrightarrow> reversal_take (rv w) (rv_sys w) = Some (Task a, r', s') \<Longrightarrow>
     rev_step w (w\<lparr>rv := r', rv_sys := s', in_flight := Some a\<rparr>)"
| idle: "in_flight w = None \<Longrightarrow> reversal_take (rv w) (rv_sys w) = Some (Not_ready, r', s') \<Longrightarrow>
     rev_step w (w\<lparr>rv := r', rv_sys := s'\<rparr>)"
| perform: "in_flight w = Some a \<Longrightarrow> reversal_perform a (rv w) (rv_sys w) = Some (r', s') \<Longrightarrow>
     rev_step w (w\<lparr>rv := r', rv_sys := s', in_flight := None\<rparr>)"
| stop: "rev_step w (w\<lparr>rv := reversal_shutdown_begin (rv w)\<rparr>)"

inductive rev_reach :: "rev_state \<Rightarrow> rev_state \<Rightarrow> bool" for w0 where
  rev_start: "rev_reach w0 w0"
| rev_next: "rev_reach w0 w \<Longrightarrow> rev_step w w' \<Longrightarrow> rev_reach w0 w'"

definition rev_counts :: "metrics \<Rightarrow> nat \<Rightarrow> bool" where
  \<comment> \<open>enqueued = succeeded + failed + still in the system, on the 64-bit counters\<close>
  "rev_counts m n \<longleftrightarrow> g_rev_enq m = g_rev_ok m + g_rev_fail m + of_nat n"

definition rev_inv :: "rev_state \<Rightarrow> bool" where
  "rev_inv w \<longleftrightarrow>
     (\<exists>as. rev_chain (rv w) as \<and>
        (\<forall>a. in_flight w = Some a \<longrightarrow> a \<notin> set as \<and> g_tasks (rv w) a \<noteq> None) \<and>
        (\<forall>x \<ge> allocs (rv_sys w). g_tasks (rv w) x = None) \<and>
        rev_counts (metrics (rv_sys w)) (length as + (if in_flight w = None then 0 else 1)))"

lemma rev_invI:
  assumes "rev_chain (rv w) as" and "\<forall>a. in_flight w = Some a \<longrightarrow> a \<notin> set as \<and> g_tasks (rv w) a \<noteq> None"
    and "\<forall>x \<ge> allocs (rv_sys w). g_tasks (rv w) x = None"
    and "rev_counts (metrics (rv_sys w)) (length as + (if in_flight w = None then 0 else 1))"
  shows "rev_inv w"
  using assms unfolding rev_inv_def by blast

lemma same_contents_None:
  assumes "\<forall>x. map_option (\<lambda>t. t\<lparr>r_next := None\<rparr>) (h' x) = map_option (\<lambda>t. t\<lparr>r_next := None\<rparr>) (h x)"
  shows "h' x = None \<longleftrightarrow> h x = None"
  using assms by (metis map_option_is_None)

lemma rev_chain_heap: "rev_chain r as \<Longrightarrow> a \<notin> set as \<Longrightarrow> rev_chain (r\<lparr>g_tasks := (g_tasks r)(a := v)\<rparr>) as"
  by (auto simp: rev_chain_def intro: chain_fresh)

lemma push_inv:
  \<comment> \<open>writing a task outside the queue and pushing it\<close>
  assumes "rev_chain r as" and "a \<notin> set as" and "queue_push a (r\<lparr>g_tasks := (g_tasks r)(a \<mapsto> t)\<rparr>) = Some r'"
  shows "rev_chain r' (as @ [a])" and "g_tasks r' x = None \<longleftrightarrow> x \<noteq> a \<and> g_tasks r x = None"
proof -
  let ?r = "r\<lparr>g_tasks := (g_tasks r)(a \<mapsto> t)\<rparr>"
  have "g_tasks ?r a = Some t" by simp
  from queue_push_chain [OF rev_chain_heap [OF assms(1,2)] assms(2) this]
  have p: "rev_chain r' (as @ [a])"
    "\<forall>x. map_option (\<lambda>t. t\<lparr>r_next := None\<rparr>) (g_tasks r' x) = map_option (\<lambda>t. t\<lparr>r_next := None\<rparr>) (g_tasks ?r x)"
    using assms(3) by auto
  show "rev_chain r' (as @ [a])" by (rule p(1))
  show "g_tasks r' x = None \<longleftrightarrow> x \<noteq> a \<and> g_tasks r x = None"
    using same_contents_None [OF p(2), of x] by simp
qed

lemma enqueue_inv:
  assumes "rev_inv w" and "reversal_enqueue tid pm am mid (rv w) (rv_sys w) = Some (rc, r', s')"
  shows "rev_inv (w\<lparr>rv := r', rv_sys := s'\<rparr>)"
proof -
  let ?r = "rv w" and ?s = "rv_sys w"
  obtain as where i: "rev_chain ?r as" "\<forall>a. in_flight w = Some a \<longrightarrow> a \<notin> set as \<and> g_tasks ?r a \<noteq> None"
    "\<forall>x \<ge> allocs ?s. g_tasks ?r x = None"
    "rev_counts (metrics ?s) (length as + (if in_flight w = None then 0 else 1))"
    using assms(1) by (auto simp: rev_inv_def)
  let ?a = "allocs ?s"
  have fresh: "?a \<notin> set as" using i(1,3) chain_dom unfolding rev_chain_def by blast
  have "r' = ?r \<and> metrics s' = metrics ?s \<and> allocs ?s \<le> allocs s' \<or>
    (\<exists>t. queue_push ?a (?r\<lparr>g_tasks := (g_tasks ?r)(?a \<mapsto> t)\<rparr>) = Some r' \<and>
       metrics s' = metrics_inc_reversal_enqueued (metrics ?s) \<and> allocs s' = Suc (allocs ?s))"
  proof (cases "tid \<noteq> None \<and> the tid \<noteq> [] \<and> alloc_src ?s ?a")
    case True
    then obtain c cs where "tid = Some (c # cs)" "alloc_src ?s ?a" by (cases tid; cases "the tid") auto
    then show ?thesis
      using assms(2)
      by (simp add: reversal_enqueue_def malloc_def time_null_def Let_def logj_def split: option.splits) auto
  next
    case False
    then show ?thesis
      using assms(2)
      by (auto simp: reversal_enqueue_def malloc_def split: option.splits list.splits)
  qed
  then consider "r' = ?r" "metrics s' = metrics ?s" "allocs ?s \<le> allocs s'"
    | t where "queue_push ?a (?r\<lparr>g_tasks := (g_tasks ?r)(?a \<mapsto> t)\<rparr>) = Some r'"
        "metrics s' = metrics_inc_reversal_enqueued (metrics ?s)" "allocs s' = Suc (allocs ?s)"
    by blast
  then show ?thesis
  proof cases
    case 1
    with i show ?thesis by (intro rev_invI [of _ as]) auto
  next
    case (2 t)
    note p = push_inv [OF i(1) fresh 2(1)]
    show ?thesis
    proof (rule rev_invI [of _ "as @ [?a]"])
      show "rev_chain (rv (w\<lparr>rv := r', rv_sys := s'\<rparr>)) (as @ [?a])" using p(1) by simp
      show "\<forall>a. in_flight (w\<lparr>rv := r', rv_sys := s'\<rparr>) = Some a \<longrightarrow>
          a \<notin> set (as @ [?a]) \<and> g_tasks (rv (w\<lparr>rv := r', rv_sys := s'\<rparr>)) a \<noteq> None"
        using i(2,3) p(2) by force
      show "\<forall>x \<ge> allocs (rv_sys (w\<lparr>rv := r', rv_sys := s'\<rparr>)). g_tasks (rv (w\<lparr>rv := r', rv_sys := s'\<rparr>)) x = None"
        using i(3) p(2) 2(3) by simp
      show "rev_counts (metrics (rv_sys (w\<lparr>rv := r', rv_sys := s'\<rparr>)))
          (length (as @ [?a]) + (if in_flight (w\<lparr>rv := r', rv_sys := s'\<rparr>) = None then 0 else 1))"
        using i(4) 2(2) by (simp add: rev_counts_def metrics_inc_reversal_enqueued_def)
    qed
  qed
qed

lemma take_inv:
  assumes "rev_inv w" and "in_flight w = None" and "reversal_take (rv w) (rv_sys w) = Some (x, r', s')"
  shows "x = Task a \<Longrightarrow> rev_inv (w\<lparr>rv := r', rv_sys := s', in_flight := Some a\<rparr>)"
    and "x = Not_ready \<Longrightarrow> rev_inv (w\<lparr>rv := r', rv_sys := s'\<rparr>)"
proof -
  let ?r = "rv w" and ?s = "rv_sys w"
  let ?now = "time_src ?s (time_calls ?s)"
  obtain as where i: "rev_chain ?r as" "\<forall>x \<ge> allocs ?s. g_tasks ?r x = None"
    "rev_counts (metrics ?s) (length as)"
    using assms(1,2) by (auto simp: rev_inv_def)
  have s': "metrics s' = metrics ?s" "allocs s' = allocs ?s"
    and x: "x = Task b \<Longrightarrow> queue_pop_ready ?now ?r = Some (Some b, r')"
      "x = Not_ready \<Longrightarrow> queue_pop_ready ?now ?r = Some (None, r')" for b
    using assms(3) by (auto simp: reversal_take_def time_null_def Let_def split: if_splits option.splits prod.splits)
  note pop = queue_pop_ready_chain [OF i(1), of ?now]
  show "rev_inv (w\<lparr>rv := r', rv_sys := s', in_flight := Some a\<rparr>)" if "x = Task a"
  proof -
    from pop x(1) [OF that] obtain us vs where a: "as = us @ a # vs" "rev_chain r' (us @ vs)"
      "\<forall>x. map_option (\<lambda>t. t\<lparr>r_next := None\<rparr>) (g_tasks r' x) = map_option (\<lambda>t. t\<lparr>r_next := None\<rparr>) (g_tasks ?r x)"
      by auto
    have "distinct as" "g_tasks ?r a \<noteq> None"
      using i(1) a(1) chain_dom [of "g_tasks ?r" r_next "g_head ?r" as a] by (simp_all add: rev_chain_def)
    then show ?thesis
      using i(2,3) a s' same_contents_None [OF a(3)]
      by (intro rev_invI [of _ "us @ vs"]) (auto simp: rev_counts_def add.assoc)
  qed
  show "rev_inv (w\<lparr>rv := r', rv_sys := s'\<rparr>)" if "x = Not_ready"
  proof -
    have "r' = ?r" using pop x(2) [OF that] by auto
    with i s' assms(2) show ?thesis by (intro rev_invI [of _ as]) auto
  qed
qed

lemma retry_inv:
  assumes "rev_chain r as" and "a \<notin> set as" and "\<forall>x \<ge> allocs s0. g_tasks r x = None"
    and "rev_counts (metrics s) (length as + 1)" and "g_tasks r a \<noteq> None" and "allocs s0 \<le> allocs s"
    and "reversal_retry a t r s = Some (r', s')"
  shows "\<exists>bs. rev_chain r' bs \<and> (\<forall>x \<ge> allocs s'. g_tasks r' x = None) \<and> rev_counts (metrics s') (length bs)"
proof -
  have small: "a < allocs s0" using assms(3,5) by (metis linorder_not_less)
  have "r' = r\<lparr>g_tasks := (g_tasks r)(a := None)\<rparr> \<and> metrics s' = metrics_inc_reversal_failed (metrics s) \<and>
      allocs s' = allocs s \<or>
    (\<exists>t'. queue_push a (r\<lparr>g_tasks := (g_tasks r)(a \<mapsto> t')\<rparr>) = Some r' \<and> metrics s' = metrics s \<and>
      allocs s' = allocs s)"
  proof (cases "attempts t + 1 \<ge> max_attempts s")
    case True
    then show ?thesis using assms(7) by (auto simp: reversal_retry_def logj_def)
  next
    case False
    then obtain t' where "(case queue_push a (r\<lparr>g_tasks := (g_tasks r)(a \<mapsto> t')\<rparr>) of
        None \<Rightarrow> None | Some r \<Rightarrow> Some (r, s\<lparr>time_calls := Suc (time_calls s)\<rparr>)) = Some (r', s')"
      using assms(7) unfolding reversal_retry_def time_null_def Let_def by auto
    then show ?thesis by (auto split: option.splits)
  qed
  then consider "r' = r\<lparr>g_tasks := (g_tasks r)(a := None)\<rparr>"
      "metrics s' = metrics_inc_reversal_failed (metrics s)" "allocs s' = allocs s"
    | t' where "queue_push a (r\<lparr>g_tasks := (g_tasks r)(a \<mapsto> t')\<rparr>) = Some r'" "metrics s' = metrics s"
      "allocs s' = allocs s"
    by blast
  then show ?thesis
  proof cases
    case 1
    then have "rev_counts (metrics s') (length as)"
      using assms(4) by (simp add: rev_counts_def metrics_inc_reversal_failed_def)
    with 1 rev_chain_heap [OF assms(1,2)] assms(3,6) show ?thesis by (intro exI [of _ as]) auto
  next
    case (2 t')
    note p = push_inv [OF assms(1,2) 2(1)]
    from p 2 assms(3,4,6) small show ?thesis by (intro exI [of _ "as @ [a]"]) auto
  qed
qed

lemma perform_inv:
  assumes "rev_inv w" and "in_flight w = Some a" and "reversal_perform a (rv w) (rv_sys w) = Some (r', s')"
  shows "rev_inv (w\<lparr>rv := r', rv_sys := s', in_flight := None\<rparr>)"
proof -
  let ?r = "rv w" and ?s = "rv_sys w"
  obtain as where i: "rev_chain ?r as" "a \<notin> set as" "g_tasks ?r a \<noteq> None"
    "\<forall>x \<ge> allocs ?s. g_tasks ?r x = None" "rev_counts (metrics ?s) (length as + 1)"
    using assms(1,2) by (auto simp: rev_inv_def)
  then obtain t where t: "g_tasks ?r a = Some t" by auto
  have "\<exists>bs. rev_chain r' bs \<and> (\<forall>x \<ge> allocs s'. g_tasks r' x = None) \<and> rev_counts (metrics s') (length bs)"
  proof (cases "alloc_src ?s (allocs ?s)")
    case True
    from reversal_perform_spec [OF t True] assms(3) have
      r': "r' = ?r\<lparr>g_tasks := (g_tasks ?r)(a := None)\<rparr>" and
      s': "metrics s' = metrics_inc_reversal_succeeded (metrics ?s)" "allocs s' = Suc (allocs ?s)"
      by auto
    have "rev_counts (metrics s') (length as)"
      using i(5) by (simp add: rev_counts_def s' metrics_inc_reversal_succeeded_def)
    with rev_chain_heap [OF i(1,2)] i(4) show ?thesis by (intro exI [of _ as]) (auto simp: r' s')
  next
    case False
    obtain s1 where c: "clearing_participant_init None 10 ?s = (None, s1)"
      using clearing_init_spec(1) [of None 10 ?s] False by (metis surj_pair)
    note f = clearing_init_spec [OF c]
    have "reversal_retry a t ?r s1 = Some (r', s')" using assms(3) t c by (simp add: reversal_perform_def)
    then show ?thesis using i f by (intro retry_inv [OF i(1,2,4)]) simp_all
  qed
  then show ?thesis unfolding rev_inv_def by auto
qed

lemma rev_step_inv: "rev_step w w' \<Longrightarrow> rev_inv w \<Longrightarrow> rev_inv w'"
proof (induction rule: rev_step.induct)
  case (enqueue tid pm am mid w rc r' s')
  then show ?case using enqueue_inv by blast
next
  case (take w a r' s')
  then show ?case using take_inv(1) by blast
next
  case (idle w r' s')
  then show ?case using take_inv(2) by blast
next
  case (perform w a r' s')
  then show ?case using perform_inv by blast
next
  case (stop w)
  then show ?case by (auto simp: rev_inv_def reversal_shutdown_begin_def rev_chain_def)
qed

lemma rev_reach_inv: "rev_reach w0 w \<Longrightarrow> rev_inv w0 \<Longrightarrow> rev_inv w"
  by (induction rule: rev_reach.induct) (simp_all add: rev_step_inv)

definition rev_initial :: "csys \<Rightarrow> rev_state" where
  "rev_initial s = \<lparr>rv = reversal_start, rv_sys = s, in_flight = None\<rparr>"

text \<open>
  C11. No reversal is lost or counted twice: in every reachable state of the worker and the request
  threads, from the start of the process, the queue is a well-formed list without duplicates that
  never holds the task in progress, and the number of enqueued reversals is the number of succeeded
  ones plus the failed ones plus those queued or in progress (modulo the width of the counters).
\<close>

theorem reversal_conservation:
  assumes "rev_reach (rev_initial s) w" and "g_rev_enq (metrics s) = 0" and "g_rev_ok (metrics s) = 0"
    and "g_rev_fail (metrics s) = 0"
  shows "\<exists>as. rev_chain (rv w) as \<and> (\<forall>a. in_flight w = Some a \<longrightarrow> a \<notin> set as) \<and>
    g_rev_enq (metrics (rv_sys w)) = g_rev_ok (metrics (rv_sys w)) + g_rev_fail (metrics (rv_sys w)) +
      of_nat (length as + (if in_flight w = None then 0 else 1))"
proof -
  have "rev_inv (rev_initial s)"
    using assms(2-4)
    by (intro rev_invI [of _ "[]"]) (simp_all add: rev_initial_def reversal_start_def rev_chain_def rev_counts_def)
  from rev_reach_inv [OF assms(1) this] show ?thesis unfolding rev_inv_def rev_counts_def by blast
qed

text \<open>Witness of C11: one reversal enqueued.\<close>

theorem reversal_conservation_witness:
  "\<exists>w. rev_reach (rev_initial (demo_csys demo_ctx)) w \<and> g_rev_enq (metrics (rv_sys w)) = 1 \<and>
     (\<exists>as. rev_chain (rv w) as \<and> g_rev_enq (metrics (rv_sys w)) =
        g_rev_ok (metrics (rv_sys w)) + g_rev_fail (metrics (rv_sys w)) +
        of_nat (length as + (if in_flight w = None then 0 else 1)))"
proof -
  let ?w = "rev_initial (demo_csys demo_ctx)"
  obtain rc r' s' where e: "reversal_enqueue (Some ''t1'') None None None (rv ?w) (rv_sys ?w) = Some (rc, r', s')"
    and m: "metrics s' = metrics_inc_reversal_enqueued metrics_zero"
    by (simp add: rev_initial_def reversal_enqueue_def malloc_def time_null_def Let_def demo_csys_def
        reversal_start_def queue_push_def with_metrics_def logj_def emit_def)
  have r: "rev_reach ?w (?w\<lparr>rv := r', rv_sys := s'\<rparr>)"
    using rev_reach.rev_next [OF rev_reach.rev_start rev_step.enqueue [OF e]] .
  have z: "g_rev_enq (metrics (demo_csys demo_ctx)) = 0" "g_rev_ok (metrics (demo_csys demo_ctx)) = 0"
    "g_rev_fail (metrics (demo_csys demo_ctx)) = 0"
    by (simp_all add: demo_csys_def metrics_zero_def)
  from reversal_conservation [OF r z] r m show ?thesis
    by (intro exI [of _ "?w\<lparr>rv := r', rv_sys := s'\<rparr>"])
      (auto simp: metrics_inc_reversal_enqueued_def metrics_zero_def)
qed

end
