(* ===== verification/Frames.thy ===== *)
theory Frames
  imports Participants Reversal
begin

section \<open>What the components leave alone\<close>

text \<open>
  The components below the handler append to the trace, but write nothing to the client and do not
  touch the counters of requests. \<open>grows\<close> says so for a class of events, \<open>within\<close> adds that the
  contexts outside a set of addresses are unchanged and that none is created or freed. Both are reflexive and transitive, so they
  pass from the steps of an operation to the operation.
\<close>

fun is_write :: "event \<Rightarrow> bool" where
  "is_write (Write b) = True"
| "is_write _ = False"

definition plain :: "event \<Rightarrow> bool" where
  "plain e \<longleftrightarrow> \<not> is_write e \<and> \<not> is_call e"

definition silent :: "event \<Rightarrow> bool" where
  "silent e \<longleftrightarrow> \<not> is_write e"

definition tallies :: "metrics \<Rightarrow> ulong \<times> ulong \<times> ulong \<times> ulong \<times> ulong" where
  "tallies m = (g_total m, g_approved m, g_declined m, g_risk_declined m, g_server_busy m)"

definition grows :: "(event \<Rightarrow> bool) \<Rightarrow> 'a sys_scheme \<Rightarrow> 'a sys_scheme \<Rightarrow> bool" where
  "grows P s s' \<longleftrightarrow> (\<exists>es. trace s' = trace s @ es \<and> list_all P es) \<and>
     tallies (metrics s') = tallies (metrics s) \<and> allocs s \<le> allocs s'"

lemma event_classes [simp]:
  "plain (Log l e r m n)" "plain (TxnLog i x y z)" "plain (Usleep n)" "plain (Request p n)"
  "plain (Sql c q vs)" "plain (Fault k a)" "silent (Call nm t cb n)" "plain ev \<Longrightarrow> silent ev"
  by (simp_all add: plain_def silent_def)

lemma grows_refl: "grows P s s"
  by (simp add: grows_def)

lemma grows_trans: "grows P s t \<Longrightarrow> grows P t u \<Longrightarrow> grows P s u"
  unfolding grows_def by (auto simp: list_all_append [symmetric])

lemma grows_silent: "grows plain s t \<Longrightarrow> grows silent s t"
  unfolding grows_def by (auto simp: list_all_iff)

lemma grows_emit: "grows P s t \<Longrightarrow> P e \<Longrightarrow> grows P s (emit e t)"
  unfolding grows_def by (auto simp: emit_def)

lemma grows_same:
  assumes "grows P s t" and "trace u = trace t" and "tallies (metrics u) = tallies (metrics t)"
    and "allocs t \<le> allocs u"
  shows "grows P s u"
  using assms unfolding grows_def by auto

lemma grows_basic:
  "grows P s t \<Longrightarrow> grows P s (t\<lparr>time_calls := n\<rparr>)"
  "grows P s t \<Longrightarrow> grows P s (t\<lparr>rand_calls := n\<rparr>)"
  "grows plain s t \<Longrightarrow> grows plain s (logj l e r m t)"
  "grows P s t \<Longrightarrow> grows P s (snd (malloc t))"
  "grows P s t \<Longrightarrow> grows P s (snd (time_null t))"
  "grows P s t \<Longrightarrow> grows P s (snd (c_rand t))"
  by (auto intro: grows_same grows_emit simp: logj_def malloc_def time_null_def c_rand_def)

lemma grows_fields:
  "grows P s u \<Longrightarrow> grows P s (u\<lparr>clearing_ctxs := h\<rparr>)"
  "grows P s u \<Longrightarrow> grows P s (u\<lparr>g_cb := cb\<rparr>)"
  "grows P s u \<Longrightarrow> grows P s (u\<lparr>cb_loaded := b\<rparr>)"
  "grows P t v \<Longrightarrow> grows P t (v\<lparr>pg := g\<rparr>)"
  "grows P t v \<Longrightarrow> grows P t (v\<lparr>db_conns := cs\<rparr>)"
  "grows P t v \<Longrightarrow> grows P t (v\<lparr>db_tls := l\<rparr>)"
  "grows P t v \<Longrightarrow> grows P t (v\<lparr>db_ctxs := d\<rparr>)"
  for s u :: "'a csys_scheme" and t v :: "('g, 'b) dsys_scheme"
  by (auto intro: grows_same)

lemma grows_counters:
  assumes "grows P s t"
  shows "grows P s (with_metrics metrics_inc_cb_short_circuit t)"
    "grows P s (with_metrics metrics_inc_2pc_committed t)"
    "grows P s (with_metrics metrics_inc_2pc_aborted t)"
    "grows P s (with_metrics metrics_inc_reversal_enqueued t)"
  using assms by (auto intro!: grows_same [OF assms] simp: with_metrics_def metrics_inc_defs tallies_def)

lemmas grows_intros = grows_refl grows_emit grows_basic grows_fields grows_counters

subsection \<open>Clearing\<close>

lemma grows_clog2: "grows plain s t \<Longrightarrow> grows plain s (clog2 l tid m t)"
  "grows plain s t \<Longrightarrow> grows plain s (cl_fault a t)"
  by (simp_all add: clog2_def cl_fault_def grows_intros)

lemma grows_cb:
  "grows P s t \<Longrightarrow> grows P s (cb_load_env_defaults t)"
  "grows P s t \<Longrightarrow> grows P s (snd (cb_should_short_circuit t))"
  "grows P s t \<Longrightarrow> grows P s (cb_on_result ok t)"
  by (auto simp: cb_load_env_defaults_def Let_def cb_should_short_circuit_def cb_on_result_def
      time_null_def grows_intros split: prod.splits)

lemma grows_simulate: "grows plain s t \<Longrightarrow> grows plain s (snd (snd (simulate_clearing_request u m p r n to t)))"
  by (auto simp: simulate_clearing_request_def Let_def c_rand_def grows_intros)

lemma grows_retry: "grows plain s t \<Longrightarrow> grows plain s (snd (snd (retry_loop maxr k u p to r resp t)))"
proof (induction maxr k u p to r resp t rule: retry_loop.induct)
  case (1 maxr k u p to r resp t)
  obtain r1 resp1 t1 where e: "simulate_clearing_request u ''POST'' p resp 256 to t = (r1, resp1, t1)"
    by (metis prod_cases3)
  have f: "grows plain s t1" using grows_simulate [OF "1.prems", of u "''POST''" p resp 256 to] e by simp
  show ?case
  proof (cases "k \<le> maxr \<and> r1 \<noteq> 0")
    case True
    with "1.IH" e grows_emit [OF f, of "Usleep (backoff_us k)"] show ?thesis
      by (simp add: retry_loop.simps [of maxr k])
  next
    case False
    with f e "1.prems" show ?thesis by (auto simp: retry_loop.simps [of maxr k])
  qed
qed

lemma grows_request:
  assumes "grows plain s t" and "cb_should_short_circuit (cb_load_env_defaults t) = (sc, t2)"
  shows "grows plain s t2"
    and "retry_loop m k u p to r0 resp0 t2 = (r, resp, t3) \<Longrightarrow> grows plain s (cb_on_result ok t3)"
proof -
  show 2: "grows plain s t2" using grows_cb(2) [OF grows_cb(1) [OF assms(1)]] assms(2) by simp
  show "grows plain s (cb_on_result ok t3)" if "retry_loop m k u p to r0 resp0 t2 = (r, resp, t3)"
    using grows_cb(3) [OF grows_retry [OF 2, of m k u p to r0 resp0]] that by simp
qed

lemma grows_cl_prepare: "grows plain s (snd (clearing_participant_prepare (Some a) (Some tid) s))"
proof (cases "clearing_ctxs s a")
  case None
  then show ?thesis by (simp add: clearing_participant_prepare_def grows_clog2 grows_refl)
next
  case (Some ctx)
  let ?p = "clearing_payload ''prepare'' tid ctx"
  obtain sc s2 where sc: "cb_should_short_circuit (cb_load_env_defaults s) = (sc, s2)" by force
  obtain r resp s3 where rl: "retry_loop (max_retries (g_cb s2)) 0 (service_url ctx) ?p
      (timeout_seconds ctx) (- 1) [] s2 = (r, resp, s3)" by (metis prod_cases3)
  note f = grows_request(1) [OF grows_refl sc] grows_request(2) [OF grows_refl sc rl]
  from f Some sc rl show ?thesis
    by (auto simp: clearing_participant_prepare_def Let_def grows_refl
        intro!: grows_clog2 grows_counters grows_fields)
qed

lemma grows_cl_commit: "grows plain s (snd (clearing_participant_commit (Some a) (Some tid) s))"
proof (cases "clearing_ctxs s a")
  case None
  then show ?thesis by (simp add: clearing_participant_commit_def grows_clog2 grows_refl)
next
  case (Some ctx)
  let ?p = "clearing_payload ''commit'' tid ctx"
  obtain sc s2 where sc: "cb_should_short_circuit (cb_load_env_defaults s) = (sc, s2)" by force
  obtain r resp s3 where rl: "retry_loop (max_retries (g_cb s2)) 0 (service_url ctx) ?p
      (timeout_seconds ctx) (- 1) [] s2 = (r, resp, s3)" by (metis prod_cases3)
  note f = grows_request(1) [OF grows_refl sc] grows_request(2) [OF grows_refl sc rl]
  from f Some sc rl show ?thesis
    by (auto simp: clearing_participant_commit_def Let_def grows_refl
        intro!: grows_clog2 grows_counters grows_fields)
qed

lemma grows_cl_abort: "grows plain s (snd (clearing_participant_abort (Some a) (Some tid) s))"
proof (cases "clearing_ctxs s a")
  case None
  then show ?thesis by (simp add: clearing_participant_abort_def grows_clog2 grows_refl)
next
  case (Some ctx)
  define s1 where "s1 = (if \<not> has_hold ctx \<or> cl_txn_id ctx \<noteq> tid
    then clog2 ''INFO'' tid ''No local hold; sending idempotent abort'' s else s)"
  obtain q resp s2 where sim: "simulate_clearing_request (service_url ctx) ''POST''
    (clearing_payload ''abort'' tid ctx) [] 256 (timeout_seconds ctx) s1 = (q, resp, s2)"
    by (metis prod_cases3)
  have "grows plain s s1" by (simp add: s1_def grows_clog2 grows_refl)
  from grows_simulate [OF this, of "service_url ctx" "''POST''" "clearing_payload ''abort'' tid ctx" "[]" 256
      "timeout_seconds ctx"] sim
  have f: "grows plain s s2" by simp
  let ?s3 = "if q = 0 \<and> status_ok resp then clog2 ''INFO'' tid ''Authorization hold released'' s2
    else clog2 ''WARN'' tid ''Hold release failed (may timeout naturally)'' s2"
  have "snd (clearing_participant_abort (Some a) (Some tid) s) =
    ?s3\<lparr>clearing_ctxs := (clearing_ctxs ?s3)(a \<mapsto> ctx\<lparr>has_hold := False, cl_txn_id := []\<rparr>)\<rparr>"
    using sim Some by (simp add: clearing_participant_abort_def s1_def Let_def)
  with f show ?thesis by (simp add: grows_clog2 grows_fields)
qed

lemma grows_cl_rest:
  "grows plain s (snd (clearing_participant_init u to s))"
  "grows plain s (snd (clearing_participant_set_transaction x t pm am mid s))"
  "grows plain s (clearing_participant_destroy x s)"
proof -
  show "grows plain s (snd (clearing_participant_init u to s))"
    using grows_basic(4) [OF grows_refl, of plain s]
    by (auto simp: clearing_participant_init_def Let_def time_null_def intro!: grows_basic grows_fields grows_cb
        split: prod.splits option.splits)
  show "grows plain s (snd (clearing_participant_set_transaction x t pm am mid s))"
    by (auto simp: clearing_participant_set_transaction_def Let_def
        intro!: grows_clog2 grows_fields grows_refl split: option.splits)
  show "grows plain s (clearing_participant_destroy x s)"
    by (auto simp: clearing_participant_destroy_def Let_def
        intro!: grows_clog2 grows_fields grows_refl grows_cl_abort split: option.splits)
qed


subsection \<open>The database\<close>

lemma grows_pq:
  "grows plain s t \<Longrightarrow> grows plain s (snd (PQexec pq c cmd t))"
  "grows plain s t \<Longrightarrow> grows plain s (snd (PQexecParams pq c cmd vs t))"
  "grows plain s t \<Longrightarrow> grows plain s (dlog l tid m t)"
  "grows plain s t \<Longrightarrow> grows plain s (db_fault k a t)"
  "grows plain s t \<Longrightarrow> grows plain s (put_db_ctx a x t)"
  by (auto simp: PQexec_def PQexecParams_def Let_def dlog_def db_fault_def put_db_ctx_def grows_intros
      split: prod.splits)

lemma grows_db_connect: "grows plain s t \<Longrightarrow> grows plain s (snd (db_connect pq u t))"
  by (auto simp: db_connect_def Let_def malloc_def intro!: grows_fields
      intro: grows_same split: prod.splits option.splits)

lemma grows_db_thread_get: "grows plain s (snd (db_thread_get pq b s))"
  using grows_db_connect [OF grows_refl, of s pq]
  by (auto simp: db_thread_get_def intro!: grows_refl grows_pq grows_fields split: prod.splits option.splits)
     (metis snd_conv)+

lemma grows_insert:
  "grows plain s (snd (db_insert_transaction pq d pn amt st s))"
  "grows plain s (snd (snd (snd (db_insert_or_get_by_reqid pq d rid pn amt st dup out sz s))))"
proof -
  show 1: "grows plain s (snd (db_insert_transaction pq d pn amt st s))" for s
    using grows_pq(2) [OF grows_refl, of s pq]
    by (auto simp: db_insert_transaction_def Let_def grows_refl split: prod.splits option.splits) (metis snd_conv)+
  have 2: "grows plain s (snd (PQexecParams pq c q vs (snd (PQexecParams pq c' q' vs' s))))" for c q vs c' q' vs'
    by (intro grows_pq grows_refl)
  show "grows plain s (snd (snd (snd (db_insert_or_get_by_reqid pq d rid pn amt st dup out sz s))))"
    using grows_pq(2) [OF grows_refl, of s pq] 2 1 [of s]
    by (auto simp: db_insert_or_get_by_reqid_def Let_def case_prod_beta grows_refl split: option.splits list.splits)
qed

lemma grows_db_participant:
  "grows plain s (snd (db_participant_init d s))"
  "grows plain s (snd (db_participant_begin pq ctx tid s))"
  "grows plain s (snd (db_participant_prepare pq ctx tid s))"
  "grows plain s (snd (db_participant_commit pq ctx tid s))"
  "grows plain s (snd (db_participant_abort pq ctx tid s))"
  "grows plain s (snd (snd (snd (db_participant_insert_transaction pq ctx rid pn amt st dup out sz s))))"
  "grows plain s (db_participant_destroy pq ctx s)"
proof -
  note i = grows_pq grows_refl grows_fields
  show "grows plain s (snd (db_participant_init d s))"
    using grows_basic(4) [OF grows_refl, of plain s]
    by (auto simp: db_participant_init_def intro!: i split: prod.splits option.splits) 
  show "grows plain s (snd (db_participant_begin pq ctx tid s))"
    by (auto simp: db_participant_begin_def Let_def case_prod_beta intro!: i split: option.splits)
  show "grows plain s (snd (db_participant_prepare pq ctx tid s))"
    by (auto simp: db_participant_prepare_def Let_def case_prod_beta intro!: i split: option.splits)
  show "grows plain s (snd (db_participant_commit pq ctx tid s))"
    by (auto simp: db_participant_commit_def Let_def case_prod_beta intro!: i split: option.splits)
  show a: "grows plain s (snd (db_participant_abort pq ctx tid s))" for ctx tid
    by (auto simp: db_participant_abort_def Let_def case_prod_beta intro!: i split: option.splits)
  show "grows plain s (snd (snd (snd (db_participant_insert_transaction pq ctx rid pn amt st dup out sz s))))"
    by (auto simp: db_participant_insert_transaction_def intro!: i grows_insert split: option.splits)
  show "grows plain s (db_participant_destroy pq ctx s)"
    using a by (auto simp: db_participant_destroy_def Let_def intro!: i split: option.splits)
qed


subsection \<open>Connections\<close>

definition keeps_conns :: "('g, 'a) dsys_scheme \<Rightarrow> ('g, 'a) dsys_scheme \<Rightarrow> bool" where
  \<comment> \<open>the calling thread closes no connection and opens at most one, the one it keeps in its slot\<close>
  "keeps_conns s s' \<longleftrightarrow> allocs s \<le> allocs s' \<and>
     (db_tls s' = db_tls s \<and> dom (db_conns s') = dom (db_conns s) \<or>
      db_tls s = None \<and> (\<exists>a. db_tls s' = Some a \<and> allocs s \<le> a \<and> a < allocs s' \<and> dom (db_conns s') = insert a (dom (db_conns s))))"

lemma keeps_conns_refl [simp]: "keeps_conns s s"
  by (simp add: keeps_conns_def)

lemma keeps_conns_same: "allocs s \<le> allocs s' \<Longrightarrow> db_tls s' = db_tls s \<Longrightarrow> db_conns s' = db_conns s \<Longrightarrow> keeps_conns s s'"
  by (simp add: keeps_conns_def)

lemma keeps_conns_trans: "keeps_conns s t \<Longrightarrow> keeps_conns t u \<Longrightarrow> keeps_conns s u"
  unfolding keeps_conns_def by (elim conjE disjE exE) (auto intro: order_trans less_le_trans)

lemma keeps_conns_db_thread_get: "keeps_conns s (snd (db_thread_get pq b s))"
  by (auto simp: db_thread_get_def db_connect_def malloc_def db_fault_def emit_def keeps_conns_def Let_def case_prod_beta
      split: option.splits if_splits)

lemma keeps_conns_grows: "grows P s s' \<Longrightarrow> db_tls s' = db_tls s \<Longrightarrow> db_conns s' = db_conns s \<Longrightarrow> keeps_conns s s'"
  by (simp add: keeps_conns_same grows_def)

subsection \<open>Contexts\<close>

definition within :: "nat set \<Rightarrow> (event \<Rightarrow> bool) \<Rightarrow> ('g, 'a) dsys_scheme \<Rightarrow> ('g, 'a) dsys_scheme \<Rightarrow> bool" where
  "within X P s s' \<longleftrightarrow> grows P s s' \<and> keeps_conns s s' \<and>
     (\<forall>x. x \<notin> X \<longrightarrow> db_ctxs s' x = db_ctxs s x \<and> clearing_ctxs s' x = clearing_ctxs s x) \<and>
     (\<forall>x. (db_ctxs s' x = None \<longleftrightarrow> db_ctxs s x = None) \<and> (clearing_ctxs s' x = None \<longleftrightarrow> clearing_ctxs s x = None))"

lemma within_refl: "within X P s s"
  by (simp add: within_def grows_refl keeps_conns_refl)

lemma within_trans: "within X P s t \<Longrightarrow> within X P t u \<Longrightarrow> within X P s u"
  unfolding within_def by (auto intro: grows_trans keeps_conns_trans)

lemma withinI:
  "grows P s s' \<Longrightarrow> db_ctxs s' = db_ctxs s \<Longrightarrow> clearing_ctxs s' = clearing_ctxs s \<Longrightarrow> db_tls s' = db_tls s \<Longrightarrow>
     db_conns s' = db_conns s \<Longrightarrow> within X P s s'"
  by (simp add: within_def keeps_conns_grows)

lemma within_silent: "within X plain s t \<Longrightarrow> within X silent s t"
  by (simp add: within_def grows_silent)

lemma ctxs_sys [simp]:
  "db_ctxs (emit e s) = db_ctxs s" "clearing_ctxs (emit e s) = clearing_ctxs s"
  "db_ctxs (logj l ev r m s) = db_ctxs s" "clearing_ctxs (logj l ev r m s) = clearing_ctxs s"
  "db_ctxs (with_metrics f s) = db_ctxs s" "clearing_ctxs (with_metrics f s) = clearing_ctxs s"
  "db_ctxs (s\<lparr>time_calls := n\<rparr>) = db_ctxs s" "clearing_ctxs (s\<lparr>time_calls := n\<rparr>) = clearing_ctxs s"
  "db_ctxs (snd (malloc s)) = db_ctxs s" "clearing_ctxs (snd (malloc s)) = clearing_ctxs s"
  "db_tls (emit e s) = db_tls s" "db_conns (emit e s) = db_conns s"
  "db_tls (logj l ev r m s) = db_tls s" "db_conns (logj l ev r m s) = db_conns s"
  "db_tls (with_metrics f s) = db_tls s" "db_conns (with_metrics f s) = db_conns s"
  "db_tls (snd (malloc s)) = db_tls s" "db_conns (snd (malloc s)) = db_conns s"
  for s :: "('g, 'a) dsys_scheme"
  by (simp_all add: emit_def logj_def with_metrics_def malloc_def)

lemma keeps_conns_sys [simp]:
  "keeps_conns s (emit e t) = keeps_conns s t" "keeps_conns (emit e s) t = keeps_conns s t" "keeps_conns s (logj l ev r m t) = keeps_conns s t"
  "keeps_conns s (with_metrics f t) = keeps_conns s t" "keeps_conns (with_metrics f s) t = keeps_conns s t"
  "keeps_conns s (t\<lparr>time_calls := n\<rparr>) = keeps_conns s t" "keeps_conns (s\<lparr>time_calls := n\<rparr>) t = keeps_conns s t"
  for s t :: "('g, 'a) dsys_scheme"
  by (simp_all add: keeps_conns_def emit_def logj_def with_metrics_def)

lemma within_basic:
  "within X plain s (logj l e r m s)"
  "within X silent s (emit (Call n tid k i) s)" "within X plain s (emit (Fault z x) s)"
  "within X plain s (log_transaction_state c t act s)"
  "within X P s (with_metrics metrics_inc_2pc_committed s)"
  "within X P s (with_metrics metrics_inc_2pc_aborted s)"
  "within X plain s (read_freed p c s)"
  by (auto intro!: withinI grows_emit grows_basic grows_counters grows_refl
      simp: log_transaction_state_def time_null_def Let_def read_freed_def)

lemma within_step:
  "within X plain s t \<Longrightarrow> within X plain s (logj l e r m t)"
  "within X plain s t \<Longrightarrow> within X plain s (log_transaction_state c tr act t)"
  "within X P s t \<Longrightarrow> within X P s (t\<lparr>time_calls := n\<rparr>)"
  "within X P s t \<Longrightarrow> within X P s (t\<lparr>allocs := Suc (allocs t)\<rparr>)"
  by (erule within_trans, rule within_basic, erule within_trans, rule within_basic)
     (auto simp: within_def keeps_conns_def intro: grows_same)

lemma grows_payment_cb:
  assumes "payment_participant pq a b p" and "f \<in> {prepare_fn p, commit_fn p, abort_fn p}"
  shows "grows plain s (snd (f x tid s))"
  using assms
  by (auto simp: payment_participant_def db_participant_at_def cl_participant_at_def db_cb_defs cl_cb_defs
      grows_db_participant grows_cl_prepare grows_cl_commit grows_cl_abort)

lemma within_callback:
  assumes "payment_participant pq a b p"
  shows "within {a, b} silent s (snd (call_cb k p tid s))"
proof -
  define f where "f = (case k of Prepare \<Rightarrow> prepare_fn p | Commit \<Rightarrow> commit_fn p | Abort \<Rightarrow> abort_fn p)"
  have f: "f \<in> {prepare_fn p, commit_fn p, abort_fn p}" by (simp add: f_def split: callback.split)
  note g = grows_payment_cb [OF assms f, of s _ tid]
  have "within {a, b} plain s (snd (f (pcontext p) tid s))"
  proof (rule payment_cb_cases [OF assms f, of s tid])
    assume c: "pcontext p = a" and fr: "db_frame a s (snd (f a tid s))"
    then have "keeps_conns s (snd (f a tid s))" by (intro keeps_conns_same) (simp_all add: db_frame_def same_db_rest_def)
    with g [of a] c fr show ?thesis by (simp add: within_def db_frame_def same_db_rest_def) metis
  next
    assume c: "pcontext p = b" and fr: "cl_frame b s (snd (f b tid s))"
    have m: "csys.more (snd (f b tid s)) = csys.more s" using fr by (simp add: cl_frame_def)
    have "db_ctxs (snd (f b tid s)) = db_ctxs s" using m by (rule db_fields_more)
    moreover have "keeps_conns s (snd (f b tid s))" using keeps_conns_grows [OF g [of b] db_fields_more(4,2) [OF m]] .
    ultimately show ?thesis using g [of b] c fr by (simp add: within_def cl_frame_def) metis
  qed
  then have "within {a, b} silent s (snd (f (pcontext p) tid s))" by (rule within_silent)
  from within_trans [OF this within_basic(2)] show ?thesis
    by (simp add: call_cb_def f_def [symmetric] Let_def case_prod_beta)
qed


lemma payment_participant_state: "payment_participant pq a b (p\<lparr>pstate := x\<rparr>) = payment_participant pq a b p"
  by (simp add: payment_participant_def db_participant_at_def cl_participant_at_def)

lemma within_abort_path:
  assumes "\<forall>q \<in> set (participants t). payment_participant pq a b q" and "commit_abort_path p t c s = (r, c', s')"
  shows "within {a, b} silent s s'"
proof -
  obtain ps s3 where l: "abort_loop (transaction_id t) (participants t) (abort_started c t s) = (ps, s3)" by fastforce
  have "within {a, b} silent (abort_started c t s) s3"
    by (rule abort_loop_preserves [where R = "within {a, b} silent", OF _ _ _ _ assms(1) l])
       (auto intro: within_refl within_silent within_basic within_callback elim: within_trans)
  moreover have "within {a, b} silent s (abort_started c t s)"
    unfolding abort_started_def by (intro within_silent) (meson within_basic within_trans)
  ultimately have "within {a, b} silent s s3" by (rule within_trans [rotated])
  moreover have "within {a, b} silent s3 s'"
    using assms(2) unfolding commit_abort_path_eq [OF l]
    by (auto simp: Let_def) (meson within_basic within_silent within_trans)
  ultimately show ?thesis by (rule within_trans)
qed

lemma within_txn_commit:
  assumes "tx_heap c p = Some t" and "\<forall>q \<in> set (participants t). payment_participant pq a b q"
    and "txn_commit (Some p) c s = (r, c', s')"
  shows "within {a, b} silent s s'"
proof -
  note pres = within_refl within_silent within_basic within_callback payment_participant_state
  obtain ok ps s3 where l: "prepare_loop (transaction_id t) (participants t) (prepare_started c t s) = (ok, ps, s3)"
    using prod_cases3 by blast
  have "within {a, b} silent (prepare_started c t s) s3 \<and> (\<forall>q \<in> set ps. payment_participant pq a b q)"
    by (rule prepare_loop_preserves [where R = "within {a, b} silent", OF _ _ _ _ _ assms(2) l])
       (auto intro: pres simp: payment_participant_state elim: within_trans)
  moreover have "within {a, b} silent s (prepare_started c t s)"
    unfolding prepare_started_def by (intro within_silent) (meson within_basic within_trans)
  ultimately have 1: "within {a, b} silent s s3" "\<forall>q \<in> set ps. payment_participant pq a b q"
    by (auto elim: within_trans)
  let ?t = "t\<lparr>tstate := TXN_PREPARING, participants := ps\<rparr>"
  show ?thesis
  proof (cases ok)
    case False
    with assms(3) [unfolded txn_commit_eq [OF assms(1) l]] 1(2) within_abort_path [of ?t pq a b p c s3 r c' s']
    show ?thesis by (auto intro: within_trans [OF 1(1)])
  next
    case True
    with assms(3) [unfolded txn_commit_eq [OF assms(1) l]] have cp: "commit_phase p ?t c s3 = (r, c', s')" by simp
    obtain ok2 qs s4 where l2:
      "commit_loop (transaction_id ?t) (participants ?t) (commit_started c ?t s3) = (ok2, qs, s4)"
      using prod_cases3 by blast
    have ps: "\<forall>q \<in> set (participants ?t). payment_participant pq a b q" using 1(2) by simp
    have "within {a, b} silent (commit_started c ?t s3) s4 \<and> (\<forall>q \<in> set qs. payment_participant pq a b q)"
      by (rule commit_loop_preserves [where R = "within {a, b} silent", OF _ _ _ _ _ ps l2])
         (auto intro: pres simp: payment_participant_state elim: within_trans)
    moreover have "within {a, b} silent s3 (commit_started c ?t s3)"
      unfolding commit_started_def by (intro within_silent) (meson within_basic within_trans)
    ultimately have 2: "within {a, b} silent s3 s4" "\<forall>q \<in> set qs. payment_participant pq a b q"
      by (auto elim: within_trans)
    let ?u = "?t\<lparr>tstate := TXN_COMMITTING, participants := qs\<rparr>"
    have "within {a, b} silent s4 s'"
    proof (cases ok2)
      case True
      with cp [unfolded commit_phase_eq [OF l2]] show ?thesis
        by (auto simp: commit_finish_def Let_def) (meson within_basic within_silent within_trans)
    next
      case False
      with cp [unfolded commit_phase_eq [OF l2]] 2(2) within_abort_path [of ?u pq a b p c s4 r c' s']
      show ?thesis by simp
    qed
    with 1(1) 2(1) show ?thesis by (meson within_trans)
  qed
qed

lemma within_txn_abort:
  assumes "tx_heap c p = Some t" and "\<forall>q \<in> set (participants t). payment_participant pq a b q"
    and "txn_abort (Some p) c s = (c', s')"
  shows "within {a, b} silent s s'"
proof -
  let ?s = "clog ''INFO'' (Some (transaction_id t)) ''Explicitly aborting transaction''
    (log_transaction_state c (t\<lparr>tstate := TXN_ABORTING\<rparr>) ''ABORT_EXPLICIT'' s)"
  obtain ps s3 where l: "abort_all_loop (transaction_id t) (participants t) ?s = (ps, s3)" by fastforce
  have "within {a, b} silent ?s s3"
    by (rule abort_all_loop_preserves [where R = "within {a, b} silent", OF _ _ _ assms(2) l])
       (auto intro: within_refl within_callback elim: within_trans)
  moreover have "within {a, b} silent s ?s" by (intro within_silent) (meson within_basic within_trans)
  moreover have "within {a, b} silent s3 s'"
    using assms(1,3) l by (auto simp: txn_abort_def Let_def intro: within_silent within_basic)
  ultimately show ?thesis by (meson within_trans)
qed

end
