(* ===== verification/Payment.thy ===== *)
theory Payment
  imports Card Amount Risk Frames
begin

section \<open>The payment pipeline (server/handler.c)\<close>

text \<open>
  What a worker thread does with one request: \<open>process_line\<close> for a JSON line and
  \<open>process_body\<close> for the body of \<open>POST /secure/tx\<close>. The two are separate copies in the source and
  are modelled as such; statement sequences that are the same text in both (\<open>open_participants\<close>,
  \<open>register_both\<close>, \<open>release\<close>) are shared. The record \<open>world\<close> holds what the pipeline reaches: the
  thread's coordinator, the velocity table, the reversal queue and the process state; between
  two of its steps no other thread changes them. A \<open>Write\<close> event is a call of \<open>write_all\<close> with these
  bytes. The result is \<^const>\<open>None\<close> when \<open>reversal_enqueue\<close> does not return.
\<close>

record 'g world =
  w_coord :: "'g dsys coordinator"
  w_risk :: risk
  w_rev :: reversal
  w_sys :: "'g dsys"
  tod_src :: "nat \<Rightarrow> int \<times> int"
    \<comment> \<open>the readings of \<open>gettimeofday\<close>: seconds and microseconds\<close>
  tod_calls :: nat

definition gettimeofday :: "'g world \<Rightarrow> (int \<times> int) \<times> 'g world" where
  "gettimeofday w = (tod_src w (tod_calls w), w\<lparr>tod_calls := Suc (tod_calls w)\<rparr>)"

definition on_sys :: "('g dsys \<Rightarrow> 'g dsys) \<Rightarrow> 'g world \<Rightarrow> 'g world" where
  "on_sys f w = w\<lparr>w_sys := f (w_sys w)\<rparr>"

abbreviation newline :: char where
  "newline \<equiv> CHR 0x0A"

definition declined_body :: "string \<Rightarrow> string" where
  "declined_body why = ''{\"status\":\"DECLINED\",\"reason\":\"'' @ why @ ''\"}'' @ [newline]"

definition approved_body :: "bool \<Rightarrow> string \<Rightarrow> string" where
  "approved_body dup tid =
     (if dup then ''{\"status\":\"APPROVED\",\"idempotent\":true,\"txn_id\":\"'' @ tid @ ''\"}'' @ [newline]
      else ''{\"status\":\"APPROVED\",\"txn_id\":\"'' @ tid @ ''\"}'' @ [newline])"

definition risk_reason :: "risk_decision \<Rightarrow> string" where
  "risk_reason d = (if reason d \<noteq> [] then reason d else ''risk_decline'')"

definition make_txn_id :: "iso_request \<Rightarrow> 'g dsys \<Rightarrow> string \<times> 'g dsys" where
  "make_txn_id req s =
     (let (now, s) = time_null s
      in (clip MAX_TRANSACTION_ID_LEN (''visa_'' @ request_id req @ ''_'' @ show_int now), s))"

definition open_participants ::
    "'g pq \<Rightarrow> nat option \<Rightarrow> 'g dsys \<Rightarrow> nat option \<times> nat option \<times> 'g dsys" where
  "open_participants pq db s =
     (let (c, s) = db_thread_get pq db s;
          (d, s) = db_participant_init c s;
          (k, s) = clearing_participant_init None 30 s
      in (d, k, s))"

definition register_both ::
    "'g pq \<Rightarrow> nat \<Rightarrow> nat \<Rightarrow> nat \<Rightarrow> 'g dsys coordinator \<Rightarrow> 'g dsys \<Rightarrow> bool \<times> 'g dsys coordinator \<times> 'g dsys" where
  \<comment> \<open>whether both registrations returned 0; the second is made only after the first did\<close>
  "register_both pq txn a b c s =
     (let (r1, c, s) = txn_register_participant (Some txn) (Some ''database'') a (Some (db_prepare_cb pq))
                         (Some (db_commit_cb pq)) (Some (db_abort_cb pq)) c s in
      if r1 \<noteq> 0 then (False, c, s)
      else
        let (r2, c, s) = txn_register_participant (Some txn) (Some ''clearing'') b (Some cl_prepare_cb)
                           (Some cl_commit_cb) (Some cl_abort_cb) c s
        in (r2 = 0, c, s))"

definition release :: "'g pq \<Rightarrow> nat option \<Rightarrow> nat option \<Rightarrow> nat \<Rightarrow> 'g world \<Rightarrow> 'g world" where
  \<comment> \<open>destroy the participants there are, then \<open>txn_abort\<close>\<close>
  "release pq d k txn w =
     (let s = db_participant_destroy pq d (w_sys w);
          s = clearing_participant_destroy k s;
          (c, s) = txn_abort (Some txn) (w_coord w) s
      in w\<lparr>w_coord := c, w_sys := s\<rparr>)"

definition destroy_both :: "'g pq \<Rightarrow> nat \<Rightarrow> nat \<Rightarrow> 'g dsys \<Rightarrow> 'g dsys" where
  "destroy_both pq a b s = clearing_participant_destroy (Some b) (db_participant_destroy pq (Some a) s)"

subsection \<open>A request line\<close>

definition decline :: "string \<Rightarrow> string \<Rightarrow> string option \<Rightarrow> 'g world \<Rightarrow> 'g world" where
  "decline why lvl rid =
     on_sys (\<lambda>s. logj lvl ''tx'' rid ''DECLINED''
       (with_metrics metrics_inc_declined (emit (Write (declined_body why)) s)))"

definition line_commit ::
    "'g pq \<Rightarrow> iso_request \<Rightarrow> string \<Rightarrow> string \<Rightarrow> nat \<Rightarrow> nat \<Rightarrow> nat \<Rightarrow> bool \<Rightarrow> int \<times> int \<Rightarrow> 'g world \<Rightarrow> 'g world option" where
  "line_commit pq req masked txn_id txn a b is_dup t0 w =
     (let (commit_result, c, s) = txn_commit (Some txn) (w_coord w) (w_sys w);
          w = w\<lparr>w_coord := c, w_sys := destroy_both pq a b s\<rparr> in
      if commit_result = 0 then
        let w = on_sys (emit (Write (clip 256 (approved_body is_dup txn_id)))) w;
            w = on_sys (with_metrics metrics_inc_approved) w;
            (t1, w) = gettimeofday w;
            latency_us = (fst t1 - fst t0) * 1000000 + (snd t1 - snd t0)
        in Some (on_sys (emit (Log ''INFO'' ''tx'' (Some (request_id req)) ''APPROVED'' latency_us)) w)
      else
        (case reversal_enqueue (Some txn_id) (Some masked) (Some (amount_text req)) (Some ''MERCHANT001'')
                (w_rev w) (w_sys w) of
           None \<Rightarrow> None
         | Some (_, rq, s) \<Rightarrow>
             Some (decline ''commit_failed'' ''ERROR'' (Some (request_id req)) (w\<lparr>w_rev := rq, w_sys := s\<rparr>))))"

definition line_execute ::
    "'g pq \<Rightarrow> iso_request \<Rightarrow> string \<Rightarrow> string \<Rightarrow> nat \<Rightarrow> nat \<Rightarrow> nat \<Rightarrow> int \<times> int \<Rightarrow> 'g world \<Rightarrow> 'g world option" where
  \<comment> \<open>from the registration of the participants on\<close>
  "line_execute pq req masked txn_id txn a b t0 w =
     (let fail = (\<lambda>why w. Some (release pq (Some a) (Some b) txn (decline why ''ERROR'' (Some (request_id req)) w)));
          (ok, c, s) = register_both pq txn a b (w_coord w) (w_sys w);
          w = w\<lparr>w_coord := c, w_sys := s\<rparr> in
      if \<not> ok then fail ''participant_registration_failed'' w
      else
        let (r, s) = db_participant_begin pq (Some a) (Some txn_id) (w_sys w); w = w\<lparr>w_sys := s\<rparr> in
        if r \<noteq> 0 then fail ''db_begin_failed'' w
        else
          let (r, s) = clearing_participant_set_transaction (Some b) (Some txn_id) (Some masked)
                         (Some (amount_text req)) (Some ''MERCHANT001'') (w_sys w);
              w = w\<lparr>w_sys := s\<rparr> in
          if r \<noteq> 0 then fail ''clearing_setup_failed'' w
          else
            let (r, dup, _, s) = db_participant_insert_transaction pq (Some a) (Some (request_id req)) masked
                                  (amount_text req) ''APPROVED'' (Some 0) (Some []) 32 (w_sys w);
                w = w\<lparr>w_sys := s\<rparr> in
            if r \<noteq> 0 then fail ''db_error'' w
            else line_commit pq req masked txn_id txn a b (dup \<noteq> Some 0) t0 w)"

definition line_pay :: "'g pq \<Rightarrow> nat option \<Rightarrow> iso_request \<Rightarrow> int \<times> int \<Rightarrow> 'g world \<Rightarrow> 'g world option" where
  "line_pay pq db req t0 w =
     (let masked = mask_pan (pan req) 64 [];
          (txn_id, s) = make_txn_id req (w_sys w) in
      case txn_begin (Some txn_id) (w_coord w) s of
        (None, c, s) \<Rightarrow>
          Some (decline ''txn_init_failed'' ''ERROR'' (Some (request_id req)) (w\<lparr>w_coord := c, w_sys := s\<rparr>))
      | (Some txn, c, s) \<Rightarrow>
          let (d, k, s) = open_participants pq db s; w = w\<lparr>w_coord := c, w_sys := s\<rparr> in
          (case (d, k) of
             (Some a, Some b) \<Rightarrow> line_execute pq req masked txn_id txn a b t0 w
           | _ \<Rightarrow> Some (release pq d k txn
                     (decline ''participant_init_failed'' ''ERROR'' (Some (request_id req)) w))))"

definition process_line :: "'g pq \<Rightarrow> nat option \<Rightarrow> string \<Rightarrow> 'g world \<Rightarrow> 'g world option" where
  "process_line pq db line w =
     (let (t0, w) = gettimeofday w;
          w = on_sys (with_metrics metrics_inc_total) w in
      case iso_parse_request_line (Some line) of
        Inl _ \<Rightarrow> Some (decline ''bad_request'' ''WARN'' None w)
      | Inr req \<Rightarrow>
          if \<not> luhn_check (pan req) then
            Some (on_sys (\<lambda>s. logj ''WARN'' ''tx'' (Some (request_id req)) ''DECLINED''
              (with_metrics metrics_inc_risk_declined (with_metrics metrics_inc_declined
                (emit (Write (declined_body ''luhn_failed'')) s)))) w)
          else if \<not> amount_valid (amount_text req) then
            Some (decline ''amount_invalid'' ''WARN'' (Some (request_id req)) w)
          else
            let (rdec, rk, s) = risk_evaluate (Some req) (w_risk w) (w_sys w);
                w = w\<lparr>w_risk := rk, w_sys := s\<rparr> in
            if \<not> allow rdec then
              let body = declined_body (risk_reason rdec);
                  w = (if length body < 128 then on_sys (emit (Write body)) w else w)
              in Some (on_sys (\<lambda>s. logj ''WARN'' ''tx'' (Some (request_id req)) ''DECLINED''
                   (with_metrics metrics_inc_declined s)) w)
            else line_pay pq db req t0 w)"

subsection \<open>The body of a POST\<close>

type_synonym reply = "int \<times> string \<times> string"
  \<comment> \<open>\<open>http_code\<close>, \<open>http_reason\<close> and \<open>body_json\<close>\<close>

definition bad_request :: "string \<Rightarrow> reply" where
  "bad_request why = (400, ''Bad Request'', clip 512 (declined_body why))"

definition server_error :: "string \<Rightarrow> reply" where
  "server_error why = (500, ''Internal Server Error'', clip 512 (declined_body why))"

definition count_declined :: "'g world \<Rightarrow> 'g world" where
  "count_declined = on_sys (with_metrics metrics_inc_declined)"

definition body_commit ::
    "'g pq \<Rightarrow> iso_request \<Rightarrow> string \<Rightarrow> string \<Rightarrow> nat \<Rightarrow> nat \<Rightarrow> nat \<Rightarrow> bool \<Rightarrow> 'g world \<Rightarrow> (reply \<times> 'g world) option" where
  "body_commit pq req masked txn_id txn a b is_dup w =
     (let (commit_result, c, s) = txn_commit (Some txn) (w_coord w) (w_sys w);
          w = w\<lparr>w_coord := c, w_sys := destroy_both pq a b s\<rparr> in
      if commit_result = 0 then
        Some ((200, ''OK'', clip 512 (approved_body is_dup txn_id)), on_sys (with_metrics metrics_inc_approved) w)
      else
        (case reversal_enqueue (Some txn_id) (Some masked) (Some (amount_text req)) (Some ''MERCHANT001'')
                (w_rev w) (w_sys w) of
           None \<Rightarrow> None
         | Some (_, rq, s) \<Rightarrow>
             Some (server_error ''commit_failed'', count_declined (w\<lparr>w_rev := rq, w_sys := s\<rparr>))))"

definition body_execute ::
    "'g pq \<Rightarrow> iso_request \<Rightarrow> string \<Rightarrow> string \<Rightarrow> nat \<Rightarrow> nat \<Rightarrow> nat \<Rightarrow> 'g world \<Rightarrow> (reply \<times> 'g world) option" where
  "body_execute pq req masked txn_id txn a b w =
     (let fail = (\<lambda>rep w. Some (rep, release pq (Some a) (Some b) txn (count_declined w)));
          (ok, c, s) = register_both pq txn a b (w_coord w) (w_sys w);
          w = w\<lparr>w_coord := c, w_sys := s\<rparr> in
      if \<not> ok then fail (server_error ''participant_registration_failed'') w
      else
        let (r, s) = db_participant_begin pq (Some a) (Some txn_id) (w_sys w); w = w\<lparr>w_sys := s\<rparr> in
        if r \<noteq> 0 then fail (server_error ''db_begin_failed'') w
        else
          let (r, s) = clearing_participant_set_transaction (Some b) (Some txn_id) (Some masked)
                         (Some (amount_text req)) (Some ''MERCHANT001'') (w_sys w);
              w = w\<lparr>w_sys := s\<rparr> in
          if r \<noteq> 0 then fail (502, ''Bad Gateway'', clip 512 (declined_body ''clearing_setup_failed'')) w
          else
            let (r, dup, _, s) = db_participant_insert_transaction pq (Some a) (Some (request_id req)) masked
                                  (amount_text req) ''APPROVED'' (Some 0) (Some []) 32 (w_sys w);
                w = w\<lparr>w_sys := s\<rparr> in
            if r \<noteq> 0 then fail (server_error ''db_error'') w
            else body_commit pq req masked txn_id txn a b (dup \<noteq> Some 0) w)"

definition body_pay :: "'g pq \<Rightarrow> nat option \<Rightarrow> iso_request \<Rightarrow> 'g world \<Rightarrow> (reply \<times> 'g world) option" where
  "body_pay pq db req w =
     (let masked = mask_pan (pan req) 64 [];
          (txn_id, s) = make_txn_id req (w_sys w) in
      case txn_begin (Some txn_id) (w_coord w) s of
        (None, c, s) \<Rightarrow> Some (server_error ''txn_init_failed'', count_declined (w\<lparr>w_coord := c, w_sys := s\<rparr>))
      | (Some txn, c, s) \<Rightarrow>
          let (d, k, s) = open_participants pq db s; w = w\<lparr>w_coord := c, w_sys := s\<rparr> in
          (case (d, k) of
             (Some a, Some b) \<Rightarrow> body_execute pq req masked txn_id txn a b w
           | _ \<Rightarrow> Some (server_error ''participant_init_failed'', release pq d k txn (count_declined w))))"

definition body_decide :: "'g pq \<Rightarrow> nat option \<Rightarrow> string \<Rightarrow> 'g world \<Rightarrow> (reply \<times> 'g world) option" where
  "body_decide pq db body w =
     (case iso_parse_request_line (Some body) of
        Inl _ \<Rightarrow> Some (bad_request ''bad_request'', count_declined w)
      | Inr req \<Rightarrow>
          if \<not> luhn_check (pan req) then
            Some (bad_request ''luhn_failed'', on_sys (with_metrics metrics_inc_risk_declined) (count_declined w))
          else if \<not> amount_valid (amount_text req) then Some (bad_request ''amount_invalid'', count_declined w)
          else
            let (rdec, rk, s) = risk_evaluate (Some req) (w_risk w) (w_sys w);
                w = w\<lparr>w_risk := rk, w_sys := s\<rparr> in
            if \<not> allow rdec then
              Some ((402, ''Payment Required'', clip 512 (declined_body (risk_reason rdec))), count_declined w)
            else body_pay pq db req w)"

definition http_head :: "int \<Rightarrow> string \<Rightarrow> nat \<Rightarrow> string" where
  "http_head code why len =
     ''HTTP/1.1 '' @ show_int code @ '' '' @ why @ [CHR 0x0D, newline] @
     ''Content-Type: application/json'' @ [CHR 0x0D, newline] @
     ''Content-Length: '' @ show_nat len @ [CHR 0x0D, newline] @
     ''Connection: close'' @ [CHR 0x0D, newline, CHR 0x0D, newline]"

definition emit_reply :: "reply \<Rightarrow> 'g world \<Rightarrow> 'g world" where
  "emit_reply rep w =
     (case rep of
        (code, why, body) \<Rightarrow>
          if body = [] then w
          else
            let hdr = http_head code why (length body) in
            if length hdr < 256 then on_sys (\<lambda>s. emit (Write body) (emit (Write hdr) s)) w else w)"

definition process_body :: "'g pq \<Rightarrow> nat option \<Rightarrow> string \<Rightarrow> 'g world \<Rightarrow> 'g world option" where
  "process_body pq db body w =
     (let (t0, w) = gettimeofday w;
          w = on_sys (with_metrics metrics_inc_total) w in
      case body_decide pq db body w of
        None \<Rightarrow> None
      | Some (rep, w) \<Rightarrow> Some (emit_reply rep w))"

end
