(* ===== verification/Server.thy ===== *)
theory Server
  imports Net Payment Reversal
begin

section \<open>Start and stop of the server (server/main.c, and the stubs it calls)\<close>

text \<open>
  \<open>main_start\<close> is \<open>main\<close> up to the call of \<open>net_server_run\<close>, which is the system of the theory \<open>Net\<close>;
  \<open>main_stop\<close> is what follows it once the workers have been joined, applied to the
  reversal queue as its thread leaves it. The result \<open>Inl rc\<close> is the exit status of an early return. The hooks that the
  sources leave empty change nothing, and the operations of \<open>ledger.c\<close> accept every request.
\<close>

definition ledger_authorize_hold :: "iso_request \<Rightarrow> int" where
  "ledger_authorize_hold req = 0"

definition ledger_capture :: "iso_request \<Rightarrow> int" where
  "ledger_capture req = 0"

definition ledger_refund :: "iso_request \<Rightarrow> int" where
  "ledger_refund req = 0"

definition ledger_reversal :: "iso_request \<Rightarrow> int" where
  "ledger_reversal req = 0"

definition ledger_init :: "'g world \<Rightarrow> 'g world" where
  "ledger_init w = w"

definition log_init :: "'g world \<Rightarrow> 'g world" where
  "log_init w = w"

definition clearing_init :: "'g world \<Rightarrow> 'g world" where
  "clearing_init w = w"

definition clearing_start_background :: "'g world \<Rightarrow> 'g world" where
  "clearing_start_background w = w"

definition clearing_stop :: "'g world \<Rightarrow> 'g world" where
  "clearing_stop w = w"

definition config_free :: "config \<Rightarrow> config" where
  "config_free c = c"

lemmas hooks = ledger_init_def log_init_def clearing_init_def

definition main_start ::
    "'g pq \<Rightarrow> (nat \<Rightarrow> bool) \<Rightarrow> bool \<Rightarrow> 'g world \<Rightarrow> (int + config \<times> nat \<times> pool) \<times> 'g world" where
  \<comment> \<open>\<open>spawn\<close>, \<open>created\<close>: whether the workers and the reversal thread can be created\<close>
  "main_start pq spawn created w =
     (case config_init (w_sys w) of
        None \<Rightarrow> (Inl 1, w)
      | Some c \<Rightarrow>
          let w = on_sys (with_metrics metrics_init) (log_init w);
              w = w\<lparr>w_risk := risk_init (w_sys w) (w_risk w)\<rparr>;
              w = clearing_init (ledger_init w);
              w = w\<lparr>w_rev := snd (reversal_init created (w_rev w))\<rparr> in
          (case db_connect pq (cfg_db_uri c) (w_sys w) of
             (None, s) \<Rightarrow> (Inl 1, w\<lparr>w_sys := s\<rparr>)
           | (Some d, s) \<Rightarrow>
               (case threadpool_create (cfg_num_threads c) (queue_cap c) spawn s of
                  (None, s) \<Rightarrow> (Inl 1, w\<lparr>w_sys := db_disconnect pq (Some d) s\<rparr>)
                | (Some p, s) \<Rightarrow> (Inr (c, d, p), w\<lparr>w_sys := s\<rparr>))))"

definition main_stop :: "'g pq \<Rightarrow> nat \<Rightarrow> pool \<Rightarrow> 'g world \<Rightarrow> (pool \<times> 'g world) option" where
  \<comment> \<open>\<^const>\<open>None\<close>: the loop of \<open>reversal_shutdown\<close> that frees the queue does not end\<close>
  "main_stop pq d p w =
     (let p = threadpool_destroy p;
          w = on_sys (db_disconnect pq (Some d)) w in
      case reversal_shutdown_end (reversal_shutdown_begin (w_rev w)) of
        None \<Rightarrow> None
      | Some r \<Rightarrow> Some (p, w\<lparr>w_rev := r\<rparr>))"

subsection \<open>What the components find when the server starts\<close>

definition fresh_world :: "'g world \<Rightarrow> bool" where
  \<comment> \<open>the process before \<open>main\<close>: static initializers only\<close>
  "fresh_world w \<longleftrightarrow> w_rev w = reversal_start \<and> w_risk w = risk_start \<and> db_conns (w_sys w) = Map.empty \<and>
     db_ctxs (w_sys w) = Map.empty \<and> clearing_ctxs (w_sys w) = Map.empty"

lemma threadpool_create_sys:
  "\<exists>n \<ge> allocs s. snd (threadpool_create a b spawn s) = s\<lparr>allocs := n\<rparr>"
  by (auto simp: threadpool_create_def malloc_def Let_def intro: exI [of _ "Suc (allocs s)"] exI [of _ "Suc (Suc (allocs s))"])

lemma threadpool_create_sizes:
  assumes "threadpool_create n c spawn s = (Some p, s')" "0 < n" "0 < c"
  shows "int (num_threads p) = n \<and> int (cap p) = c"
  using assms by (auto simp: threadpool_create_def Let_def split: option.splits prod.splits if_splits)

lemma db_connect_refused: "db_connect pq u s = (None, s') \<Longrightarrow> db_conns s' = db_conns s \<and> metrics s' = metrics s"
  by (auto simp: db_connect_def malloc_def Let_def case_prod_beta split: option.splits if_splits)

lemma db_connect_connected:
  "db_connect pq u s = (Some a, s') \<Longrightarrow>
     (\<exists>n v. db_conns s' = (db_conns s)(a \<mapsto> \<lparr>conn = Some n, uri = v\<rparr>)) \<and> metrics s' = metrics s \<and>
     db_ctxs s' = db_ctxs s \<and> clearing_ctxs s' = clearing_ctxs s \<and> a < allocs s'"
  by (auto simp: db_connect_def malloc_def Let_def case_prod_beta split: option.splits if_splits intro!: exI)

lemma db_disconnect_conns: "db_conns (db_disconnect pq (Some a) s) = (db_conns s)(a := None)"
  by (auto simp: db_disconnect_def db_fault_def emit_def Let_def fun_upd_idem split: option.split)

lemma risk_init_empty: "vel_ok (risk_init s r)" "vel_of (risk_init s r) pn = None"
proof -
  have g: "g_vel (risk_init s r) = replicate VEL_CAP vel_zero" by (simp add: risk_init_def)
  then show ok: "vel_ok (risk_init s r)" by (simp add: vel_ok_def vel_zero_def)
  show "vel_of (risk_init s r) pn = None"
  proof (cases "pn = []")
    case False
    with g show ?thesis by (subst vel_of_None_iff [OF ok]) (simp_all add: vel_zero_def)
  qed (simp add: vel_of_def)
qed

lemma free_tasks_chain:
  "chain h r_next q as \<Longrightarrow> distinct as \<Longrightarrow> free_tasks h q = Some (\<lambda>a. if a \<in> set as then None else h a)"
proof (induction as arbitrary: h q)
  case Nil
  then show ?case by (simp add: free_tasks.simps)
next
  case (Cons a as)
  then obtain t where t: "q = Some a" "h a = Some t" "chain h r_next (r_next t) as" by (auto split: option.splits)
  then have "chain (h(a := None)) r_next (r_next t) as" using Cons.prems(2) by (simp add: chain_fresh)
  with Cons have "free_tasks (h(a := None)) (r_next t) = Some (\<lambda>b. if b \<in> set as then None else (h(a := None)) b)" by simp
  with t show ?case by (subst free_tasks.simps) (auto simp: fun_eq_iff)
qed

lemma main_stop_releases:
  assumes "dom (db_conns (w_sys w)) = {d}" "rev_chain (w_rev w) as"
  shows "\<exists>p' w'. main_stop pq d p w = Some (p', w') \<and> db_conns (w_sys w') = Map.empty \<and>
    head p' = None \<and> shutting_down p' \<and> rev_chain (w_rev w') []"
proof -
  have "db_conns (db_disconnect pq (Some d) (w_sys w)) = Map.empty"
    using assms(1) unfolding db_disconnect_conns by (auto simp: fun_eq_iff dom_def)
  moreover have "free_tasks (g_tasks (w_rev w)) (g_head (w_rev w)) =
    Some (\<lambda>a. if a \<in> set as then None else g_tasks (w_rev w) a)"
    using assms(2) by (intro free_tasks_chain) (simp_all add: rev_chain_def)
  ultimately show ?thesis
    by (simp add: main_stop_def on_sys_def reversal_shutdown_begin_def reversal_shutdown_end_def threadpool_destroy_def
        rev_chain_def Let_def)
qed

definition ready :: "config \<Rightarrow> nat \<Rightarrow> pool \<Rightarrow> 'g world \<Rightarrow> bool" where
  \<comment> \<open>the state the components start from\<close>
  "ready c d p w \<longleftrightarrow> new_pool p \<and> int (num_threads p) = cfg_num_threads c \<and> int (cap p) = queue_cap c \<and>
     metrics (w_sys w) = metrics_zero \<and> vel_ok (w_risk w) \<and> (\<forall>pn. vel_of (w_risk w) pn = None) \<and>
     w_rev w = reversal_start \<and> db_ctxs (w_sys w) = Map.empty \<and> clearing_ctxs (w_sys w) = Map.empty \<and>
     (\<exists>n v. db_conns (w_sys w) = [d \<mapsto> \<lparr>conn = Some n, uri = v\<rparr>]) \<and> d < allocs (w_sys w)"

definition start_ok :: "'g world \<Rightarrow> int + config \<times> nat \<times> pool \<Rightarrow> 'g world \<Rightarrow> bool" where
  "start_ok w r w' \<longleftrightarrow>
     (case r of
        Inl rc \<Rightarrow> rc = 1 \<and> db_conns (w_sys w') = Map.empty
      | Inr (c, d, p) \<Rightarrow> config_init (w_sys w) = Some c \<and> ready c d p w')"

lemma main_start_connected:
  assumes "config_init (w_sys w) = Some c" "db_connect pq (cfg_db_uri c) (with_metrics metrics_init (w_sys w)) = (Some d, s1)"
    and "fresh_world w" "main_start pq spawn created w = (r, w')"
  shows "start_ok w r w'"
proof -
  let ?s = "with_metrics metrics_init (w_sys w)"
  have s: "db_conns ?s = Map.empty" "metrics ?s = metrics_zero" "db_ctxs ?s = Map.empty" "clearing_ctxs ?s = Map.empty"
    using assms(3) by (simp_all add: fresh_world_def with_metrics_def metrics_init_zero)
  have rev: "snd (reversal_init created (w_rev w)) = reversal_start"
    using assms(3) by (simp add: fresh_world_def reversal_init_def reversal_start_def)
  from db_connect_connected [OF assms(2)] s have s1: "\<exists>n v. db_conns s1 = [d \<mapsto> \<lparr>conn = Some n, uri = v\<rparr>]" "metrics s1 = metrics_zero"
    "db_ctxs s1 = Map.empty" "clearing_ctxs s1 = Map.empty" "d < allocs s1"
    by auto
  obtain pp s2 where tp: "threadpool_create (cfg_num_threads c) (queue_cap c) spawn s1 = (pp, s2)" by fastforce
  from threadpool_create_sys [of s1 "cfg_num_threads c" "queue_cap c" spawn] tp
  have s2: "db_conns s2 = db_conns s1" "metrics s2 = metrics s1" "db_ctxs s2 = db_ctxs s1" "clearing_ctxs s2 = clearing_ctxs s1"
    "allocs s1 \<le> allocs s2" by auto
  show ?thesis
  proof (cases pp)
    case None
    with assms tp have "r = Inl 1" "w_sys w' = db_disconnect pq (Some d) s2" by (auto simp: main_start_def on_sys_def hooks Let_def)
    then show ?thesis using s1 s2 by (auto simp: start_ok_def db_disconnect_conns)
  next
    case (Some p)
    with assms tp rev have r: "r = Inr (c, d, p)" "w_sys w' = s2" "w_rev w' = reversal_start" "w_risk w' = risk_init ?s (w_risk w)"
      by (auto simp: main_start_def on_sys_def hooks Let_def)
    have "new_pool p" "int (num_threads p) = cfg_num_threads c" "int (cap p) = queue_cap c"
      using threadpool_create_new [OF tp [unfolded Some]] threadpool_create_sizes [OF tp [unfolded Some]] config_init_sane [OF assms(1)]
      by simp_all
    then show ?thesis using assms(1) s1 s2 r by (simp add: start_ok_def ready_def risk_init_empty)
  qed
qed

lemma main_start_ok:
  assumes "fresh_world w" and "main_start pq spawn created w = (r, w')"
  shows "start_ok w r w'"
proof (cases "config_init (w_sys w)")
  case None
  with assms show ?thesis by (auto simp: main_start_def fresh_world_def start_ok_def)
next
  case (Some c)
  obtain dd s1 where db: "db_connect pq (cfg_db_uri c) (with_metrics metrics_init (w_sys w)) = (dd, s1)" by fastforce
  show ?thesis
  proof (cases dd)
    case None
    with db assms(2) Some have "r = Inl 1" "w_sys w' = s1" by (auto simp: main_start_def on_sys_def hooks Let_def)
    with db_connect_refused [OF db [unfolded None]] assms(1) show ?thesis
      by (simp add: start_ok_def fresh_world_def with_metrics_def)
  next
    case (Some d)
    with main_start_connected [OF \<open>config_init (w_sys w) = Some c\<close> _ assms] db show ?thesis by simp
  qed
qed

text \<open>
  C10. \<open>main\<close> either exits with status 1 and holds no database connection, or hands to the accept loop a
  pool of the configured size with an empty queue, cleared counters, an empty velocity table, an
  empty reversal queue, no participant context and exactly one open connection; and stopping later, from any state where that
  connection is the open one and the links of the reversal queue are intact, returns, closes the
  connection and leaves both queues empty.
\<close>

theorem main_lifecycle:
  assumes "fresh_world w" and "main_start pq spawn created w = (r, w')"
  shows "(case r of
      Inl rc \<Rightarrow> rc = 1 \<and> db_conns (w_sys w') = Map.empty
    | Inr (c, d, p) \<Rightarrow> config_init (w_sys w) = Some c \<and> ready c d p w') \<and>
    (dom (db_conns (w_sys v)) = {d'} \<and> rev_chain (w_rev v) as \<longrightarrow>
       (\<exists>q' v'. main_stop pq d' q v = Some (q', v') \<and> db_conns (w_sys v') = Map.empty \<and>
          head q' = None \<and> shutting_down q' \<and> rev_chain (w_rev v') []))"
  using main_start_ok [OF assms] main_stop_releases unfolding start_ok_def by blast

subsection \<open>A concrete run\<close>

definition demo_world0 :: "(string \<Rightarrow> row option) world" where
  "demo_world0 = \<lparr>w_coord = \<lparr>active_transactions = [], tx_heap = (\<lambda>_. None), txn_log = True, prepare_timeout_seconds = 30,
       commit_timeout_seconds = 30\<rparr>,
     w_risk = risk_start, w_rev = reversal_start,
     w_sys = (demo_dsys Map.empty)\<lparr>env_src := [''DB_URI'' \<mapsto> ''u''], db_conns := Map.empty\<rparr>,
     tod_src = (\<lambda>_. (0, 0)), tod_calls = 0\<rparr>"

text \<open>Witness of C10: with \<open>DB_URI\<close> set and a database that answers, the server starts, and stops again.\<close>

theorem main_lifecycle_witness:
  "\<exists>c d p w'. main_start demo_pq (\<lambda>_. True) True demo_world0 = (Inr (c, d, p), w') \<and> ready c d p w' \<and>
     (\<exists>q' v'. main_stop demo_pq d p w' = Some (q', v') \<and> db_conns (w_sys v') = Map.empty)"
proof -
  have "\<exists>c d p w'. main_start demo_pq (\<lambda>_. True) True demo_world0 = (Inr (c, d, p), w')"
    by (simp add: main_start_def hooks demo_world0_def demo_dsys_def config_init_def positive_or_def db_connect_def malloc_def
        demo_pq_def threadpool_create_def on_sys_def with_metrics_def Let_def list_all_iff)
  then obtain c d p w' where m: "main_start demo_pq (\<lambda>_. True) True demo_world0 = (Inr (c, d, p), w')" by blast
  have f: "fresh_world demo_world0" by (simp add: fresh_world_def demo_world0_def demo_dsys_def)
  from main_lifecycle [OF f m] have r: "ready c d p w'" by simp
  then have "dom (db_conns (w_sys w')) = {d}" "rev_chain (w_rev w') []"
    by (auto simp: ready_def rev_chain_def reversal_start_def split: if_splits)
  with main_lifecycle [OF f m, of w' d "[]" p] m r show ?thesis by blast
qed

end
