(* ===== verification/Payment_flow.thy ===== *)
theory Payment_flow
  imports Payment
begin

section \<open>What the payment pipeline guarantees\<close>

text \<open>
  The stages of the two pipelines, one lemma each: \<open>settles\<close> says of a stage that both copies return,
  leave the worker idle and agree on answer and counters. The properties of whole requests follow
  from \<open>both_pipelines\<close>.
\<close>

lemma grows_calls: "grows plain s s' \<Longrightarrow> calls (trace s') = calls (trace s)"
  by (auto simp: grows_def plain_def list_all_iff calls_def filter_empty_conv)

subsection \<open>One transaction at a time\<close>

definition empty_table :: "'s coordinator \<Rightarrow> bool" where
  "empty_table c \<longleftrightarrow> active_transactions c = [] \<and> tx_heap c = Map.empty"

definition holding :: "nat \<Rightarrow> 's transaction \<Rightarrow> 's coordinator \<Rightarrow> bool" where
  "holding p t c \<longleftrightarrow> active_transactions c = [p] \<and> tx_heap c = [p \<mapsto> t]"

lemma begin_empty:
  assumes "empty_table c" and "txn_begin (Some tid) c s = (res, c', s')" and "length tid < MAX_TRANSACTION_ID_LEN"
  shows "within X plain s s'"
    and "res = None \<Longrightarrow> c' = c"
    and "res = Some p \<Longrightarrow> p < allocs s' \<and> (\<exists>t. holding p t c' \<and> transaction_id t = tid \<and> participants t = [])"
proof -
  have f: "find_transaction tid c = None" using assms(1) by (simp add: find_transaction_def empty_table_def)
  show "within X plain s s'"
    using assms(2) f
    by (auto simp: txn_begin_def Let_def time_null_def malloc_def intro!: within_step within_refl split: if_splits)
  show "res = None \<Longrightarrow> c' = c"
    using assms(2) by (auto simp: txn_begin_def Let_def time_null_def malloc_def split: if_splits)
  show "p < allocs s' \<and> (\<exists>t. holding p t c' \<and> transaction_id t = tid \<and> participants t = [])" if "res = Some p"
    using assms that
    by (auto simp: txn_begin_def Let_def time_null_def malloc_def empty_table_def holding_def add_transaction_def
        clip_id log_transaction_state_def emit_def logj_def split: if_splits)
qed

lemma register_both_holding:
  fixes c :: "'g dsys coordinator"
  assumes "holding p t c" and "participants t = []" and "register_both pq p a b c s = (ok, c', s')"
  shows "ok" and "within X plain s s'"
    and "\<exists>u. holding p u c' \<and> transaction_id u = transaction_id t \<and>
       (transaction_id t \<noteq> [] \<longrightarrow> payment_txn pq a b u) \<and> (\<forall>q \<in> set (participants u). payment_participant pq a b q)"
proof -
  define d :: "'g dsys participant" where "d = \<lparr>pname = ''database'', pstate = PARTICIPANT_INIT, pcontext = a, prepare_fn = db_prepare_cb pq,
     commit_fn = db_commit_cb pq, abort_fn = db_abort_cb pq\<rparr>"
  define k :: "'g dsys participant" where "k = \<lparr>pname = ''clearing'', pstate = PARTICIPANT_INIT, pcontext = b, prepare_fn = cl_prepare_cb,
     commit_fn = cl_commit_cb, abort_fn = cl_abort_cb\<rparr>"
  have n: "clip MAX_PARTICIPANT_NAME_LEN ''database'' = ''database''"
    "clip MAX_PARTICIPANT_NAME_LEN ''clearing'' = ''clearing''"
    by (simp_all add: MAX_PARTICIPANT_NAME_LEN_def clip_def)
  let ?u = "t\<lparr>participants := [d, k]\<rparr>"
  have e: "ok \<and> c' = c\<lparr>tx_heap := [p \<mapsto> ?u]\<rparr> \<and> s' = clog ''INFO'' (Some (transaction_id t)) ''Participant registered''
    (clog ''INFO'' (Some (transaction_id t)) ''Participant registered'' s)"
    using assms n
    by (auto simp: register_both_def txn_register_participant_def holding_def Let_def MAX_PARTICIPANTS_def
        d_def k_def)
  then show "ok" by simp
  show "within X plain s s'" using e by (auto intro: within_step within_refl)
  have "payment_participant pq a b d" "payment_participant pq a b k"
    by (simp_all add: payment_participant_def db_participant_at_def cl_participant_at_def d_def k_def)
  then show "\<exists>u. holding p u c' \<and> transaction_id u = transaction_id t \<and>
       (transaction_id t \<noteq> [] \<longrightarrow> payment_txn pq a b u) \<and> (\<forall>q \<in> set (participants u). payment_participant pq a b q)"
    using e assms(1)
    by (intro exI [of _ ?u])
       (auto simp: holding_def payment_txn_def db_participant_at_def cl_participant_at_def d_def k_def)
qed

lemma retired_empty:
  assumes "holding p t c" and "retired p t c c'"
  shows "empty_table c'"
  using assms
  by (auto simp: retired_def holding_def empty_table_def remove_transaction_def find_transaction_def has_id_def put_txn_def)

lemma holding_heap: "holding p t c \<Longrightarrow> tx_heap c p = Some t"
  by (simp add: holding_def)

subsection \<open>Opening and destroying the participants\<close>

definition fresh_ctxs :: "('g, 'a) dsys_scheme \<Rightarrow> bool" where
  \<comment> \<open>addresses not handed out yet carry no context\<close>
  "fresh_ctxs s \<longleftrightarrow> (\<forall>x. allocs s \<le> x \<longrightarrow> db_ctxs s x = None \<and> clearing_ctxs s x = None)"

lemma fresh_ctxs_within: "fresh_ctxs s \<Longrightarrow> within X P s s' \<Longrightarrow> fresh_ctxs s'"
  unfolding fresh_ctxs_def within_def grows_def by auto

lemma db_thread_get_ctxs:
  assumes "db_thread_get pq db s = (c, s')"
  shows "within X plain s s'"
proof -
  have g: "grows plain s s'" using grows_db_thread_get [of s pq db] assms by simp
  have "db_ctxs s' = db_ctxs s \<and> clearing_ctxs s' = clearing_ctxs s"
    using assms by (auto simp: db_thread_get_def db_connect_def db_fault_def malloc_def Let_def
        split: option.splits prod.splits if_splits)
  with g keeps_conns_db_thread_get [of s pq db] assms show ?thesis by (simp add: within_def)
qed

lemma open_participants_spec:
  assumes "open_participants pq db s = (d, k, s')" and "fresh_ctxs s"
  shows "grows plain s s'" and "fresh_ctxs s'"
    and "d \<noteq> Some x \<Longrightarrow> db_ctxs s' x = db_ctxs s x" and "k \<noteq> Some x \<Longrightarrow> clearing_ctxs s' x = clearing_ctxs s x"
    and "d = Some a \<Longrightarrow> allocs s \<le> a \<and> (\<exists>c. db_ctxs s' a = Some c \<and> \<not> in_transaction c \<and> db_txn_id c = [])"
    and "k = Some b \<Longrightarrow> allocs s \<le> b \<and> (\<exists>c. clearing_ctxs s' b = Some c \<and> \<not> has_hold c)"
    and "d = Some a \<Longrightarrow> k = Some b \<Longrightarrow> a < b" and "keeps_conns s s'"
proof -
  obtain c s1 where 1: "db_thread_get pq db s = (c, s1)" by force
  obtain s2 where 2: "db_participant_init c s1 = (d, s2)" 
    using assms(1) 1 by (auto simp: open_participants_def Let_def split: prod.splits)
  have 3: "clearing_participant_init None 30 s2 = (k, s')"
    using assms(1) 1 2 by (auto simp: open_participants_def Let_def split: prod.splits)
  have g: "grows plain s1 s2" "grows plain s2 s'"
    using grows_db_participant(1) [of s1 c] grows_cl_rest(1) [of s2 None 30] 2 3 by simp_all
  have w1: "grows plain s s1" "db_ctxs s1 = db_ctxs s" "clearing_ctxs s1 = clearing_ctxs s" "keeps_conns s s1"
    using db_thread_get_ctxs [OF 1, of "{}"] by (auto simp: within_def)
  have d: "clearing_ctxs s2 = clearing_ctxs s1" "d \<noteq> Some x \<Longrightarrow> db_ctxs s2 x = db_ctxs s1 x"
    "d = Some a \<Longrightarrow> a = allocs s1 \<and> allocs s2 = Suc a \<and>
       (\<exists>c. db_ctxs s2 a = Some c \<and> \<not> in_transaction c \<and> db_txn_id c = [])" for x a
    using 2 by (auto simp: db_participant_init_def malloc_def put_db_ctx_def split: option.splits if_splits)
  note cs = clearing_init_spec [OF 3]
  have db: "db_ctxs s' = db_ctxs s2" using cs(7) by (rule db_fields_more)
  have k: "k \<noteq> Some x \<Longrightarrow> clearing_ctxs s' x = clearing_ctxs s2 x"
    "k = Some b \<Longrightarrow> b = allocs s2 \<and> allocs s' = Suc b \<and> (\<exists>c. clearing_ctxs s' b = Some c \<and> \<not> has_hold c)" for x b
    using cs(1,2) cs(8,9) by (auto split: if_splits)
  show "grows plain s s'" using w1(1) g by (meson grows_trans)
  have "db_tls s2 = db_tls s1" "db_conns s2 = db_conns s1"
    using 2 by (auto simp: db_participant_init_def malloc_def put_db_ctx_def split: option.splits if_splits)
  with keeps_conns_trans [OF w1(4) keeps_conns_trans [OF keeps_conns_grows [OF g(1)] keeps_conns_grows [OF g(2)]]] db_fields_more(2,4) [OF cs(7)]
  show "keeps_conns s s'" by simp
  have al: "allocs s \<le> allocs s1" "allocs s1 \<le> allocs s2" "allocs s2 \<le> allocs s'"
    using w1(1) g by (auto simp: grows_def)
  show dx: "d \<noteq> Some x \<Longrightarrow> db_ctxs s' x = db_ctxs s x" for x by (simp add: db d(2) w1(2))
  show kx: "k \<noteq> Some x \<Longrightarrow> clearing_ctxs s' x = clearing_ctxs s x" for x by (simp add: k(1) d(1) w1(3))
  show "allocs s \<le> a \<and> (\<exists>c. db_ctxs s' a = Some c \<and> \<not> in_transaction c \<and> db_txn_id c = [])" if "d = Some a"
    using d(3) [OF that] db al by auto
  show "allocs s \<le> b \<and> (\<exists>c. clearing_ctxs s' b = Some c \<and> \<not> has_hold c)" if "k = Some b"
    using k(2) [OF that] al by auto
  show "a < b" if "d = Some a" "k = Some b" using d(3) [OF that(1)] k(2) [OF that(2)] by simp
  show "fresh_ctxs s'" unfolding fresh_ctxs_def
  proof (intro allI impI)
    fix x assume x: "allocs s' \<le> x"
    have "d \<noteq> Some x" "k \<noteq> Some x" using d(3) [of x] k(2) [of x] al x by auto
    with dx kx al x assms(2) show "db_ctxs s' x = None \<and> clearing_ctxs s' x = None" by (simp add: fresh_ctxs_def)
  qed
qed

subsection \<open>Releasing\<close>

lemma within_freed_callback:
  assumes "payment_participant pq a b p" and "db_ctxs s a = None" and "clearing_ctxs s b = None"
  shows "within {} silent s (snd (call_cb k p tid s))"
proof -
  let ?f = "case k of Prepare \<Rightarrow> prepare_fn p | Commit \<Rightarrow> commit_fn p | Abort \<Rightarrow> abort_fn p"
  have "within {} plain s (snd (?f (pcontext p) tid s))"
    using assms within_basic(3) [of "{}" s]
    by (auto simp: payment_participant_def db_participant_at_def cl_participant_at_def db_cb_defs cl_cb_defs
        db_participant_prepare_def db_participant_commit_def db_participant_abort_def
        clearing_participant_prepare_def clearing_participant_commit_def clearing_participant_abort_def
        db_fault_def cl_fault_def split: callback.split)
  from within_trans [OF within_silent [OF this] within_basic(2)] show ?thesis
    by (simp add: call_cb_def Let_def case_prod_beta)
qed

lemma within_freed_abort:
  fixes s :: "('g, 'a) dsys_scheme"
  assumes "tx_heap c p = Some t" and "\<forall>q \<in> set (participants t). payment_participant pq a b q"
    and "db_ctxs s a = None" and "clearing_ctxs s b = None" and "txn_abort (Some p) c s = (c', s')"
  shows "within {} silent s s'"
proof -
  let ?R = "\<lambda>s s'. db_ctxs s a = None \<and> clearing_ctxs s b = None \<longrightarrow> within {} silent s s'"
  let ?s = "clog ''INFO'' (Some (transaction_id t)) ''Explicitly aborting transaction''
    (log_transaction_state c (t\<lparr>tstate := TXN_ABORTING\<rparr>) ''ABORT_EXPLICIT'' s)"
  have tr: "?R s u" if "?R s t" "?R t u" for s t u :: "('g, 'a) dsys_scheme"
    using that within_trans [of "{}" silent s t u] by (auto simp: within_def)
  obtain ps s3 where l: "abort_all_loop (transaction_id t) (participants t) ?s = (ps, s3)" by fastforce
  have w: "within {} silent s ?s" by (intro within_silent) (intro within_step within_refl)
  have "?R ?s s3"
    by (rule abort_all_loop_preserves [where R = ?R and G = "payment_participant pq a b", OF _ tr _ assms(2) l])
       (simp_all add: within_refl within_freed_callback)
  with w assms(3,4) have "within {} silent ?s s3" by (simp add: within_def)
  moreover have "within {} silent s3 s'"
    using assms(1,5) l by (auto simp: txn_abort_def Let_def intro: within_silent within_basic)
  ultimately show ?thesis using w by (meson within_trans)
qed

definition freed :: "nat option \<Rightarrow> nat option \<Rightarrow> ('g, 'a) dsys_scheme \<Rightarrow> ('g, 'a) dsys_scheme \<Rightarrow> bool" where
  \<comment> \<open>nothing changed but that the contexts \<open>d\<close> and \<open>k\<close> are gone\<close>
  "freed d k s s' \<longleftrightarrow> keeps_conns s s' \<and>
     (\<forall>x. db_ctxs s' x = (if d = Some x then None else db_ctxs s x) \<and>
          clearing_ctxs s' x = (if k = Some x then None else clearing_ctxs s x))"

lemma freed_within: "freed d k s t \<Longrightarrow> within {} P t u \<Longrightarrow> freed d k s u"
  by (auto simp: freed_def within_def intro: keeps_conns_trans)

lemma destroy_freed:
  assumes "\<And>a. d = Some a \<Longrightarrow> db_ctxs s a \<noteq> None" and "\<And>b. k = Some b \<Longrightarrow> clearing_ctxs s b \<noteq> None"
  shows "grows plain s (clearing_participant_destroy k (db_participant_destroy pq d s))"
    and "freed d k s (clearing_participant_destroy k (db_participant_destroy pq d s))"
proof -
  let ?s = "db_participant_destroy pq d s"
  show "grows plain s (clearing_participant_destroy k ?s)"
    using grows_db_participant(7) grows_cl_rest(3) by (rule grows_trans)
  have 1: "db_ctxs ?s x = (if d = Some x then None else db_ctxs s x)" "clearing_ctxs ?s = clearing_ctxs s"
    "db_tls ?s = db_tls s" "db_conns ?s = db_conns s" for x
  proof -
    have "(\<forall>x. db_ctxs ?s x = (if d = Some x then None else db_ctxs s x)) \<and> clearing_ctxs ?s = clearing_ctxs s \<and>
      db_tls ?s = db_tls s \<and> db_conns ?s = db_conns s"
    proof (cases d)
      case None
      then show ?thesis by (simp add: db_participant_destroy_def)
    next
      case (Some a)
      then obtain c where c: "db_ctxs s a = Some c" using assms(1) by auto
      obtain r1 u where u: "db_participant_abort pq (Some a) (Some (db_txn_id c)) s = (r1, u)" by force
      show ?thesis
        using c u db_abort_spec [OF c u] Some by (auto simp: db_participant_destroy_def Let_def same_db_rest_def)
    qed
    then show "db_ctxs ?s x = (if d = Some x then None else db_ctxs s x)" "clearing_ctxs ?s = clearing_ctxs s"
      "db_tls ?s = db_tls s" "db_conns ?s = db_conns s" by auto
  qed
  have g1: "grows plain s ?s" "grows plain ?s (clearing_participant_destroy k ?s)" using grows_db_participant(7) grows_cl_rest(3) .
  note op = keeps_conns_trans [OF keeps_conns_grows [OF g1(1) 1(3,4)] keeps_conns_grows [OF g1(2)]]
  show "freed d k s (clearing_participant_destroy k ?s)"
  proof (cases k)
    case None
    with 1 op show ?thesis by (simp add: clearing_participant_destroy_def freed_def)
  next
    case (Some b)
    then obtain e where e: "clearing_ctxs ?s b = Some e" using assms(2) 1 by auto
    obtain r2 v where v: "clearing_participant_abort (Some b) (Some (cl_txn_id e)) ?s = (r2, v)" by force
    have f: "cl_frame b ?s v" using cl_abort_frame [of b ?s "cl_txn_id e"] v by simp
    then have m: "csys.more v = csys.more ?s" by (simp add: cl_frame_def)
    have "db_tls (clearing_participant_destroy k ?s) = db_tls ?s" "db_conns (clearing_participant_destroy k ?s) = db_conns ?s"
      using e v Some db_fields_more [OF m] by (simp_all add: clearing_participant_destroy_def Let_def)
    from op [OF this] db_fields_more(1) [OF m] f e v 1(1,2) Some show ?thesis
      by (auto simp: clearing_participant_destroy_def Let_def freed_def cl_frame_def)
  qed
qed

lemma release_spec:
  assumes "holding p t (w_coord w)"
    and "\<And>a. d = Some a \<Longrightarrow> db_ctxs (w_sys w) a \<noteq> None" and "\<And>b. k = Some b \<Longrightarrow> clearing_ctxs (w_sys w) b \<noteq> None"
    and "participants t = [] \<or>
      (\<exists>a b. d = Some a \<and> k = Some b \<and> (\<forall>q \<in> set (participants t). payment_participant pq a b q))"
  shows "\<exists>c s. release pq d k p w = w\<lparr>w_coord := c, w_sys := s\<rparr> \<and> empty_table c \<and>
    grows silent (w_sys w) s \<and> freed d k (w_sys w) s"
proof -
  let ?s = "clearing_participant_destroy k (db_participant_destroy pq d (w_sys w))"
  obtain c s where a: "txn_abort (Some p) (w_coord w) ?s = (c, s)" by fastforce
  note h = holding_heap [OF assms(1)]
  note df = destroy_freed [of d "w_sys w" k pq, OF assms(2,3)]
  have "empty_table c" using retired_empty [OF assms(1) txn_abort_retired [OF h a]] .
  moreover have w: "within {} silent ?s s"
    using assms(4)
  proof
    assume "participants t = []"
    then show ?thesis using a h by (auto simp: txn_abort_def Let_def intro!: within_silent within_step within_refl)
  next
    assume "\<exists>a b. d = Some a \<and> k = Some b \<and> (\<forall>q \<in> set (participants t). payment_participant pq a b q)"
    then obtain a' b' where ab: "d = Some a'" "k = Some b'" "\<forall>q \<in> set (participants t). payment_participant pq a' b' q"
      by blast
    have "db_ctxs ?s a' = None" "clearing_ctxs ?s b' = None" using df(2) ab(1,2) by (auto simp: freed_def)
    from within_freed_abort [OF h ab(3) this a] show ?thesis .
  qed
  moreover have "grows silent (w_sys w) s"
    using grows_silent [OF df(1)] w by (auto simp: within_def intro: grows_trans)
  moreover have "freed d k (w_sys w) s" using df(2) w by (rule freed_within)
  ultimately show ?thesis using a by (auto simp: release_def Let_def)
qed

subsection \<open>Enqueuing a reversal\<close>

definition rev_ready :: "reversal \<Rightarrow> 'a sys_scheme \<Rightarrow> bool" where
  "rev_ready r s \<longleftrightarrow> (\<exists>as. rev_chain r as) \<and> (\<forall>x. allocs s \<le> x \<longrightarrow> g_tasks r x = None)"

lemma rev_ready_grows: "rev_ready r s \<Longrightarrow> grows P s s' \<Longrightarrow> rev_ready r s'"
  by (auto simp: rev_ready_def grows_def)

lemma enqueue_spec:
  fixes s :: "('g, 'a) dsys_scheme"
  assumes "rev_ready r s"
  shows "\<exists>rc r' s'. reversal_enqueue tid pm am mid r s = Some (rc, r', s') \<and> rev_ready r' s' \<and> within {} plain s s'"
proof -
  obtain as where as: "rev_chain r as" using assms by (auto simp: rev_ready_def)
  let ?a = "allocs s"
  have fresh: "?a \<notin> set as" using as assms chain_dom unfolding rev_chain_def rev_ready_def by blast
  show ?thesis
  proof (cases "tid \<noteq> None \<and> the tid \<noteq> [] \<and> alloc_src s ?a")
    case True
    then obtain c cs where t: "tid = Some (c # cs)" "alloc_src s ?a" by (cases tid; cases "the tid") auto
    define k where "k = \<lparr>r_txn_id = clip MAX_TRANSACTION_ID_LEN (c # cs),
      r_pan_masked = (case pm of None \<Rightarrow> [] | Some x \<Rightarrow> clip 32 x), r_amount = (case am of None \<Rightarrow> [] | Some x \<Rightarrow> clip 16 x),
      r_merchant_id = (case mid of None \<Rightarrow> [] | Some x \<Rightarrow> clip 32 x), attempts = 0, next_at = time_src s (time_calls s),
      r_next = None\<rparr>"
    let ?r = "r\<lparr>g_tasks := (g_tasks r)(?a \<mapsto> k)\<rparr>"
    obtain r' where q: "queue_push ?a ?r = Some r'"
      using queue_push_chain [OF rev_chain_heap [OF as fresh] fresh, of "Some k" k] by auto
    note p = push_inv [OF as fresh q]
    let ?s = "logj ''WARN'' ''reversal'' tid ''Reversal enqueued'' (with_metrics metrics_inc_reversal_enqueued
      (s\<lparr>allocs := Suc ?a, time_calls := Suc (time_calls s)\<rparr>))"
    have e: "reversal_enqueue tid pm am mid r s = Some (0, r', ?s)"
      using t q by (simp add: reversal_enqueue_def malloc_def time_null_def k_def)
    have "rev_ready r' ?s"
      using p assms by (auto simp: rev_ready_def logj_def emit_def with_metrics_def)
    moreover have "within {} plain s ?s"
      by (auto intro!: withinI grows_basic grows_counters intro: grows_same [OF grows_refl])
    ultimately show ?thesis using e by blast
  next
    case False
    have "reversal_enqueue tid pm am mid r s = Some (- 1, r, s) \<or>
      reversal_enqueue tid pm am mid r s = Some (- 1, r, s\<lparr>allocs := Suc ?a\<rparr>)"
      using False by (auto simp: reversal_enqueue_def malloc_def split: option.splits list.splits)
    moreover have "rev_ready r (s\<lparr>allocs := Suc ?a\<rparr>)" using assms by (simp add: rev_ready_def)
    moreover have "within {} plain s (s\<lparr>allocs := Suc ?a\<rparr>)" by (intro within_step within_refl)
    ultimately show ?thesis using assms within_refl by blast
  qed
qed

subsection \<open>The accounts of a request\<close>

definition effect :: "event list \<Rightarrow> ulong \<Rightarrow> ulong \<Rightarrow> ulong \<Rightarrow> 'a sys_scheme \<Rightarrow> 'a sys_scheme \<Rightarrow> bool" where
  \<comment> \<open>what was written to the client, and by how much the counters of approved, declined and
      risk-declined requests grew\<close>
  "effect ws a d rd s s' \<longleftrightarrow>
     (\<exists>es. trace s' = trace s @ es \<and> filter is_write es = ws) \<and> g_total (metrics s') = g_total (metrics s) \<and>
     g_approved (metrics s') = g_approved (metrics s) + a \<and> g_declined (metrics s') = g_declined (metrics s) + d \<and>
     g_risk_declined (metrics s') = g_risk_declined (metrics s) + rd \<and>
     g_server_busy (metrics s') = g_server_busy (metrics s) \<and> allocs s \<le> allocs s'"

lemma effect_silent: "grows silent s s' \<Longrightarrow> effect [] 0 0 0 s s'"
  unfolding grows_def effect_def tallies_def silent_def by (auto simp: list_all_iff filter_empty_conv)

lemma effect_trans:
  assumes "effect ws a d rd s t" and "effect ws' a' d' rd' t u"
  shows "effect (ws @ ws') (a + a') (d + d') (rd + rd') s u"
  using assms unfolding effect_def by (auto simp: algebra_simps)

lemma effect_after: "effect ws a d rd s t \<Longrightarrow> grows silent t u \<Longrightarrow> effect ws a d rd s u"
  using effect_trans [OF _ effect_silent, of ws a d rd s t u] by simp

lemma effect_before: "grows silent s t \<Longrightarrow> effect ws a d rd t u \<Longrightarrow> effect ws a d rd s u"
  using effect_trans [OF effect_silent, of s t ws a d rd u] by simp

lemma effect_basic:
  "effect ws a d rd s t \<Longrightarrow> effect ws a d rd s (logj l e r m t)"
  "effect ws a d rd s t \<Longrightarrow> effect ws a d rd s (emit (Log l e' r' m' n) t)"
  "effect ws a d rd s t \<Longrightarrow> effect (ws @ [Write b]) a d rd s (emit (Write b) t)"
  "effect ws a d rd s t \<Longrightarrow> effect ws (a + 1) d rd s (with_metrics metrics_inc_approved t)"
  "effect ws a d rd s t \<Longrightarrow> effect ws a (d + 1) rd s (with_metrics metrics_inc_declined t)"
  "effect ws a d rd s t \<Longrightarrow> effect ws a d (rd + 1) s (with_metrics metrics_inc_risk_declined t)"
  unfolding effect_def by (auto simp: emit_def logj_def with_metrics_def metrics_inc_defs algebra_simps)

lemma effect_refl: "effect [] 0 0 0 s s"
  by (simp add: effect_def)

definition idle :: "'g world \<Rightarrow> bool" where
  \<comment> \<open>between two requests: no transaction, no context beyond the addresses in use, a well-formed queue of reversals\<close>
  "idle w \<longleftrightarrow> empty_table (w_coord w) \<and> fresh_ctxs (w_sys w) \<and> rev_ready (w_rev w) (w_sys w)"

definition same_ctxs :: "'g dsys \<Rightarrow> 'g dsys \<Rightarrow> bool" where
  \<comment> \<open>the contexts are as before, and the thread has opened at most its own connection\<close>
  "same_ctxs s s' \<longleftrightarrow> db_ctxs s' = db_ctxs s \<and> clearing_ctxs s' = clearing_ctxs s \<and> keeps_conns s s'"

definition processing ::
    "'g pq \<Rightarrow> nat \<Rightarrow> 'g dsys transaction \<Rightarrow> nat \<Rightarrow> nat \<Rightarrow> 'g dsys \<Rightarrow> 'g world \<Rightarrow> bool" where
  \<comment> \<open>inside a request that started in \<open>s0\<close>: the transaction \<open>t\<close> at \<open>p\<close> and the contexts \<open>a\<close> and \<open>b\<close> are its only traces\<close>
  "processing pq p t a b s0 w \<longleftrightarrow>
     holding p t (w_coord w) \<and> (\<forall>q \<in> set (participants t). payment_participant pq a b q) \<and>
     contexts_live a b (w_sys w) \<and> fresh_ctxs (w_sys w) \<and> rev_ready (w_rev w) (w_sys w) \<and>
     db_ctxs s0 a = None \<and> clearing_ctxs s0 b = None \<and>
     (\<forall>x. x \<noteq> a \<longrightarrow> db_ctxs (w_sys w) x = db_ctxs s0 x) \<and>
     (\<forall>x. x \<noteq> b \<longrightarrow> clearing_ctxs (w_sys w) x = clearing_ctxs s0 x) \<and> keeps_conns s0 (w_sys w)"

lemma within_allocs: "within X P s s' \<Longrightarrow> allocs s \<le> allocs s'"
  by (simp add: within_def grows_def)

lemma processing_within:
  assumes "processing pq p t a b s0 w" and "within {a, b} P (w_sys w) s'" and "holding p u c"
    and "\<forall>q \<in> set (participants u). payment_participant pq a b q"
  shows "processing pq p u a b s0 (w\<lparr>w_coord := c, w_sys := s'\<rparr>)"
proof -
  note pr = assms(1) [unfolded processing_def]
  have live: "contexts_live a b s'" using pr assms(2) by (auto simp: contexts_live_def within_def)
  have "db_ctxs s' x = db_ctxs s0 x" if "x \<noteq> a" for x
    using pr assms(2) that live by (cases "x = b") (auto simp: within_def contexts_live_def)
  moreover have "clearing_ctxs s' x = clearing_ctxs s0 x" if "x \<noteq> b" for x
    using pr assms(2) that live by (cases "x = a") (auto simp: within_def contexts_live_def)
  moreover have "rev_ready (w_rev w) s'" using pr assms(2) rev_ready_grows unfolding within_def by blast
  moreover have "keeps_conns s0 s'" using pr assms(2) by (auto simp: within_def intro: keeps_conns_trans)
  ultimately show ?thesis
    using pr live assms(3,4) fresh_ctxs_within [OF _ assms(2)] by (simp add: processing_def)
qed

lemma processing_sys:
  assumes "processing pq p t a b s0 w" and "within {a, b} P (w_sys w) s'"
  shows "processing pq p t a b s0 (w\<lparr>w_sys := s'\<rparr>)"
  using processing_within [OF assms, of t "w_coord w"] assms(1) by (simp add: processing_def)

lemma processing_end:
  assumes "processing pq p t a b s0 w" and "freed (Some a) (Some b) (w_sys w) s'" and "grows silent (w_sys w) s'"
    and "empty_table c"
  shows "same_ctxs s0 s'" and "idle (w\<lparr>w_coord := c, w_sys := s'\<rparr>)"
proof -
  note pr = assms(1) [unfolded processing_def]
  show "same_ctxs s0 s'"
    unfolding same_ctxs_def
  proof (intro conjI)
    show "db_ctxs s' = db_ctxs s0" using pr assms(2) by (intro ext) (auto simp: freed_def)
    show "clearing_ctxs s' = clearing_ctxs s0" using pr assms(2) by (intro ext) (auto simp: freed_def)
    show "keeps_conns s0 s'" using pr assms(2) by (auto simp: freed_def intro: keeps_conns_trans)
  qed
  have "fresh_ctxs s'"
    using pr assms(2,3) by (auto simp: fresh_ctxs_def freed_def grows_def)
  moreover have "rev_ready (w_rev w) s'" using pr assms(3) rev_ready_grows by blast
  ultimately show "idle (w\<lparr>w_coord := c, w_sys := s'\<rparr>)" using assms(4) by (simp add: idle_def)
qed

lemma processing_release:
  assumes "processing pq p t a b s0 w"
  shows "\<exists>c s. release pq (Some a) (Some b) p w = w\<lparr>w_coord := c, w_sys := s\<rparr> \<and>
    idle (w\<lparr>w_coord := c, w_sys := s\<rparr>) \<and> same_ctxs s0 s \<and> grows silent (w_sys w) s"
proof -
  note pr = assms [unfolded processing_def]
  obtain c s where r: "release pq (Some a) (Some b) p w = w\<lparr>w_coord := c, w_sys := s\<rparr>" "empty_table c"
    "grows silent (w_sys w) s" "freed (Some a) (Some b) (w_sys w) s"
    using release_spec [of p t w "Some a" "Some b" pq] pr by (auto simp: contexts_live_def)
  from processing_end [OF assms r(4,3,2)] r show ?thesis by blast
qed

lemma processing_commit:
  assumes "processing pq p t a b s0 w" and "txn_commit (Some p) (w_coord w) (w_sys w) = (r, c, s)"
  shows "idle (w\<lparr>w_coord := c, w_sys := destroy_both pq a b s\<rparr>)" and "same_ctxs s0 (destroy_both pq a b s)"
    and "grows silent (w_sys w) (destroy_both pq a b s)"
    and "calls (trace (destroy_both pq a b s)) = calls (trace s)"
proof -
  note pr = assms(1) [unfolded processing_def]
  have h: "holding p t (w_coord w)" "tx_heap (w_coord w) p = Some t" using pr holding_heap by auto
  have w: "within {a, b} silent (w_sys w) s" using within_txn_commit [OF h(2) _ assms(2)] pr by blast
  have live: "contexts_live a b s" using pr w by (auto simp: contexts_live_def within_def)
  note d = destroy_freed [of "Some a" s "Some b" pq, folded destroy_both_def]
  have df: "freed (Some a) (Some b) s (destroy_both pq a b s)" and dg: "grows plain s (destroy_both pq a b s)"
    using d live by (auto simp: contexts_live_def)
  have e: "empty_table c" using retired_empty [OF h(1) txn_commit_retired [OF h(2) assms(2)]] .
  note pr2 = processing_sys [OF assms(1) w]
  have "freed (Some a) (Some b) (w_sys (w\<lparr>w_sys := s\<rparr>)) (destroy_both pq a b s)"
    "grows silent (w_sys (w\<lparr>w_sys := s\<rparr>)) (destroy_both pq a b s)"
    using df dg grows_silent by simp_all
  from processing_end [OF pr2 this e]
  show "idle (w\<lparr>w_coord := c, w_sys := destroy_both pq a b s\<rparr>)" "same_ctxs s0 (destroy_both pq a b s)" by simp_all
  show "grows silent (w_sys w) (destroy_both pq a b s)"
    using w dg grows_silent grows_trans unfolding within_def by blast
  show "calls (trace (destroy_both pq a b s)) = calls (trace s)"
    using dg by (rule grows_calls)
qed


subsection \<open>From the registration to the commit\<close>

lemma within_begin:
  assumes "contexts_live a b s" and "db_participant_begin pq (Some a) (Some tid) s = (r, s')"
  shows "within {a, b} plain s s'"
proof -
  obtain c where c: "db_ctxs s a = Some c" using assms(1) by (auto simp: contexts_live_def)
  have "grows plain s s'" using grows_db_participant(2) [of s pq "Some a" "Some tid"] assms(2) by simp
  with db_begin_spec [OF c assms(2)] c show ?thesis by (auto simp: within_def same_db_rest_def intro!: keeps_conns_same)
qed

lemma within_set_transaction:
  assumes "contexts_live a b s"
    and "clearing_participant_set_transaction (Some b) (Some tid) (Some pm) (Some am) (Some mid) s = (r, s')"
  shows "within {a, b} plain s s'" and "r = 0"
proof -
  obtain c where c: "clearing_ctxs s b = Some c" using assms(1) by (auto simp: contexts_live_def)
  note sp = clearing_set_spec [OF c assms(2)]
  have "grows plain s s'"
    using grows_cl_rest(2) [of s "Some b" "Some tid" "Some pm" "Some am" "Some mid"] assms(2) by simp
  moreover have "db_ctxs s' = db_ctxs s" using sp(5) by (rule db_fields_more)
  ultimately show "within {a, b} plain s s'" using sp(1) c keeps_conns_grows [OF _ db_fields_more(4,2) [OF sp(5)]] by (auto simp: within_def)
  show "r = 0" by (rule sp(6))
qed

lemma insert_ctxs:
  "db_ctxs (snd (snd (snd (db_participant_insert_transaction pq x rid pn amt st dup out sz s)))) = db_ctxs s"
  "clearing_ctxs (snd (snd (snd (db_participant_insert_transaction pq x rid pn amt st dup out sz s)))) = clearing_ctxs s"
  "db_tls (snd (snd (snd (db_participant_insert_transaction pq x rid pn amt st dup out sz s)))) = db_tls s"
  "db_conns (snd (snd (snd (db_participant_insert_transaction pq x rid pn amt st dup out sz s)))) = db_conns s"
  by (auto simp: db_participant_insert_transaction_def db_insert_or_get_by_reqid_def db_insert_transaction_def
      PQexecParams_def Let_def case_prod_beta db_fault_def dlog_def split: option.splits list.splits)

lemma within_insert:
  assumes "db_participant_insert_transaction pq x rid pn amt st dup out sz s = (r, u, v, s')"
  shows "within X plain s s'"
  using assms grows_db_participant(6) [of s pq x rid pn amt st dup out sz]
    insert_ctxs [of pq x rid pn amt st dup out sz s] by (simp add: withinI)

subsection \<open>The trace does not matter\<close>

fun shown :: "event \<Rightarrow> bool" where
  \<comment> \<open>what the two copies of the pipeline do differently: the responses and the log lines\<close>
  "shown (Write b) = True"
| "shown (Log l e r m n) = True"
| "shown _ = False"

definition erase :: "'a sys_scheme \<Rightarrow> 'a sys_scheme" where
  "erase s = s\<lparr>trace := filter (\<lambda>e. \<not> shown e) (trace s)\<rparr>"

lemma erase_idem [simp]: "erase (erase s) = erase s"
  by (simp add: erase_def)

lemma erase_emit: "erase (emit e s) = (if shown e then erase s else emit e (erase s))"
  by (simp add: erase_def emit_def)

lemma erase_emit_erase [simp]: "erase (emit e (erase s)) = erase (emit e s)"
  by (simp add: erase_emit)

lemma erase_logs [simp]: "erase (logj l e r m s) = erase s" "erase (dlog l t m s) = erase s" "erase (clog2 l t' m s) = erase s"
  by (simp_all add: logj_def dlog_def clog2_def erase_emit)

lemma erase_updates [simp]:
  "erase (s\<lparr>db_ctxs := f\<rparr>) = (erase s)\<lparr>db_ctxs := f\<rparr>" "erase (s'\<lparr>clearing_ctxs := g\<rparr>) = (erase s')\<lparr>clearing_ctxs := g\<rparr>"
  "erase (with_metrics h s'') = with_metrics h (erase s'')"
  "erase (db_fault k a s) = db_fault k a (erase s)" "erase (cl_fault a s') = cl_fault a (erase s')"
  "erase (put_db_ctx a c s) = put_db_ctx a c (erase s)"
  by (simp_all add: erase_def with_metrics_def db_fault_def cl_fault_def put_db_ctx_def emit_def)

definition alike :: "'a sys_scheme \<Rightarrow> 'a sys_scheme \<Rightarrow> bool" where
  "alike s t \<longleftrightarrow> erase s = erase t"

lemma alike_refl [simp]: "alike s s"
  by (simp add: alike_def)

lemma alike_trace:
  "alike s t \<Longrightarrow> \<exists>es. t = s\<lparr>trace := es\<rparr> \<and> filter (\<lambda>e. \<not> shown e) es = filter (\<lambda>e. \<not> shown e) (trace s)"
  by (cases s; cases t) (simp add: alike_def erase_def)

lemma alike_fields:
  "alike s t \<Longrightarrow> db_ctxs t = db_ctxs s" "alike s t \<Longrightarrow> clearing_ctxs t = clearing_ctxs s"
  "alike s t \<Longrightarrow> metrics t = metrics s"
  for s :: "('g, 'a) dsys_scheme"
  by (drule alike_trace; auto)+

lemma alike_clearing_ctxs: "alike s t \<Longrightarrow> clearing_ctxs t = clearing_ctxs s"
  by (drule alike_trace; auto)

lemma alike_logj: "alike s t \<Longrightarrow> alike (logj l e r m s) (logj l' e' r' m' t)"
  by (simp add: alike_def)

lemma alike_log_state: "alike s t \<Longrightarrow> alike (log_transaction_state c tx a s) (log_transaction_state c tx a t)"
  by (drule alike_trace) (auto simp: alike_def log_transaction_state_def time_null_def erase_def emit_def Let_def)

lemma alike_PQexec:
  assumes "alike s t"
  shows "fst (PQexec pq c cmd t) = fst (PQexec pq c cmd s)" "alike (snd (PQexec pq c cmd s)) (snd (PQexec pq c cmd t))"
  using alike_trace [OF assms]
  by (auto simp: PQexec_def alike_def erase_def emit_def Let_def split: prod.split)

lemma alike_steps:
  "alike s t \<Longrightarrow> alike (dlog l i m s) (dlog l' i' m' t)" "alike s t \<Longrightarrow> alike (put_db_ctx a c s) (put_db_ctx a c t)"
  "alike s t \<Longrightarrow> alike (db_fault k a s) (db_fault k a t)" "alike s t \<Longrightarrow> f = g \<Longrightarrow> alike (s\<lparr>db_ctxs := f\<rparr>) (t\<lparr>db_ctxs := g\<rparr>)"
  by (simp_all add: alike_def)

lemma alike_cl_steps:
  "alike s t \<Longrightarrow> alike (clog2 l i m s) (clog2 l' i' m' t)"
  "alike s t \<Longrightarrow> alike (cl_fault a s) (cl_fault a t)" "alike s t \<Longrightarrow> f = g \<Longrightarrow> alike (s\<lparr>clearing_ctxs := f\<rparr>) (t\<lparr>clearing_ctxs := g\<rparr>)"
  by (simp_all add: alike_def)

lemma alike_db_abort:
  assumes "alike s t"
  shows "fst (db_participant_abort pq x tid t) = fst (db_participant_abort pq x tid s)"
    and "alike (snd (db_participant_abort pq x tid s)) (snd (db_participant_abort pq x tid t))"
  using assms alike_fields [OF assms] alike_PQexec [OF assms, of pq]
  by (auto simp: db_participant_abort_def Let_def case_prod_beta intro!: alike_steps split: option.split)

lemma alike_db_destroy:
  assumes "alike s t"
  shows "alike (db_participant_destroy pq x s) (db_participant_destroy pq x t)"
  using assms alike_fields [OF assms] alike_db_abort(2) [OF assms, of pq] alike_fields(1) [OF alike_db_abort(2) [OF assms, of pq]]
  by (auto simp: db_participant_destroy_def Let_def intro!: alike_steps split: option.split)

lemma alike_rand: "alike s t \<Longrightarrow> fst (c_rand t) = fst (c_rand s) \<and> alike (snd (c_rand s)) (snd (c_rand t))"
  by (drule alike_trace) (auto simp: c_rand_def alike_def erase_def)

lemma alike_emit: "alike s t \<Longrightarrow> alike (emit e s) (emit e t)"
  by (simp add: alike_def erase_emit)

lemma alike_simulate:
  assumes "alike s t"
  shows "\<exists>r resp' s' t'. simulate_clearing_request u m p resp n to s = (r, resp', s') \<and>
    simulate_clearing_request u m p resp n to t = (r, resp', t') \<and> alike s' t'"
proof -
  let ?d = "fst (c_rand s)"
  let ?u = "\<lambda>s. emit (Usleep (50000 + ?d mod 100000)) (snd (c_rand s))"
  note a = alike_rand [OF assms]
  have u: "alike (?u s) (?u t)" using a by (simp add: alike_emit)
  note b = alike_rand [OF u]
  have v: "alike (snd (c_rand (?u s))) (snd (c_rand (?u t)))" using b by simp
  note c = alike_rand [OF v]
  show ?thesis
    unfolding simulate_clearing_request_def Let_def case_prod_beta
    using a b c alike_emit [OF v] alike_emit [OF conjunct2 [OF c]] by simp
qed

lemma alike_cl_abort:
  assumes "alike s t"
  shows "fst (clearing_participant_abort x tid t) = fst (clearing_participant_abort x tid s)"
    and "alike (snd (clearing_participant_abort x tid s)) (snd (clearing_participant_abort x tid t))"
proof -
  have "fst (clearing_participant_abort (Some b) (Some i) t) = fst (clearing_participant_abort (Some b) (Some i) s) \<and>
    alike (snd (clearing_participant_abort (Some b) (Some i) s)) (snd (clearing_participant_abort (Some b) (Some i) t))" for b i
  proof (cases "clearing_ctxs s b")
    case None
    then show ?thesis using assms alike_clearing_ctxs [OF assms] by (simp add: clearing_participant_abort_def alike_cl_steps)
  next
    case (Some k)
    let ?l = "\<lambda>s. if \<not> has_hold k \<or> cl_txn_id k \<noteq> i then clog2 ''INFO'' i ''No local hold; sending idempotent abort'' s else s"
    have "alike (?l s) (?l t)" using assms by (simp add: alike_cl_steps)
    from alike_simulate [OF this]
    obtain r resp s' t' where e: "simulate_clearing_request (service_url k) ''POST'' (clearing_payload ''abort'' i k) [] 256 (timeout_seconds k) (?l s) = (r, resp, s')"
      "simulate_clearing_request (service_url k) ''POST'' (clearing_payload ''abort'' i k) [] 256 (timeout_seconds k) (?l t) = (r, resp, t')" "alike s' t'"
      by blast
    then show ?thesis
      using Some assms alike_clearing_ctxs [OF assms] alike_clearing_ctxs [OF e(3)]
      by (auto simp: clearing_participant_abort_def Let_def intro!: alike_cl_steps)
  qed
  then show "fst (clearing_participant_abort x tid t) = fst (clearing_participant_abort x tid s)"
    and "alike (snd (clearing_participant_abort x tid s)) (snd (clearing_participant_abort x tid t))"
    using assms by (cases x; cases tid; simp add: clearing_participant_abort_def [of None] clearing_participant_abort_def [of _ None])+
qed

lemma alike_cl_destroy:
  assumes "alike s t"
  shows "alike (clearing_participant_destroy x s) (clearing_participant_destroy x t)"
  using assms alike_clearing_ctxs [OF assms] alike_cl_abort(2) [OF assms] alike_clearing_ctxs [OF alike_cl_abort(2) [OF assms]]
  by (auto simp: clearing_participant_destroy_def Let_def intro!: alike_cl_steps split: option.split)

definition trace_blind :: "'a sys_scheme cbfun \<Rightarrow> bool" where
  \<comment> \<open>a callback that does not look at the trace\<close>
  "trace_blind f \<longleftrightarrow> (\<forall>x tid s t. alike s t \<longrightarrow> fst (f x tid t) = fst (f x tid s) \<and> alike (snd (f x tid s)) (snd (f x tid t)))"

lemma abort_fn_blind: "payment_participant pq a b p \<Longrightarrow> trace_blind (abort_fn p)"
  unfolding trace_blind_def payment_participant_def db_participant_at_def cl_participant_at_def
  by (auto simp: db_abort_cb_def cl_abort_cb_def alike_db_abort alike_cl_abort)

lemma alike_call:
  assumes "trace_blind (abort_fn p)" "alike s t"
  shows "alike (snd (call_cb Abort p tid s)) (snd (call_cb Abort p tid t))"
proof -
  have "fst (abort_fn p (pcontext p) tid t) = fst (abort_fn p (pcontext p) tid s)"
    "alike (snd (abort_fn p (pcontext p) tid s)) (snd (abort_fn p (pcontext p) tid t))"
    using assms unfolding trace_blind_def by blast+
  then show ?thesis by (simp add: call_cb_def Let_def case_prod_beta alike_def erase_emit)
qed

lemma alike_abort_all:
  assumes "\<forall>p \<in> set ps. trace_blind (abort_fn p)" "alike s t"
  shows "fst (abort_all_loop tid ps t) = fst (abort_all_loop tid ps s) \<and>
    alike (snd (abort_all_loop tid ps s)) (snd (abort_all_loop tid ps t))"
  using assms
proof (induction ps arbitrary: s t)
  case (Cons p ps)
  then show ?case using alike_call [of p s t tid] by (simp add: case_prod_beta)
qed simp

lemma alike_txn_abort:
  assumes "alike s t" "\<And>tx. tx_heap c p = Some tx \<Longrightarrow> \<forall>q \<in> set (participants tx). trace_blind (abort_fn q)"
  shows "fst (txn_abort (Some p) c t) = fst (txn_abort (Some p) c s) \<and> alike (snd (txn_abort (Some p) c s)) (snd (txn_abort (Some p) c t))"
proof (cases "tx_heap c p")
  case None
  with assms(1) show ?thesis by (simp add: txn_abort_def alike_def erase_emit)
next
  case (Some tx)
  let ?f = "\<lambda>s. clog ''INFO'' (Some (transaction_id tx)) ''Explicitly aborting transaction''
    (log_transaction_state c (tx\<lparr>tstate := TXN_ABORTING\<rparr>) ''ABORT_EXPLICIT'' s)"
  have "alike (?f s) (?f t)" using assms(1) by (intro alike_logj alike_log_state)
  from alike_abort_all [OF assms(2) [OF Some] this, of "transaction_id tx"] show ?thesis
    by (auto simp: txn_abort_def Some Let_def case_prod_beta intro!: alike_log_state)
qed

lemma alike_release:
  assumes "alike (w_sys v) (w_sys w)" "w_coord v = w_coord w" "holding p t (w_coord w)"
    and "\<forall>q \<in> set (participants t). payment_participant pq a b q"
  shows "w_coord (release pq d k p v) = w_coord (release pq d k p w) \<and> alike (w_sys (release pq d k p v)) (w_sys (release pq d k p w))"
proof -
  have "alike (clearing_participant_destroy k (db_participant_destroy pq d (w_sys v)))
    (clearing_participant_destroy k (db_participant_destroy pq d (w_sys w)))"
    using assms(1) by (intro alike_cl_destroy alike_db_destroy)
  moreover have "\<forall>q \<in> set (participants tx). trace_blind (abort_fn q)" if "tx_heap (w_coord w) p = Some tx" for tx
    using that assms(3,4) by (auto simp: holding_def intro: abort_fn_blind [of pq a b])
  ultimately show ?thesis
    using alike_txn_abort [of _ _ "w_coord w" p] assms(2)
    by (simp add: release_def Let_def case_prod_beta)
qed

definition agree :: "'g world \<Rightarrow> 'g world \<Rightarrow> bool" where
  \<comment> \<open>the same coordinator, velocity table, reversal queue and process state, all counters, contexts and connections
      included, and the same events but for responses and log lines\<close>
  "agree v w \<longleftrightarrow> w_coord v = w_coord w \<and> w_risk v = w_risk w \<and> w_rev v = w_rev w \<and> alike (w_sys v) (w_sys w)"

lemma agree_decline: "agree (decline r l rid w) (count_declined w)"
  by (simp add: agree_def decline_def count_declined_def on_sys_def alike_def erase_emit)

lemma release_rest [simp]: "w_risk (release pq d k p w) = w_risk w" "w_rev (release pq d k p w) = w_rev w"
  by (simp_all add: release_def Let_def case_prod_beta)

lemma agree_release:
  assumes "agree v w" "holding p t (w_coord w)" "\<forall>q \<in> set (participants t). payment_participant pq a b q"
  shows "agree (release pq d k p v) (release pq d k p w)"
  using alike_release [OF _ _ assms(2,3), of v] assms(1) by (simp add: agree_def)

definition committed_calls :: "string \<Rightarrow> event list" where
  "committed_calls tid = [Call ''database'' tid Prepare 0, Call ''clearing'' tid Prepare 0,
     Call ''database'' tid Commit 0, Call ''clearing'' tid Commit 0]"

definition reply_ok :: "reply \<Rightarrow> bool" where
  \<comment> \<open>a status line the handler knows, and a body that fits its buffer\<close>
  "reply_ok rep \<longleftrightarrow> (case rep of (code, why, b) \<Rightarrow>
     (code, why) \<in> {(200, ''OK''), (400, ''Bad Request''), (402, ''Payment Required''),
        (500, ''Internal Server Error''), (502, ''Bad Gateway'')} \<and> b \<noteq> [] \<and> length b < 512)"

lemma reply_ok_bodies:
  "length r \<le> 64 \<Longrightarrow> reply_ok (500, ''Internal Server Error'', declined_body r)"
  "length r \<le> 64 \<Longrightarrow> reply_ok (400, ''Bad Request'', declined_body r)"
  "length r \<le> 64 \<Longrightarrow> reply_ok (402, ''Payment Required'', declined_body r)"
  "length tid < 64 \<Longrightarrow> reply_ok (200, ''OK'', approved_body dup tid)"
  by (simp_all add: reply_ok_def declined_body_def approved_body_def)

definition settles :: "string \<Rightarrow> 'g dsys \<Rightarrow> 'g world \<Rightarrow> 'g world option \<Rightarrow> (reply \<times> 'g world) option \<Rightarrow> bool" where
  \<comment> \<open>the two pipelines, run from the same \<open>w\<close>, return, end idle and agree\<close>
  "settles tid s0 w r1 r2 \<longleftrightarrow>
     (\<exists>w1 code why b w2 A D. r1 = Some w1 \<and> r2 = Some ((code, why, b), w2) \<and>
        idle w1 \<and> idle w2 \<and> same_ctxs s0 (w_sys w1) \<and> same_ctxs s0 (w_sys w2) \<and>
        w_risk w1 = w_risk w \<and> agree w1 w2 \<and>
        effect [Write b] A D 0 (w_sys w) (w_sys w1) \<and> effect [] A D 0 (w_sys w) (w_sys w2) \<and>
        reply_ok (code, why, b) \<and>
        (A = 1 \<and> D = 0 \<and> code = 200 \<and> (\<exists>dup. b = approved_body dup tid) \<and>
           calls (trace (w_sys w1)) = calls (trace (w_sys w)) @ committed_calls tid \<and>
           calls (trace (w_sys w2)) = calls (trace (w_sys w)) @ committed_calls tid \<or>
         A = 0 \<and> D = 1 \<and> code \<noteq> 200 \<and> (\<exists>r. b = declined_body r)))"

lemma settles_declined:
  assumes "r1 = Some w1" "r2 = Some ((code, why, declined_body r), w2)" "idle w1" "idle w2"
    "same_ctxs s0 (w_sys w1)" "same_ctxs s0 (w_sys w2)" "w_risk w1 = w_risk w" "agree w1 w2"
    "effect [Write (declined_body r)] 0 1 0 (w_sys w) (w_sys w1)" "effect [] 0 1 0 (w_sys w) (w_sys w2)" "code \<noteq> 200"
    "reply_ok (code, why, declined_body r)"
  shows "settles tid s0 w r1 r2"
  using assms unfolding settles_def by metis

lemma settles_approved:
  assumes "r1 = Some w1" "r2 = Some ((200, why, approved_body dup tid), w2)" "idle w1" "idle w2"
    "same_ctxs s0 (w_sys w1)" "same_ctxs s0 (w_sys w2)" "w_risk w1 = w_risk w" "agree w1 w2"
    "effect [Write (approved_body dup tid)] 1 0 0 (w_sys w) (w_sys w1)" "effect [] 1 0 0 (w_sys w) (w_sys w2)"
    "calls (trace (w_sys w1)) = calls (trace (w_sys w)) @ committed_calls tid"
    "calls (trace (w_sys w2)) = calls (trace (w_sys w)) @ committed_calls tid"
    "reply_ok (200, why, approved_body dup tid)"
  shows "settles tid s0 w r1 r2"
  using assms unfolding settles_def by metis

lemma settles_before:
  assumes "settles tid s0 v r1 r2" and "grows plain (w_sys w) (w_sys v)" and "w_risk v = w_risk w"
  shows "settles tid s0 w r1 r2"
proof -
  have c: "calls (trace (w_sys v)) = calls (trace (w_sys w))"
    using assms(2) by (rule grows_calls)
  from assms(1) effect_before [OF grows_silent [OF assms(2)]] show ?thesis
    unfolding settles_def c assms(3) by metis
qed

lemma clip_bodies:
  "length tid < 64 \<Longrightarrow> clip 256 (approved_body dup tid) = approved_body dup tid"
  "length tid < 64 \<Longrightarrow> clip 512 (approved_body dup tid) = approved_body dup tid"
  "length r \<le> 64 \<Longrightarrow> clip 512 (declined_body r) = declined_body r"
  by (rule clip_id; simp add: approved_body_def declined_body_def)+

lemma effect_decline: "effect [Write (declined_body r)] 0 1 0 (w_sys w) (w_sys (decline r l rid w))"
  unfolding decline_def on_sys_def
  using effect_basic(5) [OF effect_basic(3) [OF effect_refl], of "declined_body r" "w_sys w"]
  by (simp add: effect_basic(1))

lemma effect_count_declined: "effect [] 0 1 0 (w_sys w) (w_sys (count_declined w))"
  unfolding count_declined_def on_sys_def using effect_basic(5) [OF effect_refl, of "w_sys w"] by simp

lemma decline_world [simp]:
  "w_risk (decline r l rid w) = w_risk w" "w_rev (decline r l rid w) = w_rev w" "w_coord (decline r l rid w) = w_coord w"
  "w_risk (count_declined w) = w_risk w" "w_rev (count_declined w) = w_rev w" "w_coord (count_declined w) = w_coord w"
  "db_ctxs (w_sys (decline r l rid w)) = db_ctxs (w_sys w)" "clearing_ctxs (w_sys (decline r l rid w)) = clearing_ctxs (w_sys w)"
  "db_ctxs (w_sys (count_declined w)) = db_ctxs (w_sys w)" "clearing_ctxs (w_sys (count_declined w)) = clearing_ctxs (w_sys w)"
  "db_tls (w_sys (decline r l rid w)) = db_tls (w_sys w)" "db_tls (w_sys (count_declined w)) = db_tls (w_sys w)"
  "db_conns (w_sys (decline r l rid w)) = db_conns (w_sys w)" "db_conns (w_sys (count_declined w)) = db_conns (w_sys w)"
  "allocs (w_sys (decline r l rid w)) = allocs (w_sys w)" "allocs (w_sys (count_declined w)) = allocs (w_sys w)"
  by (simp_all add: decline_def count_declined_def on_sys_def allocs_sys)

lemma keeps_conns_decline [simp]:
  "keeps_conns s (w_sys (decline r l rid w)) = keeps_conns s (w_sys w)" "keeps_conns s (w_sys (count_declined w)) = keeps_conns s (w_sys w)"
  by (simp_all add: keeps_conns_def)

lemma processing_cong:
  assumes "w_coord v = w_coord w" "w_rev v = w_rev w" "db_ctxs (w_sys v) = db_ctxs (w_sys w)"
    "clearing_ctxs (w_sys v) = clearing_ctxs (w_sys w)" "allocs (w_sys v) = allocs (w_sys w)"
    "db_tls (w_sys v) = db_tls (w_sys w)" "db_conns (w_sys v) = db_conns (w_sys w)"
  shows "processing pq p t a b s0 v = processing pq p t a b s0 w" and "idle v = idle w"
  using assms by (simp_all add: processing_def contexts_live_def fresh_ctxs_def rev_ready_def idle_def keeps_conns_def)

lemma settles_fail:
  assumes "processing pq p t a b s0 w" and "code \<noteq> 200" and "reply_ok (code, why, declined_body r)"
  shows "settles tid s0 w (Some (release pq (Some a) (Some b) p (decline r l rid w)))
    (Some ((code, why, declined_body r), release pq (Some a) (Some b) p (count_declined w)))"
proof -
  have p: "processing pq p t a b s0 (decline r l rid w)" "processing pq p t a b s0 (count_declined w)"
    using assms(1) processing_cong(1) [of "decline r l rid w" w] processing_cong(1) [of "count_declined w" w] by simp_all
  have ag: "agree (release pq (Some a) (Some b) p (decline r l rid w)) (release pq (Some a) (Some b) p (count_declined w))"
    by (rule agree_release [OF agree_decline]) (use p(2) in \<open>auto simp: processing_def\<close>)
  from processing_release [OF p(1)] processing_release [OF p(2)]
  show ?thesis
    using assms(2,3) effect_after [OF effect_decline] effect_after [OF effect_count_declined] ag
    by (auto intro!: settles_declined [OF refl refl])
qed

lemma idle_within:
  assumes "idle w" and "within {} P (w_sys w) s" and "rev_ready r s"
  shows "idle (w\<lparr>w_rev := r, w_sys := s\<rparr>)"
  using assms fresh_ctxs_within [OF _ assms(2)] by (simp add: idle_def)

lemma commit_settles:
  assumes "processing pq p t a b s0 w" and "payment_txn pq a b t" and "transaction_id t = tid" and "length tid < 64"
  shows "settles tid s0 w (line_commit pq req masked tid p a b dup t0 w) (body_commit pq req masked tid p a b dup w)"
proof -
  obtain r c s where cm: "txn_commit (Some p) (w_coord w) (w_sys w) = (r, c, s)" by (metis prod_cases3)
  let ?s = "destroy_both pq a b s" and ?w = "w\<lparr>w_coord := c, w_sys := destroy_both pq a b s\<rparr>"
  note pc = processing_commit [OF assms(1) cm]
  note bodies = clip_bodies(1,2) [OF assms(4)]
  have h: "tx_heap (w_coord w) p = Some t" using assms(1) by (simp add: processing_def holding_def)
  show ?thesis
  proof (cases "r = 0")
    case True
    obtain p1 p2 c1 c2 a1 a2 where
      "calls (trace s) = calls (trace (w_sys w)) @ payment_calls tid p1 p2 c1 c2 a1 a2"
      "r = (if p1 = 0 \<and> p2 = 0 \<and> c1 = 0 \<and> c2 = 0 then 0 else - 1)"
      using payment_commit_calls [OF h assms(2) cm] assms(3) by blast
    with True have "calls (trace s) = calls (trace (w_sys w)) @ committed_calls tid"
      by (auto simp: payment_calls_def committed_calls_def Let_def split: if_splits)
    with pc(4) have cl: "calls (trace ?s) = calls (trace (w_sys w)) @ committed_calls tid" by simp
    let ?w2 = "on_sys (with_metrics metrics_inc_approved) ?w"
    define w1 where "w1 = the (line_commit pq req masked tid p a b dup t0 w)"
    have l: "line_commit pq req masked tid p a b dup t0 w = Some w1"
      using cm True by (simp add: line_commit_def w1_def Let_def gettimeofday_def)
    have w1: "w_coord w1 = c \<and> w_rev w1 = w_rev w \<and> w_risk w1 = w_risk w \<and>
      (\<exists>n. w_sys w1 = emit (Log ''INFO'' ''tx'' (Some (request_id req)) ''APPROVED'' n)
         (with_metrics metrics_inc_approved (emit (Write (approved_body dup tid)) ?s)))"
      using cm True bodies by (auto simp: line_commit_def w1_def Let_def gettimeofday_def on_sys_def)
    then obtain n where n: "w_sys w1 = emit (Log ''INFO'' ''tx'' (Some (request_id req)) ''APPROVED'' n)
         (with_metrics metrics_inc_approved (emit (Write (approved_body dup tid)) ?s))" by blast
    have "effect [Write (approved_body dup tid)] 1 0 0 (w_sys w) (w_sys w1)"
      using effect_basic(2) [OF effect_basic(4) [OF effect_basic(3) [OF effect_silent [OF pc(3)]]]] by (simp add: n)
    moreover have "effect [] 1 0 0 (w_sys w) (w_sys ?w2)"
      using effect_basic(4) [OF effect_silent [OF pc(3)]] by (simp add: on_sys_def)
    moreover have "idle w1" "idle ?w2"
      using pc(1) w1 n processing_cong(2) [of w1 ?w] processing_cong(2) [of ?w2 ?w]
      by (auto simp: on_sys_def allocs_sys)
    moreover have "same_ctxs s0 (w_sys w1)" "same_ctxs s0 (w_sys ?w2)"
      using pc(2) n by (simp_all add: same_ctxs_def on_sys_def)
    ultimately show ?thesis
      using l w1 n cl cm True bodies
      by (intro settles_approved [of _ w1 _ "''OK''" dup tid ?w2])
         (auto simp: body_commit_def on_sys_def reply_ok_bodies assms(4) agree_def alike_def erase_emit)
  next
    case False
    have "rev_ready (w_rev w) ?s" using pc(1) by (simp add: idle_def)
    from enqueue_spec [OF this, of "Some tid" "Some masked" "Some (amount_text req)" "Some ''MERCHANT001''"]
    obtain rc rq s' where e:
      "reversal_enqueue (Some tid) (Some masked) (Some (amount_text req)) (Some ''MERCHANT001'') (w_rev w) ?s = Some (rc, rq, s')"
      "rev_ready rq s'" "within {} plain ?s s'"
      by blast
    let ?v = "?w\<lparr>w_rev := rq, w_sys := s'\<rparr>"
    have v: "idle ?v" using idle_within [OF pc(1), of plain s' rq] e(2,3) by simp
    have ctx: "same_ctxs s0 s'" using pc(2) e(3) by (auto simp: same_ctxs_def within_def intro: keeps_conns_trans)
    have g: "grows silent (w_sys w) (w_sys ?v)"
      using pc(3) e(3) grows_silent grows_trans unfolding within_def by fastforce
    let ?v1 = "decline ''commit_failed'' ''ERROR'' (Some (request_id req)) ?v"
    have "idle ?v1" "idle (count_declined ?v)"
      using v processing_cong(2) [of ?v1 ?v] processing_cong(2) [of "count_declined ?v" ?v] by simp_all
    moreover have "effect [Write (declined_body ''commit_failed'')] 0 1 0 (w_sys w) (w_sys ?v1)"
      "effect [] 0 1 0 (w_sys w) (w_sys (count_declined ?v))"
      using effect_before [OF g effect_decline] effect_before [OF g effect_count_declined] by simp_all
    ultimately show ?thesis
      using e cm False ctx
      by (intro settles_declined [of _ ?v1 _ 500 "''Internal Server Error''" "''commit_failed''" "count_declined ?v"])
         (auto simp: line_commit_def body_commit_def server_error_def clip_bodies same_ctxs_def reply_ok_bodies agree_decline)
  qed
qed

lemma execute_settles:
  assumes "processing pq p t a b s0 w" and "participants t = []" and "transaction_id t = tid"
    and "tid \<noteq> []" and "length tid < 64"
  shows "settles tid s0 w (line_execute pq req masked tid p a b t0 w) (body_execute pq req masked tid p a b w)"
proof -
  note fails = settles_fail [where tid = tid and l = "''ERROR''" and rid = "Some (request_id req)"]
  have h: "holding p t (w_coord w)" using assms(1) by (simp add: processing_def)
  obtain ok c s1 where rb: "register_both pq p a b (w_coord w) (w_sys w) = (ok, c, s1)" by (metis prod_cases3)
  note rs = register_both_holding [OF h assms(2) rb]
  obtain u where u: "holding p u c" "transaction_id u = tid" "payment_txn pq a b u"
    "\<forall>q \<in> set (participants u). payment_participant pq a b q"
    using rs(3) assms(3,4) by auto
  let ?w1 = "w\<lparr>w_coord := c, w_sys := s1\<rparr>"
  have p1: "processing pq p u a b s0 ?w1" using processing_within [OF assms(1) rs(2) u(1,4)] .
  have live: "contexts_live a b s1" using p1 by (simp add: processing_def)
  obtain r2 s2 where b2: "db_participant_begin pq (Some a) (Some tid) s1 = (r2, s2)" by force
  note w2 = within_begin [OF live b2]
  let ?w2 = "w\<lparr>w_coord := c, w_sys := s2\<rparr>"
  have p2: "processing pq p u a b s0 ?w2" using processing_sys [OF p1, of plain s2] w2 by simp
  have live2: "contexts_live a b s2" using p2 by (simp add: processing_def)
  obtain r3 s3 where b3: "clearing_participant_set_transaction (Some b) (Some tid) (Some masked)
      (Some (amount_text req)) (Some ''MERCHANT001'') s2 = (r3, s3)" by force
  note w3 = within_set_transaction [OF live2 b3]
  let ?w3 = "w\<lparr>w_coord := c, w_sys := s3\<rparr>"
  have p3: "processing pq p u a b s0 ?w3" using processing_sys [OF p2, of plain s3] w3(1) by simp
  obtain r4 dup st s4 where b4: "db_participant_insert_transaction pq (Some a) (Some (request_id req)) masked
      (amount_text req) ''APPROVED'' (Some 0) (Some []) 32 s3 = (r4, dup, st, s4)" by (metis prod_cases4)
  note w4 = within_insert [OF b4]
  let ?w4 = "w\<lparr>w_coord := c, w_sys := s4\<rparr>"
  have p4: "processing pq p u a b s0 ?w4" using processing_sys [OF p3, of plain s4] w4 by simp
  have g2: "grows plain (w_sys w) s2" using rs(2) [of "{}"] w2 grows_trans unfolding within_def by blast
  have g4: "grows plain (w_sys w) s4" using g2 w3(1) w4 [of "{}"] grows_trans unfolding within_def by blast
  let ?L = "line_execute pq req masked tid p a b t0 w" and ?B = "body_execute pq req masked tid p a b w"
  consider "r2 \<noteq> 0" | "r2 = 0" "r4 \<noteq> 0" | "r2 = 0" "r4 = 0" by blast
  then show ?thesis
  proof cases
    case 1
    then have "?L = Some (release pq (Some a) (Some b) p (decline ''db_begin_failed'' ''ERROR'' (Some (request_id req)) ?w2))"
      "?B = Some (server_error ''db_begin_failed'', release pq (Some a) (Some b) p (count_declined ?w2))"
      using rb rs(1) b2 by (simp_all add: line_execute_def body_execute_def)
    with settles_before [OF fails [where code = 500 and why = "''Internal Server Error''" and r = "''db_begin_failed''", OF p2], of w] g2
    show ?thesis by (simp add: server_error_def clip_bodies reply_ok_bodies)
  next
    case 2
    then have "?L = Some (release pq (Some a) (Some b) p (decline ''db_error'' ''ERROR'' (Some (request_id req)) ?w4))"
      "?B = Some (server_error ''db_error'', release pq (Some a) (Some b) p (count_declined ?w4))"
      using rb rs(1) b2 b3 w3(2) b4 by (simp_all add: line_execute_def body_execute_def)
    with settles_before [OF fails [where code = 500 and why = "''Internal Server Error''" and r = "''db_error''", OF p4], of w] g4
    show ?thesis by (simp add: server_error_def clip_bodies reply_ok_bodies)
  next
    case 3
    then have "?L = line_commit pq req masked tid p a b (dup \<noteq> Some 0) t0 ?w4"
      "?B = body_commit pq req masked tid p a b (dup \<noteq> Some 0) ?w4"
      using rb rs(1) b2 b3 w3(2) b4 by (simp_all add: line_execute_def body_execute_def)
    with settles_before [OF commit_settles [OF p4 u(3,2) assms(5)], of w] g4 show ?thesis by simp
  qed
qed

lemma make_txn_id_spec:
  assumes "make_txn_id req s = (tid, s')"
  shows "tid \<noteq> []" "length tid < 64" "length tid < MAX_TRANSACTION_ID_LEN" "within X plain s s'"
proof -
  have t: "tid = clip MAX_TRANSACTION_ID_LEN (''visa_'' @ request_id req @ ''_'' @ show_int (time_src s (time_calls s)))"
    and s: "s' = s\<lparr>time_calls := Suc (time_calls s)\<rparr>"
    using assms by (auto simp: make_txn_id_def time_null_def)
  show "tid \<noteq> []" "length tid < 64" "length tid < MAX_TRANSACTION_ID_LEN"
    by (simp_all add: t clip_def MAX_TRANSACTION_ID_LEN_def)
  show "within X plain s s'" by (simp add: s within_step within_refl)
qed

lemma init_failed_settles:
  assumes "open_participants pq db s2 = (d, k, s3)" and "fresh_ctxs s2" and "same_ctxs (w_sys w) s2"
    and "rev_ready (w_rev w) s3" and "grows plain (w_sys w) s3" and "holding p t c" and "participants t = []"
  shows "settles tid (w_sys w) w
    (Some (release pq d k p (decline ''participant_init_failed'' ''ERROR'' rid (w\<lparr>w_coord := c, w_sys := s3\<rparr>))))
    (Some (server_error ''participant_init_failed'', release pq d k p (count_declined (w\<lparr>w_coord := c, w_sys := s3\<rparr>))))"
proof -
  note os = open_participants_spec [OF assms(1,2)]
  let ?w = "w\<lparr>w_coord := c, w_sys := s3\<rparr>"
  let ?w1 = "decline ''participant_init_failed'' ''ERROR'' rid ?w" and ?w2 = "count_declined ?w"
  have r: "\<exists>c s. release pq d k p v = v\<lparr>w_coord := c, w_sys := s\<rparr> \<and> empty_table c \<and>
      grows silent (w_sys v) s \<and> freed d k (w_sys v) s"
    if "w_coord v = c" "db_ctxs (w_sys v) = db_ctxs s3" "clearing_ctxs (w_sys v) = clearing_ctxs s3" for v
    by (rule release_spec [of p t]) (use assms(6,7) that os(5,6) in auto)
  obtain c1 v1 where r1: "release pq d k p ?w1 = ?w1\<lparr>w_coord := c1, w_sys := v1\<rparr>" "empty_table c1"
      "grows silent (w_sys ?w1) v1" "freed d k (w_sys ?w1) v1"
    using r [of ?w1] by auto
  obtain c2 v2 where r2: "release pq d k p ?w2 = ?w2\<lparr>w_coord := c2, w_sys := v2\<rparr>" "empty_table c2"
      "grows silent (w_sys ?w2) v2" "freed d k (w_sys ?w2) v2"
    using r [of ?w2] by auto
  have restored: "same_ctxs (w_sys w) v \<and> fresh_ctxs v" if "freed d k s3 v" "allocs s3 \<le> allocs v" for v
  proof -
    have "db_ctxs v x = db_ctxs s2 x \<and> clearing_ctxs v x = clearing_ctxs s2 x" for x
      using that(1) os(3,4) [of x] os(5,6) [of x] assms(2) by (auto simp: freed_def fresh_ctxs_def)
    moreover have "keeps_conns s2 v" using that(1) os(8) by (auto simp: freed_def intro: keeps_conns_trans)
    ultimately have "same_ctxs (w_sys w) v" using assms(3) by (auto simp: same_ctxs_def intro: keeps_conns_trans)
    moreover have "fresh_ctxs v" using that os(2) by (auto simp: freed_def fresh_ctxs_def)
    ultimately show ?thesis ..
  qed
  have fr: "freed d k s3 v1" "freed d k s3 v2" using r1(4) r2(4) by (simp_all add: freed_def keeps_conns_def)
  have al: "allocs s3 \<le> allocs v1" "allocs s3 \<le> allocs v2" using r1(3) r2(3) by (simp_all add: grows_def)
  have "effect [Write (declined_body ''participant_init_failed'')] 0 1 0 (w_sys w) v1" "effect [] 0 1 0 (w_sys w) v2"
    using effect_before [OF grows_silent [OF assms(5)]] effect_after [OF effect_decline r1(3)]
      effect_after [OF effect_count_declined r2(3)] by auto
  moreover have "rev_ready (w_rev w) v1" "rev_ready (w_rev w) v2" using assms(4) al by (auto simp: rev_ready_def)
  moreover have "agree (release pq d k p ?w1) (release pq d k p ?w2)"
    by (rule agree_release [OF agree_decline, of p t]) (use assms(6,7) in simp_all)
  ultimately show ?thesis
    using r1(1,2) r2(1,2) restored [OF fr(1) al(1)] restored [OF fr(2) al(2)]
    by (intro settles_declined [of _ "?w1\<lparr>w_coord := c1, w_sys := v1\<rparr>" _ 500 "''Internal Server Error''"
          "''participant_init_failed''" "?w2\<lparr>w_coord := c2, w_sys := v2\<rparr>"])
       (auto simp: server_error_def clip_bodies idle_def reply_ok_bodies)
qed

lemma pay_settles:
  assumes "idle w"
  shows "\<exists>tid. settles tid (w_sys w) w (line_pay pq db req t0 w) (body_pay pq db req w)"
proof -
  let ?m = "mask_pan (pan req) 64 []" and ?rid = "Some (request_id req)"
  obtain tid s1 where m: "make_txn_id req (w_sys w) = (tid, s1)" by force
  note ms = make_txn_id_spec [OF m]
  obtain res c s2 where tb: "txn_begin (Some tid) (w_coord w) s1 = (res, c, s2)" by (metis prod_cases3)
  have e: "empty_table (w_coord w)" "fresh_ctxs (w_sys w)" "rev_ready (w_rev w) (w_sys w)" using assms by (auto simp: idle_def)
  note bs = begin_empty [OF e(1) tb ms(3)]
  have w2: "within {} plain (w_sys w) s2" using ms(4) bs(1) by (rule within_trans)
  have f2: "fresh_ctxs s2" using fresh_ctxs_within [OF e(2) w2] .
  have g2: "grows plain (w_sys w) s2" and c2: "same_ctxs (w_sys w) s2" using w2 by (auto simp: within_def same_ctxs_def)
  have "settles tid (w_sys w) w (line_pay pq db req t0 w) (body_pay pq db req w)"
  proof (cases res)
    case None
    let ?w = "w\<lparr>w_coord := c, w_sys := s2\<rparr>"
    have i: "idle ?w" using idle_within [OF assms w2 rev_ready_grows [OF e(3) g2]] bs(2) [OF None] by simp
    let ?v1 = "decline ''txn_init_failed'' ''ERROR'' ?rid ?w"
    have "idle ?v1" "idle (count_declined ?w)"
      using i processing_cong(2) [of ?v1 ?w] processing_cong(2) [of "count_declined ?w" ?w] by simp_all
    moreover have "effect [Write (declined_body ''txn_init_failed'')] 0 1 0 (w_sys w) (w_sys ?v1)"
      "effect [] 0 1 0 (w_sys w) (w_sys (count_declined ?w))"
      using effect_before [OF grows_silent [OF g2]] effect_decline [of _ ?w] effect_count_declined [of ?w] by auto
    ultimately show ?thesis
      using None m tb c2
      by (intro settles_declined [of _ ?v1 _ 500 "''Internal Server Error''" "''txn_init_failed''" "count_declined ?w"])
         (simp_all add: line_pay_def body_pay_def server_error_def clip_bodies same_ctxs_def reply_ok_bodies agree_decline)
  next
    case (Some p)
    obtain t where t: "holding p t c" "transaction_id t = tid" "participants t = []" using bs(3) [OF Some] by blast
    obtain d k s3 where op: "open_participants pq db s2 = (d, k, s3)" by (metis prod_cases3)
    note os = open_participants_spec [OF op f2]
    let ?w = "w\<lparr>w_coord := c, w_sys := s3\<rparr>"
    have g3: "grows plain (w_sys w) s3" using g2 os(1) by (rule grows_trans)
    have rr: "rev_ready (w_rev w) s3" using rev_ready_grows [OF e(3) g3] .
    show ?thesis
    proof (cases "d \<noteq> None \<and> k \<noteq> None")
      case True
      then obtain a b where ab: "d = Some a" "k = Some b" by auto
      have sp: "allocs s2 \<le> a" "allocs s2 \<le> b" "a < b" "db_ctxs s3 a \<noteq> None" "clearing_ctxs s3 b \<noteq> None"
        using os(5) [OF ab(1)] os(6) [OF ab(2)] os(7) [OF ab] by auto
      have n: "db_ctxs s2 a = None" "clearing_ctxs s2 a = None" "db_ctxs s2 b = None" "clearing_ctxs s2 b = None"
        using f2 sp(1,2) by (auto simp: fresh_ctxs_def)
      have "processing pq p t a b (w_sys w) ?w"
        unfolding processing_def contexts_live_def
        using t rr os(2) sp n os(3) [unfolded ab] os(4) [unfolded ab] os(8) c2 by (auto simp: same_ctxs_def intro: keeps_conns_trans)
      from settles_before [OF execute_settles [OF this t(3,2) ms(1,2)], of w] g3 show ?thesis
        using m tb Some op ab by (simp add: line_pay_def body_pay_def)
    next
      case False
      with init_failed_settles [OF op f2 c2 rr g3 t(1,3)] m tb Some op show ?thesis
        by (auto simp: line_pay_def body_pay_def Let_def split: option.splits)
    qed
  qed
  then show ?thesis ..
qed

subsection \<open>Screening\<close>

definition screen :: "string \<Rightarrow> risk \<Rightarrow> 'a sys_scheme \<Rightarrow> string option" where
  \<comment> \<open>the reason for which a request is turned down before a payment is attempted\<close>
  "screen line rk s =
     (case iso_parse_request_line (Some line) of
        Inl _ \<Rightarrow> Some ''bad_request''
      | Inr req \<Rightarrow>
          if \<not> luhn_check (pan req) then Some ''luhn_failed''
          else if \<not> amount_valid (amount_text req) then Some ''amount_invalid''
          else if \<not> allow (fst (risk_evaluate (Some req) rk s)) then Some ''risk_velocity''
          else None)"

lemma risk_evaluate_frame:
  assumes "risk_evaluate (Some req) rk s = (dec, rk', s')"
  shows "\<exists>n. s' = s\<lparr>time_calls := n\<rparr>" and "\<not> allow dec \<Longrightarrow> risk_reason dec = ''risk_velocity''"
proof -
  show "\<exists>n. s' = s\<lparr>time_calls := n\<rparr>"
    using assms
    by (auto simp: risk_evaluate_def vel_get_def time_null_def Let_def split: if_splits sum.splits prod.splits
        intro: exI [of _ "time_calls s"])
  show "\<not> allow dec \<Longrightarrow> risk_reason dec = ''risk_velocity''"
    using assms by (auto simp: risk_evaluate_def risk_reason_def clip_def Let_def split: if_splits prod.splits)
qed

lemma risk_evaluate_metrics: "fst (risk_evaluate q rk (with_metrics f s)) = fst (risk_evaluate q rk s)"
  by (simp add: risk_evaluate_def vel_get_def time_null_def with_metrics_def Let_def split: option.split sum.split prod.split)

definition request_counted :: "'g world \<Rightarrow> 'g world" where
  \<comment> \<open>the first statements of both pipelines: read the clock and count the request\<close>
  "request_counted w = on_sys (with_metrics metrics_inc_total) (snd (gettimeofday w))"

lemma request_counted_simps [simp]:
  "w_coord (request_counted w) = w_coord w" "w_rev (request_counted w) = w_rev w" "w_risk (request_counted w) = w_risk w"
  "w_sys (request_counted w) = with_metrics metrics_inc_total (w_sys w)"
  by (simp_all add: request_counted_def on_sys_def gettimeofday_def)

definition evaluated :: "'g world \<Rightarrow> risk \<Rightarrow> nat \<Rightarrow> 'g world" where
  \<comment> \<open>the world after the velocity check of an admitted request\<close>
  "evaluated w rk n = (request_counted w)\<lparr>w_risk := rk, w_sys := (w_sys (request_counted w))\<lparr>time_calls := n\<rparr>\<rparr>"

definition untouched :: "'g world \<Rightarrow> 'g world \<Rightarrow> bool" where
  "untouched w v \<longleftrightarrow> w_coord v = w_coord w \<and> w_rev v = w_rev w \<and> allocs (w_sys v) = allocs (w_sys w) \<and> db_tls (w_sys v) = db_tls (w_sys w) \<and>
     same_ctxs (w_sys w) (w_sys v) \<and> pg (w_sys v) = pg (w_sys w) \<and> db_conns (w_sys v) = db_conns (w_sys w)"

definition tally_declined :: "string \<Rightarrow> metrics \<Rightarrow> metrics" where
  "tally_declined why m =
     (let m = metrics_inc_declined (metrics_inc_total m)
      in if why = ''luhn_failed'' then metrics_inc_risk_declined m else m)"

lemma metrics_fields [simp]:
  "metrics (s\<lparr>time_calls := n\<rparr>) = metrics s" "trace (s\<lparr>time_calls := n\<rparr>) = trace s"
  "allocs (with_metrics f s) = allocs s" "allocs (emit e s) = allocs s" "allocs (logj l ev r m s) = allocs s"
  by (simp_all add: with_metrics_def emit_def logj_def)

lemma pg_fields [simp]:
  "pg (with_metrics f s) = pg s" "pg (emit e s) = pg s" "pg (logj l ev r m s) = pg s" "pg (s\<lparr>time_calls := n\<rparr>) = pg s"
  "db_conns (with_metrics f s) = db_conns s" "db_conns (emit e s) = db_conns s" "db_conns (logj l ev r m s) = db_conns s"
  "db_conns (s\<lparr>time_calls := n\<rparr>) = db_conns s"
  for s :: "('g, 'a) dsys_scheme"
  by (simp_all add: with_metrics_def emit_def logj_def)

lemmas untouched_defs = untouched_def same_ctxs_def tally_declined_def decline_def count_declined_def on_sys_def
  bad_request_def clip_bodies reply_ok_bodies agree_def alike_def erase_emit

lemma parsed_request:
  assumes "iso_parse_request_line (Some line) = Inr req"
  shows "\<exists>rk n. screen line (w_risk w) (w_sys w) =
      (if \<not> luhn_check (pan req) then Some ''luhn_failed''
       else if \<not> amount_valid (amount_text req) then Some ''amount_invalid''
       else if \<not> allow (fst (risk_evaluate (Some req) (w_risk w) (w_sys w))) then Some ''risk_velocity'' else None) \<and>
    process_line pq db line w =
      (if \<not> luhn_check (pan req) then
         Some (on_sys (\<lambda>s. logj ''WARN'' ''tx'' (Some (request_id req)) ''DECLINED''
           (with_metrics metrics_inc_risk_declined (with_metrics metrics_inc_declined
             (emit (Write (declined_body ''luhn_failed'')) s)))) (request_counted w))
       else if \<not> amount_valid (amount_text req) then
         Some (decline ''amount_invalid'' ''WARN'' (Some (request_id req)) (request_counted w))
       else if \<not> allow (fst (risk_evaluate (Some req) (w_risk w) (w_sys w))) then
         Some (decline ''risk_velocity'' ''WARN'' (Some (request_id req)) (evaluated w rk n))
       else line_pay pq db req (fst (gettimeofday w)) (evaluated w rk n)) \<and>
    body_decide pq db line (request_counted w) =
      (if \<not> luhn_check (pan req) then
         Some (bad_request ''luhn_failed'', on_sys (with_metrics metrics_inc_risk_declined) (count_declined (request_counted w)))
       else if \<not> amount_valid (amount_text req) then Some (bad_request ''amount_invalid'', count_declined (request_counted w))
       else if \<not> allow (fst (risk_evaluate (Some req) (w_risk w) (w_sys w))) then
         Some ((402, ''Payment Required'', declined_body ''risk_velocity''), count_declined (evaluated w rk n))
       else body_pay pq db req (evaluated w rk n))"
proof -
  obtain dec rk s' where ev: "risk_evaluate (Some req) (w_risk w) (with_metrics metrics_inc_total (w_sys w)) = (dec, rk, s')"
    by (metis prod_cases3)
  obtain n where n: "s' = (with_metrics metrics_inc_total (w_sys w))\<lparr>time_calls := n\<rparr>"
    using risk_evaluate_frame(1) [OF ev] by blast
  have al: "allow (fst (risk_evaluate (Some req) (w_risk w) (w_sys w))) = allow dec"
    using risk_evaluate_metrics [of "Some req" "w_risk w" metrics_inc_total "w_sys w"] ev by simp
  show ?thesis
    using assms ev n risk_evaluate_frame(2) [OF ev] clip_bodies(3) [of "''risk_velocity''"] unfolding al
    by (intro exI [of _ rk] exI [of _ n])
       (auto simp: screen_def al process_line_def body_decide_def request_counted_def gettimeofday_def on_sys_def evaluated_def
        decline_def declined_body_def)
qed

lemma screened:
  assumes "screen line (w_risk w) (w_sys w) = Some why"
  shows "\<exists>v1 v2 code reason rid. process_line pq db line w = Some v1 \<and>
    body_decide pq db line (request_counted w) = Some ((code, reason, declined_body why), v2) \<and>
    reply_ok (code, reason, declined_body why) \<and> code \<noteq> 200 \<and> untouched w v1 \<and> untouched w v2 \<and> agree v1 v2 \<and>
    trace (w_sys v1) = trace (w_sys w) @ [Write (declined_body why), Log ''WARN'' ''tx'' rid ''DECLINED'' (- 1)] \<and>
    trace (w_sys v2) = trace (w_sys w) \<and>
    metrics (w_sys v1) = tally_declined why (metrics (w_sys w)) \<and> metrics (w_sys v2) = tally_declined why (metrics (w_sys w))"
proof (cases "iso_parse_request_line (Some line)")
  case (Inl e)
  with assms have "why = ''bad_request''" by (simp add: screen_def)
  with Inl show ?thesis
    by (auto simp: process_line_def body_decide_def request_counted_def [symmetric] gettimeofday_def untouched_defs)
next
  case (Inr req)
  note pr = parsed_request [OF Inr, of w pq db]
  show ?thesis
    using assms pr by (auto simp: untouched_defs evaluated_def split: if_splits)
qed

lemma admitted:
  assumes "screen line (w_risk w) (w_sys w) = None"
  shows "\<exists>req rk n. iso_parse_request_line (Some line) = Inr req \<and>
    process_line pq db line w = line_pay pq db req (fst (gettimeofday w)) (evaluated w rk n) \<and>
    body_decide pq db line (request_counted w) = body_pay pq db req (evaluated w rk n)"
proof (cases "iso_parse_request_line (Some line)")
  case (Inl e)
  with assms show ?thesis by (simp add: screen_def)
next
  case (Inr req)
  with assms parsed_request [OF Inr, of w pq db] show ?thesis by (auto split: if_splits)
qed

lemma evaluated_sys [simp]:
  "w_sys (evaluated w rk n) = (with_metrics metrics_inc_total (w_sys w))\<lparr>time_calls := n\<rparr>"
  "w_coord (evaluated w rk n) = w_coord w" "w_rev (evaluated w rk n) = w_rev w"
  by (simp_all add: evaluated_def)

lemma idle_evaluated: "idle (evaluated w rk n) = idle w"
  by (rule processing_cong(2)) simp_all

lemma total_evaluated:
  "metrics (w_sys (evaluated w rk n)) = metrics_inc_total (metrics (w_sys w))"
  "trace (w_sys (evaluated w rk n)) = trace (w_sys w)"
  by simp_all

definition answered :: "'g world \<Rightarrow> event list \<Rightarrow> bool \<Rightarrow> 'g world \<Rightarrow> bool" where
  \<comment> \<open>the request was answered with these writes, and counted once, as approved or as declined\<close>
  "answered w ws ok w' \<longleftrightarrow> idle w' \<and> same_ctxs (w_sys w) (w_sys w') \<and>
     (\<exists>es. trace (w_sys w') = trace (w_sys w) @ es \<and> filter is_write es = ws) \<and>
     (let m = metrics (w_sys w); m' = metrics (w_sys w') in
        g_total m' = g_total m + 1 \<and>
        g_approved m' = g_approved m + (if ok then 1 else 0) \<and>
        g_declined m' = g_declined m + (if ok then 0 else 1) \<and> g_server_busy m' = g_server_busy m) \<and>
     allocs (w_sys w) \<le> allocs (w_sys w')"

lemma answered_screened:
  assumes "idle w" and "untouched w v" and "trace (w_sys v) = trace (w_sys w) @ es" and "filter is_write es = ws"
    and "metrics (w_sys v) = tally_declined why (metrics (w_sys w))"
  shows "answered w ws False v"
  using assms processing_cong(2) [of v w]
  by (auto simp: answered_def untouched_def same_ctxs_def tally_declined_def metrics_inc_defs Let_def)

lemma answered_effect:
  assumes "idle v" and "same_ctxs (w_sys (evaluated w rk n)) (w_sys v)"
    and "effect ws A D 0 (w_sys (evaluated w rk n)) (w_sys v)" and "A = (if ok then 1 else 0)" and "D = (if ok then 0 else 1)"
  shows "answered w ws ok v"
  using assms
  by (simp add: answered_def effect_def same_ctxs_def Let_def metrics_inc_total_def split: if_splits)

lemma length_show_nat: "n < 1000 \<Longrightarrow> length (show_nat n) \<le> 3"
  by (simp add: show_nat.simps [of n] show_nat.simps [of "n div 10"] show_nat.simps [of "n div 10 div 10"])

lemma show_status:
  "show_int 200 = ''200''" "show_int 400 = ''400''" "show_int 402 = ''402''" "show_int 500 = ''500''" "show_int 502 = ''502''"
  by code_simp+

lemma emit_reply_answered:
  assumes "reply_ok (code, why, b)" and "answered w [] ok v"
  shows "answered w [Write (http_head code why (length b)), Write b] ok (emit_reply (code, why, b) v)"
proof -
  have "length (show_nat (length b)) \<le> 3" using assms(1) by (intro length_show_nat) (auto simp: reply_ok_def)
  then have h: "length (http_head code why (length b)) < 256" "b \<noteq> []"
    using assms(1) by (auto simp: reply_ok_def http_head_def show_status)
  then have e: "emit_reply (code, why, b) v =
      v\<lparr>w_sys := emit (Write b) (emit (Write (http_head code why (length b))) (w_sys v))\<rparr>"
    by (simp add: emit_reply_def on_sys_def)
  have "idle (emit_reply (code, why, b) v) = idle v" by (rule processing_cong(2)) (simp_all add: e)
  with assms(2) e show ?thesis by (auto simp: answered_def same_ctxs_def Let_def)
qed

text \<open>The two pipelines side by side: what every request has in common, whichever way it ends.\<close>

lemma both_pipelines:
  assumes "idle w"
  shows "\<exists>w1 code why b w2 ok. process_line pq db line w = Some w1 \<and>
    body_decide pq db line (request_counted w) = Some ((code, why, b), w2) \<and> (code = 200 \<longleftrightarrow> ok) \<and> reply_ok (code, why, b) \<and>
    answered w [Write b] ok w1 \<and> answered w [] ok w2 \<and> agree w1 w2 \<and>
    (ok \<longrightarrow> screen line (w_risk w) (w_sys w) = None \<and>
      (\<exists>dup tid. b = approved_body dup tid \<and>
         calls (trace (w_sys w1)) = calls (trace (w_sys w)) @ committed_calls tid \<and>
         calls (trace (w_sys w2)) = calls (trace (w_sys w)) @ committed_calls tid)) \<and>
    (\<not> ok \<longrightarrow> (\<exists>r. b = declined_body r))"
proof (cases "screen line (w_risk w) (w_sys w)")
  case (Some r)
  obtain v1 v2 code why rid where v: "process_line pq db line w = Some v1"
    "body_decide pq db line (request_counted w) = Some ((code, why, declined_body r), v2)" "code \<noteq> 200 \<and> reply_ok (code, why, declined_body r)"
    "untouched w v1" "untouched w v2" "agree v1 v2"
    "trace (w_sys v1) = trace (w_sys w) @ [Write (declined_body r), Log ''WARN'' ''tx'' rid ''DECLINED'' (- 1)]"
    "trace (w_sys v2) = trace (w_sys w)"
    "metrics (w_sys v1) = tally_declined r (metrics (w_sys w))" "metrics (w_sys v2) = tally_declined r (metrics (w_sys w))"
    using screened [OF Some, of pq db] by blast
  have "answered w [Write (declined_body r)] False v1" "answered w [] False v2"
    using answered_screened [OF assms v(4,7) _ v(9)] answered_screened [OF assms v(5) _ _ v(10), of "[]"] v(8) by simp_all
  then show ?thesis using v by auto
next
  case None
  obtain req rk n where r: "process_line pq db line w = line_pay pq db req (fst (gettimeofday w)) (evaluated w rk n)"
    "body_decide pq db line (request_counted w) = body_pay pq db req (evaluated w rk n)"
    using admitted [OF None, of pq db] by blast
  let ?e = "evaluated w rk n"
  have i: "idle ?e" using assms idle_evaluated by blast
  from pay_settles [OF i, of pq db req "fst (gettimeofday w)"]
  obtain tid w1 code why b w2 A D where w: "line_pay pq db req (fst (gettimeofday w)) ?e = Some w1"
    "body_pay pq db req ?e = Some ((code, why, b), w2)" "idle w1" "idle w2"
    "same_ctxs (w_sys ?e) (w_sys w1)" "same_ctxs (w_sys ?e) (w_sys w2)" "agree w1 w2"
    "effect [Write b] A D 0 (w_sys ?e) (w_sys w1)" "effect [] A D 0 (w_sys ?e) (w_sys w2)"
    "reply_ok (code, why, b)"
    and c: "A = 1 \<and> D = 0 \<and> code = 200 \<and> (\<exists>dup. b = approved_body dup tid) \<and>
           calls (trace (w_sys w1)) = calls (trace (w_sys ?e)) @ committed_calls tid \<and>
           calls (trace (w_sys w2)) = calls (trace (w_sys ?e)) @ committed_calls tid \<or>
         A = 0 \<and> D = 1 \<and> code \<noteq> 200 \<and> (\<exists>r. b = declined_body r)"
    unfolding settles_def by (metis (no_types))
  have "answered w [Write b] (code = 200) w1" "answered w [] (code = 200) w2"
    using answered_effect [OF w(3,5,8)] answered_effect [OF w(4,6,9)] c by auto
  with c None r w(1,2,7,10) total_evaluated(2) [of w rk n] show ?thesis
    by (intro exI [of _ w1] exI [of _ code] exI [of _ why] exI [of _ b] exI [of _ w2] exI [of _ "code = 200"]) auto
qed

text \<open>
  C3. Every request line is processed to the end and answered: from an idle worker \<open>process_line\<close>
  returns, the worker is idle again (no transaction in its table, no participant context left over,
  the queue of reversals well-formed), exactly one response went to the client, and the request is
  counted once in the total and once as either approved or declined. (The runs that end in a
  decline after registration contain the faults of \<open>txn_commit_abort_use_after_free\<close> and
  \<open>begin_failure_uses_freed_context\<close>; the statement is about the model's
  continuation of them.)
\<close>

theorem request_answered_once:
  assumes "idle w"
  shows "\<exists>w' b ok. process_line pq db line w = Some w' \<and> answered w [Write b] ok w'"
  using both_pipelines [OF assms, of pq db line] by blast

text \<open>
  C14. A request that fails a check costs nothing: when it does not parse, fails the Luhn check, has
  an invalid amount or exceeds the velocity limit, the only events are the response with that reason
  and a log line; the coordinator, the reversal queue, the participants' contexts and the database
  are untouched. The same holds for the body of a POST, which writes nothing before its reply.
\<close>

theorem screened_request_untouched:
  assumes "screen line (w_risk w) (w_sys w) = Some why"
  shows "\<exists>v1 v2 code reason rid. process_line pq db line w = Some v1 \<and>
    body_decide pq db line (request_counted w) = Some ((code, reason, declined_body why), v2) \<and>
    code \<noteq> 200 \<and> untouched w v1 \<and> untouched w v2 \<and>
    trace (w_sys v1) = trace (w_sys w) @ [Write (declined_body why), Log ''WARN'' ''tx'' rid ''DECLINED'' (- 1)] \<and>
    trace (w_sys v2) = trace (w_sys w)"
  using screened [OF assms, of pq db] by blast

text \<open>
  C13. The two copies of the pipeline agree: from the same idle state the line and the POST body
  with the same text give the same JSON answer, the POST with its HTTP header in front and status
  200 exactly for an approval, and they end in the same state: the same transaction table, velocity table, queue of
  reversals, contexts, connections and database, the same value of each of the eleven counters, and the same trace of
  commands, requests, callbacks and transaction log lines; only the responses and the lines of the JSON log differ.
\<close>

theorem http_body_agrees_with_line:
  assumes "idle w" and "process_line pq db body w = Some w1"
  shows "\<exists>w2 b code why ok. process_body pq db body w = Some w2 \<and> (code = 200 \<longleftrightarrow> ok) \<and>
    answered w [Write b] ok w1 \<and> answered w [Write (http_head code why (length b)), Write b] ok w2 \<and>
    agree w1 w2 \<and> metrics (w_sys w1) = metrics (w_sys w2)"
proof -
  obtain code why b v ok where v: "body_decide pq db body (request_counted w) = Some ((code, why, b), v)"
    "code = 200 \<longleftrightarrow> ok" "reply_ok (code, why, b)" "answered w [Write b] ok w1" "answered w [] ok v" "agree w1 v"
    using both_pipelines [OF assms(1), of pq db body] assms(2) by (metis (no_types, lifting) option.inject)
  have "process_body pq db body w = Some (emit_reply (code, why, b) v)"
    using v(1) by (simp add: process_body_def request_counted_def gettimeofday_def)
  moreover have ag: "agree w1 (emit_reply (code, why, b) v)"
    using v(6) by (simp add: agree_def emit_reply_def on_sys_def Let_def alike_def erase_emit)
  moreover have "metrics (w_sys w1) = metrics (w_sys (emit_reply (code, why, b) v))"
    using ag alike_fields(3) unfolding agree_def by metis
  ultimately show ?thesis using v emit_reply_answered [OF v(3,5)] by auto
qed

subsection \<open>A concrete worker\<close>

definition demo_world :: "(string \<Rightarrow> row option) world" where
  "demo_world = \<lparr>w_coord = \<lparr>active_transactions = [], tx_heap = Map.empty, txn_log = True,
       prepare_timeout_seconds = 30, commit_timeout_seconds = 30\<rparr>,
     w_risk = \<lparr>g_vel = [], g_risk_enabled = False, g_vel_limit = 20, g_vel_window_sec = 60\<rparr>,
     w_rev = reversal_start, w_sys = demo_dsys Map.empty, tod_src = (\<lambda>n. (int n, 0)), tod_calls = 0\<rparr>"

definition demo_line :: string where
  "demo_line = ''{\"pan\":\"18\",\"amount\":\"5.00\",\"request_id\":\"r\"}''"

lemma idle_demo: "idle demo_world"
  by (auto simp: idle_def demo_world_def empty_table_def fresh_ctxs_def demo_dsys_def rev_ready_def
      reversal_start_def rev_chain_def intro!: exI [of _ "[]"])

text \<open>Witness of C3.\<close>

theorem request_answered_once_witness:
  "\<exists>w' b ok. process_line demo_pq (Some 3) demo_line demo_world = Some w' \<and> answered demo_world [Write b] ok w'"
  using request_answered_once [OF idle_demo] .

text \<open>Witness of C14: a line that is not a request.\<close>

theorem screened_request_untouched_witness:
  "\<exists>v1 rid. process_line demo_pq (Some 3) ''hello'' demo_world = Some v1 \<and> untouched demo_world v1 \<and>
     trace (w_sys v1) = [Write (declined_body ''bad_request''), Log ''WARN'' ''tx'' rid ''DECLINED'' (- 1)]"
proof -
  have s: "screen ''hello'' (w_risk demo_world) (w_sys demo_world) = Some ''bad_request''" by code_simp
  have t: "trace (w_sys demo_world) = []" by (simp add: demo_world_def demo_dsys_def)
  show ?thesis using screened_request_untouched [OF s, of demo_pq "Some 3"] unfolding t by auto
qed

text \<open>Witness of C13.\<close>

theorem http_body_agrees_with_line_witness:
  "\<exists>w1 w2 b code why ok. process_line demo_pq (Some 3) demo_line demo_world = Some w1 \<and>
     process_body demo_pq (Some 3) demo_line demo_world = Some w2 \<and>
     answered demo_world [Write b] ok w1 \<and>
     answered demo_world [Write (http_head code why (length b)), Write b] ok w2 \<and> agree w1 w2"
proof -
  obtain w1 where w1: "process_line demo_pq (Some 3) demo_line demo_world = Some w1"
    using both_pipelines [OF idle_demo, of demo_pq "Some 3" demo_line] by blast
  from http_body_agrees_with_line [OF idle_demo w1] w1 show ?thesis by blast
qed

end
