(* ===== verification/Availability.thy ===== *)
theory Availability
  imports Payment_flow
begin

section \<open>Approvals and the error paths of a payment\<close>

text \<open>
  An approval is never unfounded, whatever libpq does. That approvals exist is shown on the example
  database \<open>demo_pq\<close> of the theory \<open>Db\<close>, which accepts every command: the lemmas up to \<open>line_approved\<close> follow one
  request through the pipeline with it, while the draws of the simulated clearing service are no failures, its breaker is
  closed, memory is available and the thread has its connection. They say nothing about libpq, which documents no
  behaviour for the pointer that the participant passes. The last section shows what the error paths behind the
  registration do with the freed contexts.
\<close>

definition clearing_up :: "'a csys_scheme \<Rightarrow> bool" where
  "clearing_up s \<longleftrightarrow> (\<forall>n. 5 \<le> rand_src s n mod 100) \<and> \<not> cb_open (g_cb s) \<and> 0 \<le> max_retries (cb_now s)"

lemma clearing_up_cong:
  assumes "rand_src s' = rand_src s" "g_cb s' = g_cb s" "cb_loaded s' = cb_loaded s" "env_src s' = env_src s"
  shows "clearing_up s' = clearing_up s"
  using assms by (simp add: clearing_up_def cb_now_def cb_load_env_defaults_def Let_def env_get_int_def)

subsection \<open>The participants succeed\<close>

lemma db_calls_succeed:
  assumes "db_ctxs s a = Some c"
  shows "in_transaction c \<and> db_txn_id c = tid \<Longrightarrow> fst (db_participant_prepare demo_pq (Some a) (Some tid) s) = 0"
    and "fst (db_participant_commit demo_pq (Some a) (Some tid) s) = 0"
    and "\<not> in_transaction c \<Longrightarrow> fst (db_participant_begin demo_pq (Some a) (Some tid) s) = 0"
  using assms
  by (simp_all add: db_participant_prepare_def db_participant_commit_def db_participant_begin_def
      PQexec_def Let_def case_prod_beta demo_pq_def PQresultStatus_def)

lemma insert_succeeds:
  assumes "rid \<noteq> []" and "db_ctxs s a = Some c" and "in_transaction c" and "live_conn (Some (dbc c)) s \<noteq> None"
  shows "fst (db_participant_insert_transaction demo_pq (Some a) (Some rid) pn amt st (Some 0) (Some []) 32 s) = 0"
proof -
  obtain x xs where x: "rid = x # xs" using assms(1) by (cases rid) auto
  have "sql_upsert \<noteq> sql_status" by (simp add: sql_upsert_def sql_status_def)
  with assms(2-4) show ?thesis
    by (auto simp: x db_participant_insert_transaction_def db_insert_or_get_by_reqid_def demo_pq_def PQresultStatus_def
        PQexecParams_def Let_def case_prod_beta emit_def split: option.split)
qed

lemma cb_closed:
  "\<not> cb_open c \<Longrightarrow> \<not> fst (cb_check now c) \<and> \<not> cb_open (snd (cb_check now c))"
  "\<not> cb_open c \<Longrightarrow> \<not> cb_open (cb_result now True c)"
  by (simp_all add: cb_check_def cb_result_def Let_def)

lemma cb_now_loaded: "cb_now s = g_cb s" if "cb_loaded s"
  using that by (simp add: cb_now_def cb_load_env_defaults_def)

lemma clearing_request_up:
  assumes "clearing_up s" and "cb_should_short_circuit (cb_load_env_defaults s) = (sc, s2)"
    and "retry_loop (max_retries (g_cb s2)) 0 url p to (- 1) [] s2 = (r, resp, s3)"
  shows "\<not> sc" and "r = 0" and "clearing_up (cb_on_result True s3)"
proof -
  have up: "\<forall>n. 5 \<le> rand_src s n mod 100" "\<not> cb_open (g_cb s)" "0 \<le> max_retries (cb_now s)"
    using assms(1) by (auto simp: clearing_up_def)
  note g = guarded_request [OF assms(2,3) up(3)]
  note c = cb_short_frame [OF assms(2)]
  have cn: "\<not> cb_open (cb_now s)" using up(2) by (simp add: cb_now_def cb_load_env_defaults_def Let_def)
  show "\<not> sc" using g(1) cb_closed(1) [OF cn] by (simp add: refused_def)
  have "\<not> attempt_fails s 0" using up(1) by (simp add: attempt_fails_def not_less)
  moreover have "0 < tries s" using up(3) by (simp add: tries_def)
  ultimately show "r = 0" using g(8) by auto
  have o: "\<not> cb_open (g_cb s2)" using c(10) cb_closed(1) [OF cn] by (simp add: cb_now_def)
  have "cb_tunables (g_cb s2) = cb_tunables (cb_now s)" unfolding c(10) cb_now_def by simp
  then have m: "max_retries (g_cb s2) = max_retries (cb_now s)" by (simp add: cb_tunables_def)
  have l: "cb_loaded s2" using assms(2)
    by (auto simp: cb_should_short_circuit_def time_null_def cb_load_env_defaults_def Let_def split: prod.splits if_splits)
  have s3: "g_cb s3 = g_cb s2" "cb_loaded s3" "rand_src s3 = rand_src s2"
    using g(2) l by (simp_all add: same_clearing_def)
  have "cb_tunables (cb_result now True (g_cb s2)) = cb_tunables (g_cb s2)" for now by simp
  then have m3: "max_retries (cb_result now True (g_cb s2)) = max_retries (g_cb s2)" for now
    by (simp add: cb_tunables_def)
  show "clearing_up (cb_on_result True s3)"
    using s3 c(4) up m m3 cb_closed(2) [OF o]
    by (simp add: clearing_up_def cb_on_result_def time_null_def cb_now_loaded)
qed

lemma cl_prepare_succeeds:
  assumes "clearing_up s" and "clearing_ctxs s b = Some ctx" and "cl_txn_id ctx = tid"
    and "clearing_participant_prepare (Some b) (Some tid) s = (r, s')"
  shows "r = 0" and "clearing_up s'" and "clearing_ctxs s' b = Some (ctx\<lparr>has_hold := True\<rparr>)"
proof -
  let ?p = "clearing_payload ''prepare'' tid ctx"
  obtain sc s2 where sc: "cb_should_short_circuit (cb_load_env_defaults s) = (sc, s2)" by force
  obtain r3 resp s3 where rl: "retry_loop (max_retries (g_cb s2)) 0 (service_url ctx) ?p
      (timeout_seconds ctx) (- 1) [] s2 = (r3, resp, s3)" by (metis prod_cases3)
  note u = clearing_request_up [OF assms(1) sc rl]
  have m: "0 \<le> max_retries (cb_now s)" using assms(1) by (simp add: clearing_up_def)
  note sp = clearing_prepare_spec [OF assms(2,3) m assms(4)]
  have ok: "status_ok resp" by (rule guarded_request(10) [OF sc rl m u(2) clearing_payload_ok]) simp
  show r: "r = 0" using assms(2,3,4) sc rl u(1,2) ok by (simp add: clearing_participant_prepare_def)
  show "clearing_ctxs s' b = Some (ctx\<lparr>has_hold := True\<rparr>)" using sp r by simp
  have "s' = clog2 ''INFO'' tid ''Authorization hold placed''
      ((cb_on_result True s3)\<lparr>clearing_ctxs := (clearing_ctxs (cb_on_result True s3))(b \<mapsto> ctx\<lparr>has_hold := True\<rparr>)\<rparr>)"
    using assms(2,3,4) sc rl u(1,2) ok by (simp add: clearing_participant_prepare_def)
  then have "clearing_up s' = clearing_up (cb_on_result True s3)"
    by (intro clearing_up_cong) (simp_all add: clog2_def logj_def emit_def)
  with u(3) show "clearing_up s'" by simp
qed

lemma cl_commit_succeeds:
  assumes "clearing_up s" and "clearing_ctxs s b = Some ctx" and "cl_txn_id ctx = tid" and "has_hold ctx"
  shows "fst (clearing_participant_commit (Some b) (Some tid) s) = 0"
proof -
  let ?p = "clearing_payload ''commit'' tid ctx"
  obtain sc s2 where sc: "cb_should_short_circuit (cb_load_env_defaults s) = (sc, s2)" by force
  obtain r3 resp s3 where rl: "retry_loop (max_retries (g_cb s2)) 0 (service_url ctx) ?p
      (timeout_seconds ctx) (- 1) [] s2 = (r3, resp, s3)" by (metis prod_cases3)
  note u = clearing_request_up [OF assms(1) sc rl]
  have m: "0 \<le> max_retries (cb_now s)" using assms(1) by (simp add: clearing_up_def)
  have ok: "status_ok resp" by (rule guarded_request(10) [OF sc rl m u(2) clearing_payload_ok]) simp
  show ?thesis using assms(2-4) sc rl u(1,2) ok by (simp add: clearing_participant_commit_def)
qed


subsection \<open>The transaction commits\<close>

definition calm :: "'g dsys \<Rightarrow> 'g dsys \<Rightarrow> bool" where
  \<comment> \<open>neither the clearing service's fortune nor the connections changed\<close>
  "calm s s' \<longleftrightarrow> rand_src s' = rand_src s \<and> g_cb s' = g_cb s \<and> cb_loaded s' = cb_loaded s \<and> env_src s' = env_src s \<and>
     alloc_src s' = alloc_src s \<and> db_conns s' = db_conns s \<and> db_tls s' = db_tls s \<and> clearing_ctxs s' = clearing_ctxs s"

lemma calm_trans: "calm s t \<Longrightarrow> calm t u \<Longrightarrow> calm s u"
  by (simp add: calm_def)

lemma calm_basic:
  "calm s (logj l e r m s)" "calm s (emit ev s)" "calm s (log_transaction_state c t act s)"
  "calm s (s\<lparr>time_calls := n\<rparr>)" "calm s (s\<lparr>allocs := n\<rparr>)" "calm s (with_metrics f s)"
  by (auto simp: calm_def logj_def emit_def log_transaction_state_def time_null_def Let_def with_metrics_def)

lemma calm_db: "same_db_rest s s' \<Longrightarrow> calm s s'"
  by (simp add: calm_def same_db_rest_def)

lemma calm_up: "calm s s' \<Longrightarrow> clearing_up s' = clearing_up s"
  by (intro clearing_up_cong) (simp_all add: calm_def)

lemma started_ctxs:
  "db_ctxs (prepare_started c t s) = db_ctxs s" "calm s (prepare_started c t s)"
  "db_ctxs (commit_started c t s) = db_ctxs s" "calm s (commit_started c t s)"
  by (auto simp: prepare_started_def commit_started_def log_transaction_state_def time_null_def Let_def
      intro!: calm_basic(1) [THEN calm_trans [rotated]] calm_basic(3) [THEN calm_trans [rotated]])
     (auto simp: calm_def emit_def)


lemma payment_commit_succeeds:
  fixes s :: "(string \<Rightarrow> row option) dsys"
  assumes "tx_heap c p = Some t" and "payment_txn demo_pq a b t" and "transaction_id t = tid"
    and "db_ctxs s a = Some d0" and "in_transaction d0" and "db_txn_id d0 = tid"
    and "clearing_ctxs s b = Some k0" and "cl_txn_id k0 = tid" and "clearing_up s"
  shows "fst (txn_commit (Some p) c s) = 0"
proof -
  obtain d k where ps: "participants t = [d, k]" and dk: "db_participant_at demo_pq a d" "cl_participant_at b k"
    using assms(2) by (auto simp: payment_txn_def)
  note cb = dk [unfolded db_participant_at_def cl_participant_at_def]
  define x1 where "x1 = clog ''INFO'' (Some tid) ''Preparing participant'' (prepare_started c t s)"
  have c1: "calm s x1" "db_ctxs x1 a = Some d0"
    using calm_trans [OF started_ctxs(2) calm_basic(1)] assms(4) by (simp_all add: x1_def started_ctxs)
  obtain y1 where y1: "db_participant_prepare demo_pq (Some a) (Some tid) x1 = (0, y1)"
    using db_calls_succeed(1) [OF c1(2)] assms(5,6) by (metis prod.collapse)
  note f1 = db_prepare_spec [OF c1(2) y1]
  define x2 where "x2 = clog ''INFO'' (Some tid) ''Preparing participant'' (clog ''INFO'' (Some tid) ''Participant prepared''
    (emit (Call (pname d) tid Prepare 0) y1))"
  have "calm y1 x2" unfolding x2_def by (meson calm_basic calm_trans)
  with c1(1) calm_db f1 have c2: "calm s x2" by (meson calm_trans)
  have u2: "clearing_up x2" "clearing_ctxs x2 b = Some k0"
    using c2 calm_up [OF c2] assms(7,9) by (simp_all add: calm_def)
  obtain r2 y2 where y2: "clearing_participant_prepare (Some b) (Some tid) x2 = (r2, y2)" by force
  note f2 = cl_prepare_succeeds [OF u2 assms(8) y2]
  have "cl_frame b x2 y2" using cl_prepare_frame [of b x2 tid] y2 by simp
  then have d2: "db_ctxs y2 = db_ctxs x2" by (intro db_fields_more) (simp add: cl_frame_def)
  define s3 where "s3 = clog ''INFO'' (Some tid) ''Participant prepared'' (emit (Call (pname k) tid Prepare 0) y2)"
  let ?ps = "[d\<lparr>pstate := PARTICIPANT_PREPARED\<rparr>, k\<lparr>pstate := PARTICIPANT_PREPARED\<rparr>]"
  have pl: "prepare_loop (transaction_id t) (participants t) (prepare_started c t s) = (True, ?ps, s3)"
    using cb y1 y2 f2(1)
    by (simp add: ps assms(3) call_cb_def x1_def [symmetric] db_cb_defs cl_cb_defs x2_def [symmetric] s3_def)
  let ?t = "t\<lparr>tstate := TXN_PREPARING, participants := ?ps\<rparr>"
  define x3 where "x3 = commit_started c ?t s3"
  have c3: "calm y2 x3" unfolding x3_def s3_def by (meson calm_basic calm_trans started_ctxs)
  have "db_ctxs x3 = db_ctxs y2" by (simp add: x3_def s3_def started_ctxs)
  then obtain d3 where d3: "db_ctxs x3 a = Some d3" using d2 f1 by (auto simp: x2_def)
  obtain y3 where y3: "db_participant_commit demo_pq (Some a) (Some tid) x3 = (0, y3)"
    using db_calls_succeed(2) [OF d3, of tid] by (metis prod.collapse)
  define x4 where "x4 = clog ''INFO'' (Some tid) ''Participant committed'' (emit (Call (pname d) tid Commit 0) y3)"
  have "calm x3 y3" using db_commit_spec [OF d3 y3] calm_db by blast
  moreover have "calm y3 x4" unfolding x4_def by (meson calm_basic calm_trans)
  ultimately have c4: "calm y2 x4" using c3 by (meson calm_trans)
  have "fst (clearing_participant_commit (Some b) (Some tid) x4) = 0"
    by (rule cl_commit_succeeds [where ctx = "k0\<lparr>has_hold := True\<rparr>"])
       (use c4 calm_up [OF c4] f2(2,3) assms(8) in \<open>simp_all add: calm_def\<close>)
  then obtain y4 where y4: "clearing_participant_commit (Some b) (Some tid) x4 = (0, y4)" by (metis prod.collapse)
  let ?s4 = "clog ''INFO'' (Some tid) ''Participant committed'' (emit (Call (pname k) tid Commit 0) y4)"
  let ?qs = "[d\<lparr>pstate := PARTICIPANT_COMMITTED\<rparr>, k\<lparr>pstate := PARTICIPANT_COMMITTED\<rparr>]"
  have cl: "commit_loop (transaction_id ?t) (participants ?t) (commit_started c ?t s3) = (True, ?qs, ?s4)"
    using cb y3 y4
    by (simp add: assms(3) call_cb_def x3_def [symmetric] db_cb_defs cl_cb_defs x4_def [symmetric])
  show ?thesis
    by (simp add: txn_commit_eq [OF assms(1) pl] commit_phase_eq [OF cl] commit_finish_def Let_def)
qed

subsection \<open>The request is approved\<close>

definition worker_ready :: "nat option \<Rightarrow> 'g dsys \<Rightarrow> bool" where
  \<comment> \<open>memory and the thread's own connection are there\<close>
  "worker_ready db s \<longleftrightarrow> (\<forall>n. alloc_src s n) \<and>
     (\<exists>b k u l. db = Some b \<and> db_conns s b = Some k \<and> uri k = Some u \<and> db_tls s = Some l \<and> live_conn (Some l) s \<noteq> None)"

lemma worker_ready_calm: "worker_ready db s \<Longrightarrow> calm s s' \<Longrightarrow> worker_ready db s'"
  by (auto simp: worker_ready_def calm_def live_conn_def)


lemma begin_succeeds:
  assumes "empty_table c" and "\<forall>n. alloc_src s n" and "txn_begin (Some tid) c s = (res, c', s')"
  shows "res \<noteq> None" and "calm s s'"
proof -
  have f: "find_transaction tid c = None" "active_transactions c = []"
    using assms(1) by (simp_all add: find_transaction_def empty_table_def)
  show "res \<noteq> None"
    using assms(2,3) f
    by (auto simp: txn_begin_def Let_def time_null_def malloc_def MAX_ACTIVE_TRANSACTIONS_def split: if_splits)
  show "calm s s'"
    using assms(3) f
    by (auto simp: txn_begin_def Let_def time_null_def malloc_def log_transaction_state_def calm_def logj_def emit_def
        split: if_splits)
qed

lemma clearing_init_up:
  assumes "clearing_participant_init u to s = (k, s')" and "\<forall>n. alloc_src s n"
  shows "k \<noteq> None" and "clearing_up s' = clearing_up s" and "alloc_src s' = alloc_src s"
proof -
  show "k \<noteq> None" "alloc_src s' = alloc_src s"
    using clearing_init_spec(1,5) [OF assms(1)] assms(2) by simp_all
  have e: "g_cb s' = cb_now s" "cb_loaded s'" "rand_src s' = rand_src s"
    using assms by (auto simp: clearing_participant_init_def malloc_def Let_def time_null_def cb_now_def
        cb_load_env_defaults_def env_get_int_def)
  then show "clearing_up s' = clearing_up s"
    by (simp add: clearing_up_def cb_now_loaded) (simp add: cb_now_def cb_load_env_defaults_def Let_def)
qed

lemma open_succeeds:
  assumes "worker_ready db s" and "open_participants pq db s = (d, k, s')"
  shows "\<exists>a b l. d = Some a \<and> k = Some b \<and> clearing_up s' = clearing_up s \<and> live_conn (Some l) s' \<noteq> None \<and>
    db_ctxs s' a = Some \<lparr>dbc = l, db_txn_id = [], in_transaction = False\<rparr>"
proof -
  obtain l where l: "db_thread_get pq db s = (Some l, s)" "live_conn (Some l) s \<noteq> None"
    and up: "\<forall>n. alloc_src s n"
    using assms(1) by (auto simp: worker_ready_def db_thread_get_def)
  let ?a = "allocs s"
  let ?s = "put_db_ctx ?a \<lparr>dbc = l, db_txn_id = [], in_transaction = False\<rparr> (s\<lparr>allocs := Suc ?a\<rparr>)"
  have d: "d = Some ?a" "clearing_participant_init None 30 ?s = (k, s')"
    using assms(2) l up by (auto simp: open_participants_def db_participant_init_def malloc_def split: prod.splits)
  have c: "clearing_up ?s = clearing_up s" by (rule clearing_up_cong) (simp_all add: put_db_ctx_def)
  have al: "\<forall>n. alloc_src ?s n" using up by (simp add: put_db_ctx_def)
  note ci = clearing_init_up [OF d(2) al]
  have more: "csys.more s' = csys.more ?s" using clearing_init_spec(7) [OF d(2)] .
  have "db_ctxs s' = db_ctxs ?s" "db_conns s' = db_conns ?s" using db_fields_more [OF more] by blast+
  then show ?thesis using d(1) ci(1,2) c l(2) by (auto simp: live_conn_def put_db_ctx_def)
qed


lemma insert_up:
  assumes "db_participant_insert_transaction pq x rid pn amt st dup out sz s = (r, u, v, s')"
  shows "clearing_up s' = clearing_up s"
proof (rule clearing_up_cong)
  have "rand_src s' = rand_src s \<and> g_cb s' = g_cb s \<and> cb_loaded s' = cb_loaded s \<and> env_src s' = env_src s"
    using assms
    by (auto simp: db_participant_insert_transaction_def db_insert_or_get_by_reqid_def db_insert_transaction_def
        PQexecParams_def Let_def case_prod_beta db_fault_def dlog_def logj_def emit_def split: option.splits list.splits if_splits)
  then show "rand_src s' = rand_src s" "g_cb s' = g_cb s" "cb_loaded s' = cb_loaded s" "env_src s' = env_src s" by auto
qed

lemma execute_succeeds:
  assumes "holding p t (w_coord w)" and "participants t = []" and "transaction_id t = tid" and "tid \<noteq> []" and "length tid < 64"
    and "clearing_up (w_sys w)" and "request_id req \<noteq> []"
    and "db_ctxs (w_sys w) a = Some \<lparr>dbc = l, db_txn_id = [], in_transaction = False\<rparr>"
    and "live_conn (Some l) (w_sys w) \<noteq> None" and "contexts_live a b (w_sys w)"
  shows "\<exists>w' bd. body_execute demo_pq req masked tid p a b w = Some ((200, ''OK'', bd), w')"
proof -
  let ?m = "Some (amount_text req)" and ?x = "\<lparr>dbc = l, db_txn_id = tid, in_transaction = True\<rparr>"
  obtain ok c s1 where rb: "register_both demo_pq p a b (w_coord w) (w_sys w) = (ok, c, s1)" by (metis prod_cases3)
  note rs = register_both_holding [OF assms(1,2) rb]
  obtain u where u: "holding p u c" "transaction_id u = tid" "payment_txn demo_pq a b u" using rs(3) assms(3,4) by auto
  have s1: "\<exists>m1 m2. s1 = clog ''INFO'' m1 ''Participant registered'' (clog ''INFO'' m2 ''Participant registered'' (w_sys w))"
    using rb assms(1,2)
    by (auto simp: register_both_def txn_register_participant_def holding_def Let_def MAX_PARTICIPANTS_def)
  have c1: "calm (w_sys w) s1" using s1 calm_basic(1) calm_trans by blast
  have k1: "db_ctxs s1 = db_ctxs (w_sys w)" using s1 by auto
  have live1: "contexts_live a b s1" using assms(10) k1 c1 by (simp add: contexts_live_def calm_def)
  obtain s2 where b2: "db_participant_begin demo_pq (Some a) (Some tid) s1 = (0, s2)"
    using db_calls_succeed(3) [of s1 a _ tid] k1 assms(8) by (metis db_ctx.select_convs(3) prod.collapse)
  have f2: "same_db_rest s1 s2 \<and> db_ctxs s2 a = Some ?x"
    using db_begin_spec [OF _ b2] k1 assms(5,8) by (auto simp: clip_id MAX_TRANSACTION_ID_LEN_def)
  have c2: "calm (w_sys w) s2" using c1 f2 calm_db calm_trans by blast
  have live2: "contexts_live a b s2"
    using live1 within_begin [OF live1 b2] by (auto simp: contexts_live_def within_def)
  then obtain k0 where k0: "clearing_ctxs s2 b = Some k0" by (auto simp: contexts_live_def)
  obtain r3 s3 where b3: "clearing_participant_set_transaction (Some b) (Some tid) (Some masked) ?m (Some ''MERCHANT001'') s2 = (r3, s3)"
    by force
  have r3: "r3 = 0" using within_set_transaction(2) [OF live2 b3] .
  have f3: "\<exists>k. clearing_ctxs s3 b = Some k \<and> cl_txn_id k = tid" "db_ctxs s3 = db_ctxs s2" "db_conns s3 = db_conns s2"
    using clearing_set_spec(1,5) [OF k0 b3] assms(5) db_fields_more [of s3 s2]
    by (auto simp: clip_id MAX_TRANSACTION_ID_LEN_def)
  have up3: "clearing_up s3"
  proof -
    have "clearing_up s3 = clearing_up s2"
      by (rule clearing_up_cong) (use b3 k0 in \<open>auto simp: clearing_participant_set_transaction_def Let_def clog2_def logj_def emit_def\<close>)
    then show ?thesis using calm_up [OF c2] assms(6) by simp
  qed
  have lv: "live_conn (Some (dbc ?x)) s3 \<noteq> None"
    using assms(9) c2 f3(3) by (simp add: live_conn_def calm_def)
  obtain r4 dup st s4 where b4: "db_participant_insert_transaction demo_pq (Some a) (Some (request_id req)) masked
      (amount_text req) ''APPROVED'' (Some 0) (Some []) 32 s3 = (r4, dup, st, s4)" by (metis prod_cases4)
  have r4: "r4 = 0"
    using insert_succeeds [OF assms(7), of s3 a ?x masked "amount_text req" "''APPROVED''"] f2 f3(2) lv b4 by simp
  have d4: "db_ctxs s4 a = Some ?x" "clearing_ctxs s4 = clearing_ctxs s3" "clearing_up s4"
    using insert_ctxs [of demo_pq "Some a" "Some (request_id req)" masked "amount_text req" "''APPROVED''" "Some 0" "Some []" 32 s3]
      b4 f2 f3(2) insert_up [OF b4] up3 by auto
  obtain k where k: "clearing_ctxs s4 b = Some k" "cl_txn_id k = tid" using f3(1) d4(2) by auto
  have "fst (txn_commit (Some p) c s4) = 0"
    by (rule payment_commit_succeeds [OF holding_heap [OF u(1)] u(3,2) d4(1) _ _ k d4(3)]) simp_all
  then obtain c' s' where "txn_commit (Some p) c s4 = (0, c', s')" by (metis prod.collapse)
  then show ?thesis using rb rs(1) b2 b3 b4 r3 r4 by (simp add: body_execute_def body_commit_def)
qed


definition opened ::
    "'g pq \<Rightarrow> nat option \<Rightarrow> iso_request \<Rightarrow> 'g world \<Rightarrow> string \<Rightarrow> nat \<Rightarrow> 'g dsys transaction \<Rightarrow> nat \<Rightarrow> nat \<Rightarrow> nat \<Rightarrow>
     'g world \<Rightarrow> bool" where
  \<comment> \<open>the pipelines reach the registration in \<open>v\<close>, with transaction \<open>p\<close> and contexts \<open>a\<close> and \<open>b\<close>\<close>
  "opened pq db req w tid p t a b l v \<longleftrightarrow>
     tid \<noteq> [] \<and> length tid < 64 \<and> participants t = [] \<and> transaction_id t = tid \<and>
     processing pq p t a b (w_sys w) v \<and> grows plain (w_sys w) (w_sys v) \<and> clearing_up (w_sys v) = clearing_up (w_sys w) \<and>
     live_conn (Some l) (w_sys v) \<noteq> None \<and> db_ctxs (w_sys v) a = Some \<lparr>dbc = l, db_txn_id = [], in_transaction = False\<rparr> \<and>
     (\<forall>t0. line_pay pq db req t0 w = line_execute pq req (mask_pan (pan req) 64 []) tid p a b t0 v) \<and>
     body_pay pq db req w = body_execute pq req (mask_pan (pan req) 64 []) tid p a b v"

lemma pay_opens:
  assumes "idle w" and "worker_ready db (w_sys w)"
  shows "\<exists>tid p t a b l v. opened pq db req w tid p t a b l v"
proof -
  have e: "empty_table (w_coord w)" "fresh_ctxs (w_sys w)" "rev_ready (w_rev w) (w_sys w)"
    using assms(1) by (auto simp: idle_def)
  obtain tid s1 where m: "make_txn_id req (w_sys w) = (tid, s1)" by force
  note ms = make_txn_id_spec [OF m]
  have s1: "calm (w_sys w) s1" using m by (auto simp: make_txn_id_def time_null_def calm_def)
  obtain res c s2 where tb: "txn_begin (Some tid) (w_coord w) s1 = (res, c, s2)" by (metis prod_cases3)
  have al: "\<forall>n. alloc_src s1 n" using s1 assms(2) by (simp add: calm_def worker_ready_def)
  note bs = begin_succeeds [OF e(1) al tb] begin_empty [OF e(1) tb ms(3)]
  obtain p where p: "res = Some p" using bs(1) by blast
  obtain t where t: "holding p t c" "transaction_id t = tid" "participants t = []" using bs(5) [OF p] by blast
  have c2: "calm (w_sys w) s2" using s1 bs(2) by (rule calm_trans)
  have w2: "within {} plain (w_sys w) s2" using ms(4) bs(3) by (rule within_trans)
  have f2: "fresh_ctxs s2" using fresh_ctxs_within [OF e(2) w2] .
  obtain d k s3 where op: "open_participants pq db s2 = (d, k, s3)" by (metis prod_cases3)
  obtain a b l where o: "d = Some a" "k = Some b" "clearing_up s3 = clearing_up s2" "live_conn (Some l) s3 \<noteq> None"
    "db_ctxs s3 a = Some \<lparr>dbc = l, db_txn_id = [], in_transaction = False\<rparr>"
    using open_succeeds [OF worker_ready_calm [OF assms(2) c2] op] by blast
  note os = open_participants_spec [OF op f2]
  have sp: "allocs s2 \<le> a" "allocs s2 \<le> b" "a < b" "clearing_ctxs s3 b \<noteq> None"
    using os(5) [OF o(1)] os(6) [OF o(2)] os(7) [OF o(1,2)] by auto
  have n: "db_ctxs s2 a = None" "clearing_ctxs s2 a = None" "db_ctxs s2 b = None" "clearing_ctxs s2 b = None"
    using f2 sp(1,2) by (auto simp: fresh_ctxs_def)
  have same: "db_ctxs s2 = db_ctxs (w_sys w)" "clearing_ctxs s2 = clearing_ctxs (w_sys w)"
    using w2 by (auto simp: within_def)
  let ?v = "w\<lparr>w_coord := c, w_sys := s3\<rparr>"
  have g3: "grows plain (w_sys w) s3" using w2 os(1) grows_trans unfolding within_def by blast
  then have "rev_ready (w_rev w) s3" using e(3) rev_ready_grows by blast
  moreover have "keeps_conns (w_sys w) s3" using w2 os(8) keeps_conns_trans unfolding within_def by blast
  ultimately have "processing pq p t a b (w_sys w) ?v"
    unfolding processing_def contexts_live_def
    using t os(2) sp n os(3) [unfolded o] os(4) [unfolded o] o(5) same by auto
  moreover have "\<forall>t0. line_pay pq db req t0 w = line_execute pq req (mask_pan (pan req) 64 []) tid p a b t0 ?v"
    "body_pay pq db req w = body_execute pq req (mask_pan (pan req) 64 []) tid p a b ?v"
    using m tb p op o(1,2) by (simp_all add: line_pay_def body_pay_def)
  moreover have "clearing_up (w_sys ?v) = clearing_up (w_sys w)" using o(3) calm_up [OF c2] by simp
  ultimately have "opened pq db req w tid p t a b l ?v"
    using ms(1,2) t(2,3) o(4,5) g3 by (simp add: opened_def)
  then show ?thesis by blast
qed

lemma pay_succeeds:
  assumes "idle w" and "worker_ready db (w_sys w)" and "clearing_up (w_sys w)" and "request_id req \<noteq> []"
  shows "\<exists>w' bd. body_pay demo_pq db req w = Some ((200, ''OK'', bd), w')"
proof -
  obtain tid p t a b l v where v: "tid \<noteq> []" "length tid < 64" "participants t = []" "transaction_id t = tid"
    "processing demo_pq p t a b (w_sys w) v" "clearing_up (w_sys v) = clearing_up (w_sys w)"
    "live_conn (Some l) (w_sys v) \<noteq> None" "db_ctxs (w_sys v) a = Some \<lparr>dbc = l, db_txn_id = [], in_transaction = False\<rparr>"
    "body_pay demo_pq db req w = body_execute demo_pq req (mask_pan (pan req) 64 []) tid p a b v"
    using pay_opens [OF assms(1,2), of demo_pq req] unfolding opened_def by blast
  have h: "holding p t (w_coord v)" "contexts_live a b (w_sys v)" using v(5) by (auto simp: processing_def)
  from execute_succeeds [OF h(1) v(3,4,1,2) _ assms(4) v(8,7) h(2)] v(6,9) assms(3) show ?thesis by simp
qed

lemma line_approved:
  assumes "idle w" and "screen line (w_risk w) (w_sys w) = None" and "iso_parse_request_line (Some line) = Inr req"
    and "worker_ready db (w_sys w)" and "clearing_up (w_sys w)" and "request_id req \<noteq> []"
  shows "\<exists>w' tid dup. process_line demo_pq db line w = Some w' \<and> answered w [Write (approved_body dup tid)] True w'"
proof -
  obtain rk n where r: "body_decide demo_pq db line (request_counted w) = body_pay demo_pq db req (evaluated w rk n)"
    using admitted [OF assms(2), of demo_pq db] assms(3) by auto
  have c: "calm (w_sys w) (w_sys (evaluated w rk n))" by (simp add: calm_def with_metrics_def)
  have "worker_ready db (w_sys (evaluated w rk n))" "clearing_up (w_sys (evaluated w rk n))"
    using assms(4,5) calm_up [OF c] worker_ready_calm [OF _ c] by blast+
  from pay_succeeds [OF _ this assms(6)] assms(1) idle_evaluated [of w rk n] r
  obtain v bd where "body_decide demo_pq db line (request_counted w) = Some ((200, ''OK'', bd), v)" by auto
  with both_pipelines [OF assms(1), of demo_pq db line] show ?thesis by auto
qed

text \<open>
  C2. An approval is never unfounded: if processing a line counts an approval, then the request
  passed every check, the database and the clearing service both prepared and then both committed
  its transaction, in that order and with no other callback, and the response is the approval of
  that transaction.
\<close>

theorem approved_only_after_commit:
  assumes "idle w" and "process_line pq db line w = Some w'"
    and "g_approved (metrics (w_sys w')) \<noteq> g_approved (metrics (w_sys w))"
  shows "screen line (w_risk w) (w_sys w) = None \<and>
    (\<exists>tid dup. calls (trace (w_sys w')) = calls (trace (w_sys w)) @
         [Call ''database'' tid Prepare 0, Call ''clearing'' tid Prepare 0,
          Call ''database'' tid Commit 0, Call ''clearing'' tid Commit 0] \<and>
       answered w [Write (approved_body dup tid)] True w')"
proof -
  obtain b ok where a: "answered w [Write b] ok w'"
    and o: "ok \<longrightarrow> screen line (w_risk w) (w_sys w) = None \<and> (\<exists>dup tid. b = approved_body dup tid \<and>
       calls (trace (w_sys w')) = calls (trace (w_sys w)) @ committed_calls tid)"
    using both_pipelines [OF assms(1), of pq db line] assms(2) by auto
  have "ok" using a assms(3) by (auto simp: answered_def Let_def split: if_splits)
  with a o show ?thesis by (auto simp: committed_calls_def)
qed

definition demo_request :: iso_request where
  "demo_request = \<lparr>pan = ''18'', amount_text = ''5.00'', currency = [], request_id = ''r'', msg_type = ISO_MSG_AUTH\<rparr>"

lemma demo_up:
  "iso_parse_request_line (Some demo_line) = Inr demo_request"
  "screen demo_line (w_risk demo_world) (w_sys demo_world) = None"
  "worker_ready (Some 3) (w_sys demo_world)" "clearing_up (w_sys demo_world)" "request_id demo_request \<noteq> []"
proof -
  show p: "iso_parse_request_line (Some demo_line) = Inr demo_request" by code_simp
  have l: "luhn_check (pan demo_request)" by code_simp
  have "amount_text demo_request = cents_text 500" by code_simp
  then have a: "amount_valid (amount_text demo_request)" by (simp add: amount_valid_cents_iff)
  show "screen demo_line (w_risk demo_world) (w_sys demo_world) = None"
    using p l a by (simp add: screen_def demo_world_def risk_evaluate_def)
  show "worker_ready (Some 3) (w_sys demo_world)" "clearing_up (w_sys demo_world)" "request_id demo_request \<noteq> []"
    by (simp_all add: worker_ready_def demo_world_def demo_dsys_def clearing_up_def cb_now_def cb_load_env_defaults_def
        g_cb_init_def env_get_int_def live_conn_def demo_request_def)
qed

text \<open>Witness of C2: the approval of that request.\<close>

theorem approved_only_after_commit_witness:
  "\<exists>w' tid dup. process_line demo_pq (Some 3) demo_line demo_world = Some w' \<and>
     calls (trace (w_sys w')) =
       [Call ''database'' tid Prepare 0, Call ''clearing'' tid Prepare 0,
        Call ''database'' tid Commit 0, Call ''clearing'' tid Commit 0] \<and>
     answered demo_world [Write (approved_body dup tid)] True w'"
proof -
  obtain w' tid dup where w: "process_line demo_pq (Some 3) demo_line demo_world = Some w'"
    "answered demo_world [Write (approved_body dup tid)] True w'"
    using line_approved [OF idle_demo demo_up(2,1,3-5)] by blast
  have "g_approved (metrics (w_sys w')) \<noteq> g_approved (metrics (w_sys demo_world))"
    using w(2) by (simp add: answered_def Let_def)
  moreover have "calls (trace (w_sys demo_world)) = []" by (simp add: demo_world_def demo_dsys_def)
  ultimately show ?thesis using approved_only_after_commit [OF idle_demo w(1)] w(1) by auto
qed


subsection \<open>The error paths after registration\<close>

lemma trace_mono: "within X P s s' \<Longrightarrow> set (trace s) \<subseteq> set (trace s')"
  by (auto simp: within_def grows_def)

lemma release_faults:
  assumes "processing pq p t a b s0 w" and "payment_txn pq a b t"
  shows "Fault ''db_ctx'' a \<in> set (trace (w_sys (release pq (Some a) (Some b) p w)))"
proof -
  note pr = assms(1) [unfolded processing_def]
  have h: "tx_heap (w_coord w) p = Some t" using pr holding_heap by blast
  obtain d k where ps: "participants t = [d, k]" and d: "db_participant_at pq a d" "cl_participant_at b k"
    using assms(2) by (auto simp: payment_txn_def)
  let ?tid = "transaction_id t"
  let ?s = "clearing_participant_destroy (Some b) (db_participant_destroy pq (Some a) (w_sys w))"
  have fr: "db_ctxs ?s a = None" "clearing_ctxs ?s b = None"
    using destroy_freed(2) [of "Some a" "w_sys w" "Some b" pq] pr by (auto simp: contexts_live_def freed_def)
  let ?s1 = "clog ''INFO'' (Some ?tid) ''Explicitly aborting transaction''
    (log_transaction_state (w_coord w) (t\<lparr>tstate := TXN_ABORTING\<rparr>) ''ABORT_EXPLICIT'' ?s)"
  have w1: "within {} plain ?s ?s1" by (intro within_step within_refl)
  then have n1: "db_ctxs ?s1 a = None" "clearing_ctxs ?s1 b = None" using fr by (auto simp: within_def)
  let ?s2 = "emit (Call (pname d) ?tid Abort (- 1)) (db_fault ''db_ctx'' a ?s1)"
  have c: "call_cb Abort d ?tid ?s1 = (- 1, ?s2)"
    using d(1) n1(1) by (simp add: call_cb_def db_participant_at_def db_cb_defs db_participant_abort_def)
  have n2: "db_ctxs ?s2 a = None" "clearing_ctxs ?s2 b = None" using n1 by (simp_all add: db_fault_def)
  have k: "payment_participant pq a b k" using d(2) by (simp add: payment_participant_def)
  obtain r3 s3 where c3: "call_cb Abort k ?tid ?s2 = (r3, s3)" by force
  have "within {} silent ?s2 s3" using within_freed_callback [OF k n2, of Abort ?tid] c3 by simp
  then have f3: "Fault ''db_ctx'' a \<in> set (trace s3)" using trace_mono by fastforce
  obtain c' s' where ab: "txn_abort (Some p) (w_coord w) ?s = (c', s')" by fastforce
  have "\<exists>u. s' = log_transaction_state (w_coord w) u ''ABORTED'' s3"
    using ab h c c3 by (auto simp: txn_abort_def ps Let_def)
  then have "set (trace s3) \<subseteq> set (trace s')" using trace_mono [OF within_basic(4)] by blast
  with f3 ab show ?thesis by (auto simp: release_def)
qed

text \<open>
  C39. The error paths behind the registration use freed memory: when a request passes the checks, memory and the
  thread's connection are there, and the database does not start the transaction (BEGIN fails), the request is declined with \<open>db_begin_failed\<close>, but the participant
  contexts are destroyed before \<open>txn_abort\<close> calls the abort callbacks that were registered with them,
  so the database participant's abort reads a context that has been freed.
\<close>

theorem begin_failure_uses_freed_context:
  assumes "idle w" and "screen line (w_risk w) (w_sys w) = None" and "worker_ready db (w_sys w)"
    and "\<forall>n g. PQresultStatus (fst (pq_exec pq (Cast_dbc n) ''BEGIN'' g)) \<noteq> PGRES_COMMAND_OK"
  shows "\<exists>w' a. process_line pq db line w = Some w' \<and> Fault ''db_ctx'' a \<in> set (trace (w_sys w')) \<and>
     answered w [Write (declined_body ''db_begin_failed'')] False w'"
proof -
  obtain req rk n where r: "process_line pq db line w = line_pay pq db req (fst (gettimeofday w)) (evaluated w rk n)"
    using admitted [OF assms(2), of pq db] by blast
  let ?e = "evaluated w rk n"
  have c: "calm (w_sys w) (w_sys ?e)" by (simp add: calm_def with_metrics_def)
  have i: "idle ?e" using assms(1) idle_evaluated by blast
  obtain tid p t a b l v where v: "tid \<noteq> []" "length tid < 64" "participants t = []" "transaction_id t = tid"
    "processing pq p t a b (w_sys ?e) v" "grows plain (w_sys ?e) (w_sys v)"
    "\<forall>t0. line_pay pq db req t0 ?e = line_execute pq req (mask_pan (pan req) 64 []) tid p a b t0 v"
    using pay_opens [OF i worker_ready_calm [OF assms(3) c], of pq req] unfolding opened_def by blast
  have h: "holding p t (w_coord v)" using v(5) by (simp add: processing_def)
  obtain ok c1 s1 where rb: "register_both pq p a b (w_coord v) (w_sys v) = (ok, c1, s1)" by (metis prod_cases3)
  note rs = register_both_holding [OF h v(3) rb]
  obtain u where u: "holding p u c1" "payment_txn pq a b u" "\<forall>q \<in> set (participants u). payment_participant pq a b q"
    using rs(3) v(1,4) by auto
  have p1: "processing pq p u a b (w_sys ?e) (v\<lparr>w_coord := c1, w_sys := s1\<rparr>)" using processing_within [OF v(5) rs(2) u(1,3)] .
  have l1: "contexts_live a b s1" using p1 by (simp add: processing_def)
  obtain r2 s2 where b2: "db_participant_begin pq (Some a) (Some tid) s1 = (r2, s2)" by force
  let ?w2 = "v\<lparr>w_coord := c1, w_sys := s2\<rparr>"
  let ?d = "decline ''db_begin_failed'' ''ERROR'' (Some (request_id req)) ?w2"
  have p2: "processing pq p u a b (w_sys ?e) ?w2" using processing_sys [OF p1, of plain s2] within_begin [OF l1 b2] by simp
  obtain x where x: "db_ctxs s1 a = Some x" using l1 by (auto simp: contexts_live_def)
  have "r2 \<noteq> 0"
    using b2 x assms(4) by (auto simp: db_participant_begin_def PQexec_def Let_def case_prod_beta split: if_splits)
  then have pl: "process_line pq db line w = Some (release pq (Some a) (Some b) p ?d)"
    using r v(7) rb rs(1) b2 by (simp add: line_execute_def)
  have pd: "processing pq p u a b (w_sys ?e) ?d" using p2 processing_cong(1) [of ?d ?w2] by simp
  from release_faults [OF this u(2)]
  have f: "Fault ''db_ctx'' a \<in> set (trace (w_sys (release pq (Some a) (Some b) p ?d)))" .
  have "answered w [Write (declined_body ''db_begin_failed'')] False (release pq (Some a) (Some b) p ?d)"
  proof -
    obtain c' s' where d: "release pq (Some a) (Some b) p ?d = ?d\<lparr>w_coord := c', w_sys := s'\<rparr>"
      "idle (?d\<lparr>w_coord := c', w_sys := s'\<rparr>)" "same_ctxs (w_sys ?e) s'" "grows silent (w_sys ?d) s'"
      using processing_release [OF pd] by blast
    have "grows plain (w_sys ?e) (w_sys ?w2)"
      using grows_trans [OF v(6) grows_trans [of plain "w_sys v" s1 s2]] rs(2) [of "{}"] within_begin [OF l1 b2]
      by (simp add: within_def)
    from effect_before [OF grows_silent [OF this] effect_after [OF effect_decline d(4)]]
    have ef: "effect [Write (declined_body ''db_begin_failed'')] 0 1 0 (w_sys ?e) s'" .
    show ?thesis unfolding d(1) by (rule answered_effect [where rk = rk and n = n]) (use d ef in simp_all)
  qed
  with pl f show ?thesis by blast
qed


text \<open>Witness of C39: a database that refuses every command.\<close>

theorem begin_failure_uses_freed_context_witness:
  "\<exists>w' a. process_line (demo_pq\<lparr>pq_exec := (\<lambda>_ _ g. (None, g))\<rparr>) (Some 3) demo_line demo_world = Some w' \<and>
     Fault ''db_ctx'' a \<in> set (trace (w_sys w')) \<and>
     answered demo_world [Write (declined_body ''db_begin_failed'')] False w'"
proof -
  from begin_failure_uses_freed_context [OF idle_demo demo_up(2,3), of "demo_pq\<lparr>pq_exec := (\<lambda>_ _ g. (None, g))\<rparr>"]
  show ?thesis by (simp add: PQresultStatus_def)
qed

end
