(* ===== verification/Handler.thy ===== *)
theory Handler
  imports Availability
begin

section \<open>The connection handler (server/handler.c)\<close>

text \<open>
  \<open>handler_job\<close> around the pipelines of \<open>Payment\<close>: the read loop, the newline framing, the routes and the
  small HTTP state machine for \<open>/secure/ping\<close> and \<open>/secure/tx\<close>. A connection is given by the
  results of its \<open>read\<close> calls, a list that ends as an orderly close would; a chunk longer than
  the room in the buffer is delivered in pieces. \<open>c_buf\<close> is \<open>buf[0..used)\<close>, \<open>http_body\<close> the
  collected \<open>http_body_used\<close> bytes. The socket options, \<open>close\<close> and \<open>free(ctx)\<close> have no effect on the
  model.
\<close>

datatype read_result = Bytes string | Eintr | Read_error | Eof

record 'g hctx =
  h_pq :: "'g pq"
  h_db :: "nat option"
  api_token :: "string option"

record 'g conn =
  c_world :: "'g world"
  c_buf :: string
  http_collecting :: bool
  http_is_secure_ping :: bool
  http_is_secure_tx :: bool
  http_authz :: string
  http_content_length :: int
  http_body_remaining :: int
  http_body :: string

definition BUF_SIZE :: nat where "BUF_SIZE = 8192"
definition BODY_SIZE :: nat where "BODY_SIZE = 8192"

definition h_sys :: "('g dsys \<Rightarrow> 'g dsys) \<Rightarrow> 'g conn \<Rightarrow> 'g conn" where
  "h_sys f c = c\<lparr>c_world := on_sys f (c_world c)\<rparr>"

definition h_write :: "string \<Rightarrow> 'g conn \<Rightarrow> 'g conn" where
  "h_write b = h_sys (emit (Write b))"

definition h_log :: "string \<Rightarrow> string \<Rightarrow> 'g conn \<Rightarrow> 'g conn" where
  \<comment> \<open>\<open>log_message_json("INFO", event, NULL, status, -1)\<close>\<close>
  "h_log ev st = h_sys (logj ''INFO'' ev None st)"

subsection \<open>Writing\<close>

text \<open>
  \<open>write_all\<close> against the results of its \<open>write\<close> calls; \<^const>\<open>None\<close> when they are used up and the
  loop still runs. The other definitions record a completed call as one \<open>Write\<close> event.
\<close>

datatype write_result = Wrote nat | W_eintr | W_eagain | W_error

fun write_all :: "write_result list \<Rightarrow> string \<Rightarrow> (int \<times> string) option" where
  \<comment> \<open>result and the bytes accepted\<close>
  "write_all ws [] = Some (0, [])"
| "write_all [] (b # bs) = None"
| "write_all (W_eintr # ws) (b # bs) = write_all ws (b # bs)"
| "write_all (W_eagain # ws) (b # bs) = write_all ws (b # bs)"
| "write_all (W_error # ws) (b # bs) = Some (- 1, [])"
| "write_all (Wrote n # ws) (b # bs) =
     (if n = 0 then Some (- 1, [])
      else map_option (\<lambda>(rc, out). (rc, take n (b # bs) @ out)) (write_all ws (drop n (b # bs))))"

lemma write_all_delivers:
  "write_all ws bs = Some (rc, out) \<Longrightarrow> prefix out bs \<and> (rc = 0 \<longleftrightarrow> out = bs)"
proof (induction ws bs arbitrary: rc out rule: write_all.induct)
  case (6 n ws b bs)
  show ?case
  proof (cases "n = 0")
    case False
    then obtain o' where o': "write_all ws (drop n (b # bs)) = Some (rc, o')" "out = take n (b # bs) @ o'"
      using "6.prems" by auto
    from "6.IH" [OF False o'(1)] have "prefix o' (drop n (b # bs))" "rc = 0 \<longleftrightarrow> o' = drop n (b # bs)" by auto
    moreover have "take n (b # bs) @ drop n (b # bs) = b # bs" by (rule append_take_drop_id)
    ultimately show ?thesis unfolding o'(2) by (metis same_append_eq same_prefix_prefix)
  qed (use "6.prems" in simp)
qed auto

lemma write_all_stalled: "write_all (replicate k W_eagain) (b # bs) = None"
  \<comment> \<open>a client that does not read keeps the worker in the loop: the send timeout of 5 seconds reports
      \<open>EAGAIN\<close>, which is retried without limit\<close>
  by (induction k) simp_all

subsection \<open>The HTTP header state machine\<close>

definition authorized :: "string option \<Rightarrow> string \<Rightarrow> bool" where
  "authorized token authz =
     (case token of
        Some (t # ts) \<Rightarrow>
          authz \<noteq> [] \<and>
          (case strstr authz ''Bearer '' of
             None \<Rightarrow> False
           | Some p \<Rightarrow> skip (\<lambda>c. c = CHR '' '') (drop 7 p) = t # ts)
      | _ \<Rightarrow> False)"

definition http_reply :: "int \<Rightarrow> string \<Rightarrow> string \<Rightarrow> 'g conn \<Rightarrow> 'g conn" where
  \<comment> \<open>header and body in one buffer of 256 bytes, dropped when it does not fit\<close>
  "http_reply code why body c =
     (let resp = http_head code why (length body) @ body in
      if length resp < 256 then h_write resp c else c)"

definition end_of_headers :: "'g hctx \<Rightarrow> 'g conn \<Rightarrow> 'g conn" where
  "end_of_headers ctx c =
     (let auth = authorized (api_token ctx) (http_authz c);
          c = (if auth \<and> http_is_secure_ping c then http_reply 200 ''OK'' (''{\"ok\":true}'' @ [newline]) c
               else if \<not> auth \<and> (http_is_secure_ping c \<or> http_is_secure_tx c)
               then http_reply 401 ''Unauthorized'' (''{\"error\":\"unauthorized\"}'' @ [newline]) c
               else if auth \<and> http_is_secure_tx c then
                 if 0 \<le> http_content_length c \<and> http_content_length c \<le> int BODY_SIZE
                 then c\<lparr>http_body_remaining := http_content_length c\<rparr>
                 else (http_reply 400 ''Bad Request'' (''{\"error\":\"bad_content_length\"}'' @ [newline]) c)
                        \<lparr>http_is_secure_tx := False\<rparr>
               else c)
      in c\<lparr>http_collecting := False, http_is_secure_ping := False, http_authz := []\<rparr>)"

definition request_path :: "string \<Rightarrow> string" where
  \<comment> \<open>the copy into \<open>path[128]\<close>, up to the next blank\<close>
  "request_path p = take 127 (takeWhile (\<lambda>c. c \<noteq> CHR '' '') p)"

definition is_secure_get :: "string \<Rightarrow> bool" where
  "is_secure_get line \<longleftrightarrow> strncmp_eq line ''GET '' \<and> strstr line ''HTTP/1.1'' \<noteq> None \<and>
     request_path (drop 4 line) = ''/secure/ping''"

definition is_secure_post :: "string \<Rightarrow> bool" where
  "is_secure_post line \<longleftrightarrow> strncmp_eq line ''POST '' \<and> strstr line ''HTTP/1.1'' \<noteq> None \<and>
     request_path (drop 5 line) = ''/secure/tx''"

definition strncasecmp_eq :: "string \<Rightarrow> string \<Rightarrow> bool" where
  "strncasecmp_eq s lit \<longleftrightarrow> prefix (map lower lit) (map lower s)"

definition skip_blanks :: "string \<Rightarrow> string" where
  "skip_blanks = skip (\<lambda>c. c = CHR '' '' \<or> c = CHR 0x09)"

definition header_line :: "string \<Rightarrow> 'g conn \<Rightarrow> 'g conn" where
  "header_line line c =
     (if strncasecmp_eq line ''Authorization:'' then c\<lparr>http_authz := clip 256 (skip_blanks (drop 14 line))\<rparr>
      else if strncasecmp_eq line ''Content-Length:'' then c\<lparr>http_content_length := strtol (skip_blanks (drop 15 line))\<rparr>
      else c)"

subsection \<open>Routes\<close>

definition route_ready :: "'g hctx \<Rightarrow> 'g conn \<Rightarrow> 'g conn" where
  "route_ready ctx c =
     (let (d, s) = db_thread_get (h_pq ctx) (h_db ctx) (w_sys (c_world c));
          c = c\<lparr>c_world := (c_world c)\<lparr>w_sys := s\<rparr>\<rparr>;
          st = (if db_is_ready (h_pq ctx) d s then ''OK'' else ''NOT_READY'')
      in h_log ''readyz'' st (h_write (st @ [newline]) c))"

definition show_ulong :: "ulong \<Rightarrow> string" where
  "show_ulong x = show_nat (unat x)"

definition metrics_text :: "metrics \<Rightarrow> string" where
  "metrics_text m =
     (let (t, a, d, b) = metrics_snapshot m in
      ''{\"total\":'' @ show_ulong t @ '',\"approved\":'' @ show_ulong a @ '',\"declined\":'' @ show_ulong d @
      '',\"server_busy\":'' @ show_ulong b @ '',\"risk_declined\":'' @ show_ulong (g_risk_declined m) @
      '',\"twopc_committed\":'' @ show_ulong (g_2pc_committed m) @ '',\"twopc_aborted\":'' @ show_ulong (g_2pc_aborted m) @
      '',\"clearing_cb_short_circuit\":'' @ show_ulong (g_cb_short_circuit m) @
      '',\"reversal_enqueued\":'' @ show_ulong (g_rev_enq m) @ '',\"reversal_succeeded\":'' @ show_ulong (g_rev_ok m) @
      '',\"reversal_failed\":'' @ show_ulong (g_rev_fail m) @ ''}'' @ [newline])"

definition route_metrics :: "'g conn \<Rightarrow> 'g conn" where
  "route_metrics c =
     (let t = metrics_text (metrics (w_sys (c_world c))) in
      h_log ''metrics'' ''SNAPSHOT'' (if length t < 640 then h_write t c else c))"

definition query_request_id :: "string \<Rightarrow> string" where
  "query_request_id line =
     (case strstr line ''request_id='' of
        None \<Rightarrow> []
      | Some q \<Rightarrow> take 127 (takeWhile (\<lambda>c. c \<notin> {CHR '' '', CHR 0x0D, newline, CHR ''&''}) (drop 11 q)))"

definition route_tx :: "'g hctx \<Rightarrow> string \<Rightarrow> 'g conn \<Rightarrow> 'g conn" where
  "route_tx ctx line c =
     (let rid = query_request_id line in
      if rid = [] then h_write (''{\"error\":\"missing_request_id\"}'' @ [newline]) c
      else
        let (d, s) = db_thread_get (h_pq ctx) (h_db ctx) (w_sys (c_world c));
            (rc, json, s) = db_get_tx_by_request_id (h_pq ctx) d (Some rid) (Some []) 256 s;
            c = c\<lparr>c_world := (c_world c)\<lparr>w_sys := s\<rparr>\<rparr>
        in if rc = 0 then h_write (the json) c else h_write (''{\"status\":\"NOT_FOUND\"}'' @ [newline]) c)"

definition MINI_VISA_VERSION :: string where "MINI_VISA_VERSION = ''0.2.0''"
definition MINI_VISA_SCHEMA_VERSION :: int where "MINI_VISA_SCHEMA_VERSION = 1"

definition route_version :: "'g conn \<Rightarrow> 'g conn" where
  "route_version c =
     (let body = ''{\"version\":\"'' @ MINI_VISA_VERSION @ ''\",\"schema\":'' @ show_int MINI_VISA_SCHEMA_VERSION @ ''}'' @ [newline]
      in h_log ''version'' MINI_VISA_VERSION (if length body < 128 then h_write body c else c))"

definition handle_line :: "'g hctx \<Rightarrow> string \<Rightarrow> 'g conn \<Rightarrow> 'g conn option" where
  \<comment> \<open>one pass of the framing loop over the line, a C string, that starts at \<open>start\<close>\<close>
  "handle_line ctx raw c =
     (let line = skip isspace raw in
      if line = [] then Some (if http_collecting c then end_of_headers ctx c else c)
      else if is_secure_get line then
        Some (c\<lparr>http_collecting := True, http_is_secure_ping := True, http_is_secure_tx := False, http_authz := [],
                http_content_length := - 1\<rparr>)
      else if is_secure_post line then
        Some (c\<lparr>http_collecting := True, http_is_secure_ping := False, http_is_secure_tx := True, http_authz := [],
                http_content_length := - 1, http_body_remaining := 0, http_body := []\<rparr>)
      else if http_collecting c then Some (header_line line c)
      else if strncmp_eq line ''GET /healthz'' then Some (h_log ''healthz'' ''OK'' (h_write (''OK'' @ [newline]) c))
      else if strncmp_eq line ''GET /readyz'' then Some (route_ready ctx c)
      else if strncmp_eq line ''GET /metrics'' then Some (route_metrics c)
      else if strncmp_eq line ''GET /tx?'' then Some (route_tx ctx line c)
      else if strncmp_eq line ''GET /version'' then Some (route_version c)
      else
        (case process_line (h_pq ctx) (h_db ctx) line (c_world c) of
           None \<Rightarrow> None
         | Some w \<Rightarrow> Some (c\<lparr>c_world := w\<rparr>)))"

subsection \<open>Framing\<close>

function frame_lines :: "'g hctx \<Rightarrow> nat \<Rightarrow> 'g conn \<Rightarrow> (nat \<times> 'g conn) option" where
  \<comment> \<open>the loop over the complete lines from \<open>start\<close> on; returns the final \<open>start\<close>\<close>
  "frame_lines ctx start c =
     (let rest = drop start (c_buf c); raw = takeWhile (\<lambda>x. x \<noteq> newline) rest; nl = start + length raw in
      if nl < length (c_buf c) then
        (case handle_line ctx (cstr raw) (c\<lparr>c_buf := (c_buf c)[nl := nul]\<rparr>) of
           None \<Rightarrow> None
         | Some c' \<Rightarrow> frame_lines ctx (nl + 1) (c'\<lparr>c_buf := (c_buf c)[nl := nul]\<rparr>))
      else Some (start, c))"
  by pat_completeness auto
termination
  by (relation "measure (\<lambda>(ctx, start, c). length (c_buf c) - start)") auto

declare frame_lines.simps [simp del]

definition collect_body :: "nat \<Rightarrow> 'g conn \<Rightarrow> 'g conn" where
  \<comment> \<open>the bytes behind \<open>start\<close> that belong to the body, and the shift of what follows them\<close>
  "collect_body start c =
     (let raw = drop start (c_buf c) in
      if raw = [] then c
      else
        let n = (if int (length raw) > http_body_remaining c then nat (http_body_remaining c) else length raw);
            c = (if length (http_body c) + n \<le> BODY_SIZE
                 then c\<lparr>http_body := http_body c @ take n raw, http_body_remaining := http_body_remaining c - int n\<rparr>
                 else c\<lparr>http_body_remaining := 0\<rparr>)
        in c\<lparr>c_buf := drop n raw\<rparr>)"

definition finish_body :: "'g hctx \<Rightarrow> 'g conn \<Rightarrow> 'g conn option" where
  \<comment> \<open>NUL-terminate the body, process it and reset the body state\<close>
  "finish_body ctx c =
     (let body_len = (if length (http_body c) < BODY_SIZE then length (http_body c) else BODY_SIZE - 1) in
      case process_body (h_pq ctx) (h_db ctx) (cstr (take body_len (http_body c))) (c_world c) of
        None \<Rightarrow> None
      | Some w \<Rightarrow> Some (c\<lparr>c_world := w, http_is_secure_tx := False, http_body := [], http_content_length := - 1\<rparr>))"

definition after_lines :: "'g hctx \<Rightarrow> nat \<Rightarrow> 'g conn \<Rightarrow> (bool \<times> 'g conn) option" where
  \<comment> \<open>the end of the read loop; the flag says that the process died: the size of the final
      \<open>memmove\<close> is computed from a \<open>start\<close> that lies behind the end of the shifted buffer and wraps\<close>
  "after_lines ctx start c =
     (if http_body_remaining c > 0 then
        let c = collect_body start c in
        if http_body_remaining c = 0 \<and> http_is_secure_tx c then map_option (Pair False) (finish_body ctx c)
        else if length (c_buf c) < start then Some (True, h_sys (emit (Fault ''buf'' start)) c)
        else
          let b = drop start (c_buf c) in
          Some (False, c\<lparr>c_buf := (if length b = BUF_SIZE - 1 then [] else b)\<rparr>)
      else Some (False, c))"

fun chunk_size :: "read_result \<Rightarrow> nat" where
  "chunk_size (Bytes bs) = Suc (length bs)"
| "chunk_size _ = 1"

function read_loop :: "'g hctx \<Rightarrow> read_result list \<Rightarrow> 'g conn \<Rightarrow> (bool \<times> 'g conn) option" where
  \<comment> \<open>the flag of the result: whether the process died, which ends the loop and all that would follow it\<close>
  "read_loop ctx [] c = Some (False, c)"
| "read_loop ctx (Eintr # rs) c = read_loop ctx rs c"
| "read_loop ctx (Read_error # rs) c = Some (False, c)"
| "read_loop ctx (Eof # rs) c = Some (False, c)"
| "read_loop ctx (Bytes bs # rs) c =
     (let room = BUF_SIZE - 1 - length (c_buf c) in
      if room = 0 \<or> bs = [] then Some (False, c)
      else
        let c = c\<lparr>c_buf := c_buf c @ take room bs\<rparr>;
            rs = (if room < length bs then Bytes (drop room bs) # rs else rs) in
        (case frame_lines ctx 0 c of
           None \<Rightarrow> None
         | Some (start, c) \<Rightarrow>
             (case after_lines ctx start c of
                None \<Rightarrow> None
              | Some (died, c) \<Rightarrow> if died then Some (True, c) else read_loop ctx rs c)))"
  by pat_completeness auto
termination
  by (relation "measure (\<lambda>(ctx, rs, c). sum_list (map chunk_size rs))") auto

declare read_loop.simps(5) [simp del]

definition conn_start :: "'g world \<Rightarrow> 'g conn" where
  "conn_start w = \<lparr>c_world = w, c_buf = [], http_collecting = False, http_is_secure_ping = False,
     http_is_secure_tx = False, http_authz = [], http_content_length = - 1, http_body_remaining = 0, http_body = []\<rparr>"

datatype 'g job_end =
    Returned bool "'g world"
      \<comment> \<open>the handler returned to its worker; the flag: whether the thread has its coordinator\<close>
  | Killed "'g world"
      \<comment> \<open>the process died in the handler\<close>

definition handler_job ::
    "bool \<Rightarrow> bool \<Rightarrow> 'g hctx option \<Rightarrow> read_result list \<Rightarrow> bool \<Rightarrow> 'g world \<Rightarrow> 'g job_end option" where
  \<comment> \<open>\<open>has\<close>: whether the thread has its coordinator; the first two arguments are the outcomes of
      \<open>pthread_mutex_init\<close> and of opening the log in \<open>txn_coordinator_init\<close>\<close>
  "handler_job mutex_ok log_ok ctx reads has w =
     (case ctx of
        None \<Rightarrow> Some (Returned has w)
      | Some ctx \<Rightarrow>
          (case (if has then (Some (w_coord w), w_sys w) else txn_coordinator_init mutex_ok log_ok (w_sys w)) of
             (None, s) \<Rightarrow>
               Some (Returned False (w\<lparr>w_sys := logj ''ERROR'' ''handler'' None ''Failed to init 2PC coordinator'' s\<rparr>))
           | (Some co, s) \<Rightarrow>
               map_option (\<lambda>(died, c). if died then Killed (c_world c) else Returned True (c_world c))
                 (read_loop ctx reads (conn_start (w\<lparr>w_coord := co, w_sys := s\<rparr>)))))"

end
