(* ===== verification/Connection.thy ===== *)
theory Connection
  imports Handler
begin

section \<open>What a connection does\<close>

text \<open>
  Properties of \<open>handler_job\<close>: the framing of lines over several reads, the invariant of a worker
  thread over whole connections, the authenticated routes and the collection of POST bodies.
\<close>

subsection \<open>Framing\<close>

lemmas h_defs = h_sys_def h_write_def h_log_def http_reply_def

lemma handle_line_buf:
  "handle_line ctx raw (c\<lparr>c_buf := b\<rparr>) = map_option (\<lambda>c'. c'\<lparr>c_buf := b\<rparr>) (handle_line ctx raw c)"
proof -
  have "end_of_headers ctx (c\<lparr>c_buf := b\<rparr>) = (end_of_headers ctx c)\<lparr>c_buf := b\<rparr>"
    by (simp add: end_of_headers_def h_defs Let_def)
  moreover have "header_line l (c\<lparr>c_buf := b\<rparr>) = (header_line l c)\<lparr>c_buf := b\<rparr>" for l
    by (simp add: header_line_def)
  moreover have "route_ready ctx (c\<lparr>c_buf := b\<rparr>) = (route_ready ctx c)\<lparr>c_buf := b\<rparr>"
    "route_metrics (c\<lparr>c_buf := b\<rparr>) = (route_metrics c)\<lparr>c_buf := b\<rparr>"
    "route_tx ctx l (c\<lparr>c_buf := b\<rparr>) = (route_tx ctx l c)\<lparr>c_buf := b\<rparr>"
    "route_version (c\<lparr>c_buf := b\<rparr>) = (route_version c)\<lparr>c_buf := b\<rparr>" for l
    by (simp_all add: route_ready_def route_metrics_def route_tx_def route_version_def h_defs Let_def case_prod_beta)
  ultimately show ?thesis
    by (simp add: handle_line_def h_defs Let_def split: option.split)
qed

fun handle_lines :: "'g hctx \<Rightarrow> string list \<Rightarrow> 'g conn \<Rightarrow> 'g conn option" where
  \<comment> \<open>the lines one after the other\<close>
  "handle_lines ctx [] c = Some c"
| "handle_lines ctx (l # ls) c = (case handle_line ctx l c of None \<Rightarrow> None | Some c' \<Rightarrow> handle_lines ctx ls c')"

definition text_line :: "string \<Rightarrow> bool" where
  "text_line l \<longleftrightarrow> newline \<notin> set l \<and> nul \<notin> set l"

definition sent :: "string list \<Rightarrow> string" where
  "sent ls = concat (map (\<lambda>l. l @ [newline]) ls)"

definition kept :: "string list \<Rightarrow> string" where
  \<comment> \<open>what the framing loop leaves of the lines in the buffer\<close>
  "kept ls = concat (map (\<lambda>l. l @ [nul]) ls)"

lemma handle_lines_buf:
  "handle_lines ctx ls (c\<lparr>c_buf := b\<rparr>) = map_option (\<lambda>c'. c'\<lparr>c_buf := b\<rparr>) (handle_lines ctx ls c)"
  by (induction ls arbitrary: c) (simp_all add: handle_line_buf split: option.split)

lemma cstr_text: "text_line l \<Longrightarrow> cstr l = l"
  by (intro cstr_id) (simp add: text_line_def is_cstr_def)

lemma takeWhile_stop: "x \<notin> set xs \<Longrightarrow> takeWhile (\<lambda>y. y \<noteq> x) (xs @ x # ys) = xs"
  by (induction xs) auto

lemma frame_lines_sent:
  assumes "\<forall>l \<in> set ls. text_line l" and "newline \<notin> set rest" and "c_buf c = pre @ sent ls @ rest"
  shows "frame_lines ctx (length pre) c =
    map_option (\<lambda>c'. (length pre + length (sent ls), c'\<lparr>c_buf := pre @ kept ls @ rest\<rparr>)) (handle_lines ctx ls c)"
  using assms
proof (induction ls arbitrary: pre c)
  case Nil
  then have tw: "takeWhile (\<lambda>x. x \<noteq> newline) rest = rest" by (auto simp: takeWhile_eq_all_conv)
  from Nil show ?case by (subst frame_lines.simps) (simp add: sent_def kept_def tw Let_def)
next
  case (Cons l ls)
  have l: "text_line l" "newline \<notin> set l" using Cons.prems(1) by (auto simp: text_line_def)
  let ?b = "pre @ l @ nul # sent ls @ rest"
  have b: "c_buf c = pre @ l @ newline # sent ls @ rest" using Cons.prems(3) by (simp add: sent_def)
  have tw: "takeWhile (\<lambda>x. x \<noteq> newline) (drop (length pre) (c_buf c)) = l"
    using l(2) takeWhile_stop [of newline l] by (simp add: b)
  have up: "(c_buf c)[length pre + length l := nul] = ?b"
    by (simp add: b list_update_append)
  have st: "frame_lines ctx (length pre) c = (case handle_line ctx l c of None \<Rightarrow> None
      | Some c' \<Rightarrow> frame_lines ctx (length (pre @ l @ [nul])) (c'\<lparr>c_buf := ?b\<rparr>))"
    using tw up b
    by (simp add: frame_lines.simps [of ctx "length pre" c] cstr_text [OF l(1)] handle_line_buf split: option.split)
  show ?case
  proof (cases "handle_line ctx l c")
    case None
    with st show ?thesis by simp
  next
    case (Some c')
    have "frame_lines ctx (length (pre @ l @ [nul])) (c'\<lparr>c_buf := ?b\<rparr>) =
      map_option (\<lambda>c'. (length (pre @ l @ [nul]) + length (sent ls), c'\<lparr>c_buf := (pre @ l @ [nul]) @ kept ls @ rest\<rparr>))
        (handle_lines ctx ls (c'\<lparr>c_buf := ?b\<rparr>))"
      by (rule Cons.IH) (use Cons.prems in auto)
    with st Some show ?thesis
      by (simp add: handle_lines_buf option.map_comp comp_def sent_def kept_def add.assoc split: option.split)
  qed
qed


lemma frame_lines_first:
  \<comment> \<open>the first line of a read is taken together with what earlier reads left in the buffer\<close>
  assumes "\<forall>l \<in> set ls. text_line l" and "newline \<notin> set b" "newline \<notin> set m" and "c_buf c = b @ m @ newline # sent ls"
  shows "frame_lines ctx 0 c =
    map_option (\<lambda>c'. (length b + length (sent (m # ls)), c'\<lparr>c_buf := b @ kept (m # ls)\<rparr>))
      (handle_lines ctx (cstr (b @ m) # ls) c)"
proof -
  let ?b = "(b @ m @ [nul]) @ sent ls"
  have tw: "takeWhile (\<lambda>x. x \<noteq> newline) (c_buf c) = b @ m"
    using assms(2,3) takeWhile_stop [of newline "b @ m"] by (simp add: assms(4))
  have up: "(c_buf c)[length b + length m := nul] = ?b"
    by (simp add: assms(4) list_update_append)
  have st: "frame_lines ctx 0 c = (case handle_line ctx (cstr (b @ m)) c of None \<Rightarrow> None
      | Some c' \<Rightarrow> frame_lines ctx (length (b @ m @ [nul])) (c'\<lparr>c_buf := ?b\<rparr>))"
    using tw up assms(4)
    by (simp add: frame_lines.simps [of ctx 0 c] handle_line_buf split: option.split)
  have "frame_lines ctx (length (b @ m @ [nul])) (c'\<lparr>c_buf := ?b\<rparr>) =
      map_option (\<lambda>c'. (length (b @ m @ [nul]) + length (sent ls), c'\<lparr>c_buf := (b @ m @ [nul]) @ kept ls @ []\<rparr>))
        (handle_lines ctx ls (c'\<lparr>c_buf := ?b\<rparr>))" for c'
    by (rule frame_lines_sent) (use assms in auto)
  with st show ?thesis
    by (simp add: handle_lines_buf option.map_comp comp_def sent_def kept_def add.assoc split: option.split)
qed

definition plain_line :: "string \<Rightarrow> bool" where
  \<comment> \<open>a line that opens none of the authenticated HTTP routes\<close>
  "plain_line l \<longleftrightarrow> text_line l \<and> \<not> is_secure_get (skip isspace l) \<and> \<not> is_secure_post (skip isspace l)"

definition framing :: "'g conn \<Rightarrow> bool" where
  \<comment> \<open>outside an HTTP request\<close>
  "framing c \<longleftrightarrow> \<not> http_collecting c \<and> http_body_remaining c = 0"

lemma framing_buf [simp]: "framing (c\<lparr>c_buf := b\<rparr>) = framing c" "framing (c\<lparr>c_world := w\<rparr>) = framing c"
  by (simp_all add: framing_def)

lemma handle_plain: "plain_line l \<Longrightarrow> framing c \<Longrightarrow> handle_line ctx l c = Some c' \<Longrightarrow> framing c'"
  by (auto simp: handle_line_def plain_line_def framing_def h_defs route_ready_def route_metrics_def route_tx_def
        route_version_def Let_def case_prod_beta split: if_splits option.splits)

lemma handle_plains:
  "\<forall>l \<in> set ls. plain_line l \<Longrightarrow> framing c \<Longrightarrow> handle_lines ctx ls c = Some c' \<Longrightarrow> framing c'"
  by (induction ls arbitrary: c) (auto split: option.splits dest: handle_plain)

lemma after_lines_framing: "framing c \<Longrightarrow> after_lines ctx start c = Some (False, c)"
  by (simp add: after_lines_def framing_def)

lemma handle_lines_append:
  "handle_lines ctx (xs @ ys) c = (case handle_lines ctx xs c of None \<Rightarrow> None | Some c' \<Rightarrow> handle_lines ctx ys c')"
  by (induction xs arbitrary: c) (simp_all split: option.split)

lemma newline_kept: "\<forall>l \<in> set ls. text_line l \<Longrightarrow> newline \<notin> set (kept ls)"
  by (induction ls) (auto simp: kept_def text_line_def)

lemma length_kept [simp]: "length (kept ls) = length (sent ls)"
  by (induction ls) (simp_all add: kept_def sent_def)

lemma sent_ne [simp]: "sent (m # ms) \<noteq> []"
  by (simp add: sent_def)

lemma sent_Cons: "sent (l # ls) = l @ newline # sent ls" "kept (l # ls) = l @ nul # kept ls"
  by (simp_all add: sent_def kept_def)

lemma sent_append: "sent (xs @ ys) = sent xs @ sent ys"
  by (simp add: sent_def)

lemma read_sent:
  assumes "\<forall>l \<in> set (m # ms). plain_line l" "plain_line (cstr (c_buf c @ m))"
    and "framing c" "newline \<notin> set (c_buf c)" "length (c_buf c) + length (sent (m # ms)) < BUF_SIZE"
  shows "read_loop ctx (Bytes (sent (m # ms)) # rs) c =
    (case handle_lines ctx (cstr (c_buf c @ m) # ms) c of None \<Rightarrow> None
     | Some c' \<Rightarrow> read_loop ctx rs (c'\<lparr>c_buf := c_buf c @ kept (m # ms)\<rparr>))"
proof -
  let ?bs = "sent (m # ms)" and ?b = "c_buf c" and ?ls = "cstr (c_buf c @ m) # ms"
  let ?room = "BUF_SIZE - 1 - length ?b"
  have room: "length ?bs \<le> ?room" "?room \<noteq> 0" "?bs \<noteq> []"
    using assms(5) by (auto simp: sent_def)
  have "frame_lines ctx 0 (c\<lparr>c_buf := ?b @ ?bs\<rparr>) =
    map_option (\<lambda>c'. (length ?b + length ?bs, c'\<lparr>c_buf := ?b @ kept (m # ms)\<rparr>)) (handle_lines ctx ?ls (c\<lparr>c_buf := ?b @ ?bs\<rparr>))"
    by (rule frame_lines_first) (use assms in \<open>auto simp: plain_line_def text_line_def sent_def\<close>)
  also have "\<dots> = map_option (\<lambda>c'. (length ?b + length ?bs, c'\<lparr>c_buf := ?b @ kept (m # ms)\<rparr>)) (handle_lines ctx ?ls c)"
    by (simp only: handle_lines_buf option.map_comp comp_def) simp
  finally have fr: "frame_lines ctx 0 (c\<lparr>c_buf := ?b @ ?bs\<rparr>) = \<dots>" .
  have "read_loop ctx (Bytes ?bs # rs) c = (case frame_lines ctx 0 (c\<lparr>c_buf := ?b @ ?bs\<rparr>) of
      None \<Rightarrow> None
    | Some (start, c) \<Rightarrow> (case after_lines ctx start c of None \<Rightarrow> None
        | Some (died, c) \<Rightarrow> if died then Some (True, c) else read_loop ctx rs c))"
    using room by (simp add: read_loop.simps(5))
  moreover have "framing c'" if "handle_lines ctx ?ls c = Some c'" for c'
    using handle_plains [OF _ assms(3) that] assms(1,2) by simp
  ultimately show ?thesis
    unfolding fr by (cases "handle_lines ctx ?ls c") (simp_all add: after_lines_framing)
qed

lemma handle_lines_framing:
  "\<forall>l \<in> set ls. plain_line l \<Longrightarrow> framing c \<Longrightarrow> handle_lines ctx ls c = Some c' \<Longrightarrow> framing (c'\<lparr>c_buf := b\<rparr>)"
  by (simp add: handle_plains)

lemma read_later:
  \<comment> \<open>every later read handles the first line of the connection in place of its own first line\<close>
  assumes "\<forall>cs \<in> set css. cs \<noteq> [] \<and> (\<forall>k \<in> set cs. plain_line k)" "plain_line l"
    and "framing c" "c_buf c = l @ nul # t" "newline \<notin> set t" "length (c_buf c) + length (sent (concat css)) < BUF_SIZE"
  shows "map_option (apsnd c_world) (read_loop ctx (map (\<lambda>cs. Bytes (sent cs)) css) c) =
    map_option (\<lambda>c. (False, c_world c)) (handle_lines ctx (concat (map (\<lambda>cs. l # tl cs) css)) c)"
  using assms
proof (induction css arbitrary: c t)
  case (Cons cs css)
  then obtain m ms where cs: "cs = m # ms" by (cases cs) auto
  have l: "cstr (c_buf c @ m) = l" "newline \<notin> set (c_buf c)"
    using Cons.prems(2,4,5) by (auto simp: plain_line_def text_line_def is_cstr_def cstr_append_nul)
  have st: "read_loop ctx (Bytes (sent (m # ms)) # map (\<lambda>cs. Bytes (sent cs)) css) c =
    (case handle_lines ctx (l # ms) c of None \<Rightarrow> None
     | Some c' \<Rightarrow> read_loop ctx (map (\<lambda>cs. Bytes (sent cs)) css) (c'\<lparr>c_buf := c_buf c @ kept (m # ms)\<rparr>))"
  proof -
    have "length (c_buf c) + length (sent (m # ms)) < BUF_SIZE"
      using Cons.prems(6) sent_append [of "m # ms"] by (simp add: cs)
    then show ?thesis
      using read_sent [of m ms c ctx] l Cons.prems(1-3) by (simp add: cs del: handle_lines.simps)
  qed
  show ?case
  proof (cases "handle_lines ctx (l # ms) c")
    case None
    with st show ?thesis by (simp add: cs handle_lines_append [of ctx "l # ms", simplified] split: option.splits)
  next
    case (Some c')
    let ?c = "c'\<lparr>c_buf := c_buf c @ kept (m # ms)\<rparr>"
    have "framing c'" by (rule handle_plains [OF _ _ Some]) (use Cons.prems cs in auto)
    then have "map_option (apsnd c_world) (read_loop ctx (map (\<lambda>cs. Bytes (sent cs)) css) ?c) =
      map_option (\<lambda>c. (False, c_world c)) (handle_lines ctx (concat (map (\<lambda>cs. l # tl cs) css)) ?c)"
      by (intro Cons.IH [where t = "t @ kept (m # ms)"])
        (use Cons.prems cs newline_kept [of cs] sent_append [of "m # ms"] in \<open>auto simp: plain_line_def\<close>)
    with st Some show ?thesis
      by (simp add: cs handle_lines_append [of ctx "l # ms", simplified] handle_lines_buf option.map_comp comp_def)
  qed
qed simp

text \<open>
  C37. What one connection does with several reads of complete lines, none of which opens an
  authenticated route. The first read handles its lines once each, in order. The buffer is never
  emptied afterwards, because the statements that move the remainder stand inside the branch for
  POST bodies: every later read handles the first line of the connection again, in place of its own
  first line, and then its other lines; the process survives them. The claim holds while everything sent fits the buffer.
\<close>

theorem keepalive_repeats_first_line:
  assumes "\<forall>cs \<in> set ((l # ls) # css). cs \<noteq> [] \<and> (\<forall>k \<in> set cs. plain_line k)"
    and "length (sent (concat ((l # ls) # css))) < BUF_SIZE"
  shows "map_option (apsnd c_world) (read_loop ctx (map (\<lambda>cs. Bytes (sent cs)) ((l # ls) # css)) (conn_start w)) =
    map_option (\<lambda>c. (False, c_world c)) (handle_lines ctx (l # ls @ concat (map (\<lambda>cs. l # tl cs) css)) (conn_start w))"
proof -
  let ?c = "conn_start w" and ?rs = "map (\<lambda>cs. Bytes (sent cs)) css"
  have st: "framing ?c" "c_buf ?c = []" by (simp_all add: conn_start_def framing_def)
  have l: "cstr l = l" using assms(1) by (simp add: plain_line_def cstr_text)
  have len: "length (sent (l # ls)) + length (sent (concat css)) < BUF_SIZE"
    using assms(2) sent_append [of "l # ls"] by simp
  have "read_loop ctx (Bytes (sent (l # ls)) # ?rs) ?c =
    (case handle_lines ctx (l # ls) ?c of None \<Rightarrow> None
     | Some c' \<Rightarrow> read_loop ctx ?rs (c'\<lparr>c_buf := kept (l # ls)\<rparr>))"
    using read_sent [of l ls ?c ctx] assms(1) st l len by (simp del: handle_lines.simps cong: option.case_cong)
  moreover have "map_option (apsnd c_world) (read_loop ctx ?rs (c'\<lparr>c_buf := kept (l # ls)\<rparr>)) =
      map_option (\<lambda>c. (False, c_world c)) (handle_lines ctx (concat (map (\<lambda>cs. l # tl cs) css)) c')"
    if c': "handle_lines ctx (l # ls) ?c = Some c'" for c'
  proof -
    have "framing c'" by (rule handle_plains [OF _ st(1) c']) (use assms(1) in simp)
    then have "map_option (apsnd c_world) (read_loop ctx ?rs (c'\<lparr>c_buf := kept (l # ls)\<rparr>)) =
      map_option (\<lambda>c. (False, c_world c)) (handle_lines ctx (concat (map (\<lambda>cs. l # tl cs) css)) (c'\<lparr>c_buf := kept (l # ls)\<rparr>))"
      by (intro read_later [where t = "kept ls"])
        (use assms(1) len newline_kept [of ls] in \<open>auto simp: plain_line_def sent_Cons\<close>)
    then show ?thesis by (simp add: handle_lines_buf option.map_comp comp_def)
  qed
  ultimately show ?thesis
    by (cases "handle_lines ctx (l # ls) ?c")
      (simp_all add: handle_lines_append [of ctx "l # ls", simplified])
qed

subsection \<open>The worker thread\<close>

definition accounted :: "'g world \<Rightarrow> 'g world \<Rightarrow> bool" where
  \<comment> \<open>no context left over, nothing taken back from the trace, the new requests counted once more
      as approved or declined, and nothing else of the accept loop's state changed\<close>
  "accounted w w' \<longleftrightarrow> same_ctxs (w_sys w) (w_sys w') \<and> prefix (trace (w_sys w)) (trace (w_sys w')) \<and>
     (let m = metrics (w_sys w); m' = metrics (w_sys w') in
        g_total m' - g_total m = (g_approved m' - g_approved m) + (g_declined m' - g_declined m) \<and>
        g_server_busy m' = g_server_busy m) \<and>
     allocs (w_sys w) \<le> allocs (w_sys w')"

definition served :: "'g world \<Rightarrow> 'g world \<Rightarrow> bool" where
  "served w w' \<longleftrightarrow> idle w' \<and> accounted w w'"

lemma served_refl: "idle w \<Longrightarrow> served w w"
  by (simp add: served_def accounted_def same_ctxs_def)

lemma books_add:
  fixes t0 :: "'a :: ab_group_add"
  assumes "t1 - t0 = (a1 - a0) + (d1 - d0)" and "t2 - t1 = (a2 - a1) + (d2 - d1)"
  shows "t2 - t0 = (a2 - a0) + (d2 - d0)"
proof -
  have "t2 - t0 = (t2 - t1) + (t1 - t0)" by simp
  then show ?thesis unfolding assms by (simp add: algebra_simps)
qed

lemma accounted_trans: "accounted u v \<Longrightarrow> accounted v w \<Longrightarrow> accounted u w"
  unfolding accounted_def same_ctxs_def Let_def by (auto intro: prefix_order.trans books_add keeps_conns_trans)

lemma served_trans: "served u v \<Longrightarrow> served v w \<Longrightarrow> served u w"
  by (auto simp: served_def intro: accounted_trans)

lemma served_idle: "served w w' \<Longrightarrow> idle w'"
  by (simp add: served_def)

lemma served_answered: "answered w ws ok w' \<Longrightarrow> served w w'"
  by (auto simp: served_def accounted_def answered_def Let_def)

lemma served_within:
  assumes "idle w" and "within {} P (w_sys w) s"
  shows "served w (w\<lparr>w_sys := s\<rparr>)"
proof -
  have "grows P (w_sys w) s" using assms(2) by (simp add: within_def)
  then have "idle (w\<lparr>w_rev := w_rev w, w_sys := s\<rparr>)"
    using assms by (intro idle_within) (auto simp: idle_def intro: rev_ready_grows)
  with assms(2) show ?thesis
    by (auto simp: served_def accounted_def same_ctxs_def within_def grows_def tallies_def Let_def)
qed

definition everything :: "event \<Rightarrow> bool" where
  "everything e \<longleftrightarrow> True"

lemma within_everything: "within X P s t \<Longrightarrow> within X everything s t"
  by (auto simp: within_def grows_def everything_def list_all_iff)

lemma within_emit_any: "within X everything s t \<Longrightarrow> within X everything s (emit e t)"
  unfolding within_def by (auto intro: grows_emit simp: everything_def)

lemma within_logj_any: "within X everything s t \<Longrightarrow> within X everything s (logj l e r m t)"
  by (simp add: logj_def within_emit_any)

lemma db_get_tx_within: "within X everything s (snd (snd (db_get_tx_by_request_id pq d rid out sz s)))"
proof -
  have "within X everything s (snd (PQexecParams pq c q vs s))" for c q vs
    by (simp add: PQexecParams_def case_prod_beta Let_def withinI grows_intros everything_def)
  then show ?thesis
    by (auto simp: db_get_tx_by_request_id_def Let_def case_prod_beta within_refl split: option.split list.split)
qed

definition world_only :: "'g conn \<Rightarrow> 'g conn \<Rightarrow> bool" where
  \<comment> \<open>a route: only the process state of the connection's world changes\<close>
  "world_only c c' \<longleftrightarrow> (\<exists>s. within {} everything (w_sys (c_world c)) s \<and> c' = c\<lparr>c_world := (c_world c)\<lparr>w_sys := s\<rparr>\<rparr>)"

lemma world_only_served: "world_only c c' \<Longrightarrow> idle (c_world c) \<Longrightarrow> served (c_world c) (c_world c')"
  by (auto simp: world_only_def intro: served_within)

lemma world_only_refl: "world_only c c"
  by (auto simp: world_only_def intro!: exI [of _ "w_sys (c_world c)"] within_refl)

lemma world_only_write: "world_only c c' \<Longrightarrow> world_only c (h_write b c')"
  by (auto simp: world_only_def h_defs on_sys_def intro!: within_emit_any)

lemma world_only_log: "world_only c c' \<Longrightarrow> world_only c (h_log ev st c')"
  by (auto simp: world_only_def h_defs on_sys_def intro!: within_logj_any)

lemma world_only_reply: "world_only c c' \<Longrightarrow> world_only c (http_reply code why b c')"
  by (simp add: http_reply_def Let_def world_only_write)

lemma world_only_thread_get:
  "world_only c (c\<lparr>c_world := (c_world c)\<lparr>w_sys := snd (db_thread_get pq db (w_sys (c_world c)))\<rparr>\<rparr>)"
  unfolding world_only_def
  by (intro exI [of _ "snd (db_thread_get pq db (w_sys (c_world c)))"] conjI refl
      within_everything [OF db_thread_get_ctxs [OF prod.collapse [symmetric]]])

lemma world_only_tx:
  "world_only c (c\<lparr>c_world := (c_world c)\<lparr>w_sys := snd (snd (db_get_tx_by_request_id pq d rid out sz
     (snd (db_thread_get pq db (w_sys (c_world c))))))\<rparr>\<rparr>)"
  unfolding world_only_def
  by (intro exI [of _ "snd (snd (db_get_tx_by_request_id pq d rid out sz (snd (db_thread_get pq db (w_sys (c_world c))))))"]
      conjI refl within_trans [OF within_everything [OF db_thread_get_ctxs [OF prod.collapse [symmetric]]] db_get_tx_within])

lemmas world_only_intros = world_only_refl world_only_write world_only_log world_only_reply world_only_thread_get world_only_tx

lemma world_only_routes:
  "world_only c (route_ready ctx c)" "world_only c (route_metrics c)" "world_only c (route_tx ctx l c)"
  "world_only c (route_version c)"
  by (simp_all add: route_ready_def route_metrics_def route_tx_def route_version_def Let_def case_prod_beta world_only_intros)

lemma end_of_headers_world: "\<exists>c'. world_only c c' \<and> c_world (end_of_headers ctx c) = c_world c'"
proof -
  have "c_world (end_of_headers ctx c) \<in> c_world ` {c, http_reply 200 ''OK'' (''{\"ok\":true}'' @ [newline]) c,
     http_reply 401 ''Unauthorized'' (''{\"error\":\"unauthorized\"}'' @ [newline]) c,
     http_reply 400 ''Bad Request'' (''{\"error\":\"bad_content_length\"}'' @ [newline]) c}"
    by (simp add: end_of_headers_def Let_def)
  then show ?thesis by (auto intro: world_only_intros)
qed

lemma handle_line_served:
  assumes "idle (c_world c)"
  shows "\<exists>c'. handle_line ctx l c = Some c' \<and> served (c_world c) (c_world c')"
proof -
  obtain w b ok where w: "process_line (h_pq ctx) (h_db ctx) (skip isspace l) (c_world c) = Some w"
    "answered (c_world c) [Write b] ok w"
    using both_pipelines [OF assms, of "h_pq ctx" "h_db ctx" "skip isspace l"] by blast
  have "served (c_world c) (c_world (end_of_headers ctx c))"
    using end_of_headers_world [of c ctx] world_only_served assms by metis
  moreover have "c_world (header_line k c) = c_world c" for k by (simp add: header_line_def)
  moreover have "served (c_world c) (c_world c')" if "world_only c c'" for c'
    using that assms by (rule world_only_served)
  ultimately show ?thesis
    using w served_answered [OF w(2)] served_refl [OF assms]
    by (simp add: handle_line_def Let_def world_only_routes world_only_intros)
qed

lemma frame_lines_served:
  assumes "idle (c_world c)"
  shows "\<exists>k c'. frame_lines ctx start c = Some (k, c') \<and> served (c_world c) (c_world c')"
  using assms
proof (induction ctx start c rule: frame_lines.induct)
  case (1 ctx start c)
  let ?raw = "takeWhile (\<lambda>x. x \<noteq> newline) (drop start (c_buf c))"
  let ?b = "(c_buf c)[start + length ?raw := nul]"
  show ?case
  proof (cases "start + length ?raw < length (c_buf c)")
    case True
    obtain c1 where c1: "handle_line ctx (cstr ?raw) (c\<lparr>c_buf := ?b\<rparr>) = Some c1" "served (c_world c) (c_world c1)"
      using handle_line_served [of "c\<lparr>c_buf := ?b\<rparr>" ctx "cstr ?raw"] "1.prems" by auto
    have "\<exists>k c'. frame_lines ctx (start + length ?raw + 1) (c1\<lparr>c_buf := ?b\<rparr>) = Some (k, c') \<and>
        served (c_world (c1\<lparr>c_buf := ?b\<rparr>)) (c_world c')"
      by (rule "1.IH" [OF refl refl refl True c1(1)]) (use served_idle [OF c1(2)] in simp)
    with True c1 show ?thesis
      by (subst frame_lines.simps) (auto simp: Let_def intro: served_trans)
  next
    case False
    then show ?thesis
      using served_refl [OF "1.prems"] by (subst frame_lines.simps) (simp add: Let_def)
  qed
qed

lemma finish_body_served:
  assumes "idle (c_world c)"
  shows "\<exists>c'. finish_body ctx c = Some c' \<and> served (c_world c) (c_world c')"
proof -
  let ?t = "cstr (take (if length (http_body c) < BODY_SIZE then length (http_body c) else BODY_SIZE - 1) (http_body c))"
  obtain code why b v ok where v: "body_decide (h_pq ctx) (h_db ctx) ?t (request_counted (c_world c)) = Some ((code, why, b), v)"
    "reply_ok (code, why, b)" "answered (c_world c) [] ok v"
    using both_pipelines [OF assms, of "h_pq ctx" "h_db ctx" ?t] by (metis (no_types, lifting))
  have "process_body (h_pq ctx) (h_db ctx) ?t (c_world c) = Some (emit_reply (code, why, b) v)"
    using v(1) by (simp add: process_body_def request_counted_def gettimeofday_def)
  then show ?thesis
    using served_answered [OF emit_reply_answered [OF v(2,3)]] by (simp add: finish_body_def)
qed

lemma after_lines_served:
  assumes "idle (c_world c)"
  shows "\<exists>died c'. after_lines ctx start c = Some (died, c') \<and> served (c_world c) (c_world c')"
proof -
  let ?c = "collect_body start c"
  have w: "c_world ?c = c_world c" by (simp add: collect_body_def Let_def)
  obtain c' where "finish_body ctx ?c = Some c'" "served (c_world c) (c_world c')"
    using finish_body_served [of ?c ctx] assms w by auto
  moreover have "served (c_world c) (c_world (h_sys (emit e) ?c))" for e
    using served_within [OF assms within_emit_any [OF within_refl]] by (simp add: h_sys_def on_sys_def w)
  ultimately show ?thesis
    using served_refl [OF assms] w by (auto simp: after_lines_def Let_def)
qed

lemma read_loop_served:
  assumes "idle (c_world c)"
  shows "\<exists>died c'. read_loop ctx rs c = Some (died, c') \<and> served (c_world c) (c_world c')"
  using assms
proof (induction ctx rs c rule: read_loop.induct)
  case (5 ctx bs rs c)
  let ?room = "BUF_SIZE - 1 - length (c_buf c)"
  show ?case
  proof (cases "?room = 0 \<or> bs = []")
    case False
    let ?c = "c\<lparr>c_buf := c_buf c @ take ?room bs\<rparr>"
    obtain k c1 where c1: "frame_lines ctx 0 ?c = Some (k, c1)" "served (c_world c) (c_world c1)"
      using frame_lines_served [of ?c ctx 0] "5.prems" by auto
    obtain died c2 where c2: "after_lines ctx k c1 = Some (died, c2)" "served (c_world c1) (c_world c2)"
      using after_lines_served [OF served_idle [OF c1(2)]] by blast
    note s = served_trans [OF c1(2) c2(2)]
    show ?thesis
    proof (cases died)
      case True
      with False c1 c2 s show ?thesis by (intro exI [of _ True] exI [of _ c2]) (simp add: read_loop.simps(5))
    next
      case nd: False
      let ?rs = "if ?room < length bs then Bytes (drop ?room bs) # rs else rs"
      have "read_loop ctx (Bytes bs # rs) c = read_loop ctx ?rs c2"
        using False c1 c2 nd by (subst read_loop.simps(5)) (simp add: Let_def)
      moreover have "\<exists>died c'. read_loop ctx ?rs c2 = Some (died, c') \<and> served (c_world c2) (c_world c')"
        by (rule "5.IH" [OF refl False refl refl c1(1) refl c2(1) refl nd served_idle [OF c2(2)]])
      ultimately show ?thesis using served_trans [OF s] by auto
    qed
  next
    case True
    then have "read_loop ctx (Bytes bs # rs) c = Some (False, c)" by (simp add: read_loop.simps(5) Let_def)
    then show ?thesis using served_refl [OF "5.prems"] by blast
  qed
qed (auto intro: served_refl)


definition worker_ok :: "bool \<Rightarrow> 'g world \<Rightarrow> bool" where
  \<comment> \<open>a worker thread between two connections; it may not have its coordinator yet\<close>
  "worker_ok has w \<longleftrightarrow> (has \<longrightarrow> empty_table (w_coord w)) \<and> fresh_ctxs (w_sys w) \<and> rev_ready (w_rev w) (w_sys w)"

lemma served_split: "served w w' \<longleftrightarrow> worker_ok True w' \<and> accounted w w'"
  by (auto simp: served_def worker_ok_def idle_def)

lemma accounted_within: "within {} P (w_sys w) (w_sys v) \<Longrightarrow> accounted w v"
  by (auto simp: accounted_def same_ctxs_def within_def grows_def tallies_def Let_def)

lemma worker_ok_within:
  assumes "worker_ok has w" and "within {} P (w_sys w) (w_sys v)" and "w_rev v = w_rev w" and "h \<Longrightarrow> empty_table (w_coord v)"
  shows "worker_ok h v"
  using assms fresh_ctxs_within [OF _ assms(2)] rev_ready_grows [of "w_rev w" "w_sys w" P "w_sys v"]
  by (auto simp: worker_ok_def within_def)

lemma coordinator_init_within:
  "within {} plain s (snd (txn_coordinator_init m l s))"
  "fst (txn_coordinator_init m l s) = Some c \<Longrightarrow> empty_table c"
  for s :: "('g, 'a) dsys_scheme"
  by (auto simp: txn_coordinator_init_def malloc_def logj_def empty_table_def Let_def
      intro!: withinI grows_emit grows_same [OF grows_refl] split: if_splits)

definition no_token :: "'g hctx \<Rightarrow> bool" where
  \<comment> \<open>without a configured token no request is authorized\<close>
  "no_token ctx \<longleftrightarrow> api_token ctx = None \<or> api_token ctx = Some []"

definition overran :: "'g world \<Rightarrow> bool" where
  \<comment> \<open>the last event is the access far beyond the connection's buffer\<close>
  "overran w \<longleftrightarrow> (\<exists>es n. trace (w_sys w) = es @ [Fault ''buf'' n])"

lemma no_token_no_body:
  assumes "no_token ctx" "http_body_remaining c = 0"
  shows "http_body_remaining (end_of_headers ctx c) = 0"
    and "handle_line ctx l c = Some c' \<Longrightarrow> http_body_remaining c' = 0"
proof -
  have "\<not> authorized (api_token ctx) a" for a using assms(1) by (auto simp: no_token_def authorized_def)
  then show e: "http_body_remaining (end_of_headers ctx c) = 0"
    using assms(2) by (simp add: end_of_headers_def http_reply_def h_defs Let_def)
  have w: "http_body_remaining v = 0" if "world_only c v" for v using that assms(2) by (auto simp: world_only_def)
  have "http_body_remaining (header_line k c) = 0" for k using assms(2) by (simp add: header_line_def)
  moreover have "http_body_remaining (h_log ev st (h_write b c)) = 0" for ev st b
    by (rule w [OF world_only_log [OF world_only_write [OF world_only_refl]]])
  moreover have "pred_option (\<lambda>c'. http_body_remaining c' = 0)
      (case process_line (h_pq ctx) (h_db ctx) (skip isspace l) (c_world c) of None \<Rightarrow> None | Some w \<Rightarrow> Some (c\<lparr>c_world := w\<rparr>))"
    using assms(2) by (cases "process_line (h_pq ctx) (h_db ctx) (skip isspace l) (c_world c)") simp_all
  ultimately have "pred_option (\<lambda>c'. http_body_remaining c' = 0) (handle_line ctx l c)"
    using e assms(2) w [OF world_only_routes(1), of ctx] w [OF world_only_routes(2)] w [OF world_only_routes(3), of ctx] w [OF world_only_routes(4)]
    unfolding handle_line_def Let_def by (simp cong: if_weak_cong)
  then show "http_body_remaining c' = 0" if "handle_line ctx l c = Some c'" using that by simp
qed

lemma no_token_frame:
  assumes "no_token ctx" "http_body_remaining c = 0" "frame_lines ctx start c = Some (k, c')"
  shows "http_body_remaining c' = 0"
  using assms
proof (induction ctx start c rule: frame_lines.induct)
  case (1 ctx start c)
  let ?raw = "takeWhile (\<lambda>x. x \<noteq> newline) (drop start (c_buf c))"
  let ?b = "(c_buf c)[start + length ?raw := nul]"
  show ?case
  proof (cases "start + length ?raw < length (c_buf c)")
    case True
    with "1.prems"(3) obtain c1 where c1: "handle_line ctx (cstr ?raw) (c\<lparr>c_buf := ?b\<rparr>) = Some c1"
      and r: "frame_lines ctx (start + length ?raw + 1) (c1\<lparr>c_buf := ?b\<rparr>) = Some (k, c')"
      by (subst (asm) frame_lines.simps) (auto simp: Let_def split: option.splits)
    have "http_body_remaining (c1\<lparr>c_buf := ?b\<rparr>) = 0"
      using no_token_no_body(2) [OF "1.prems"(1) _ c1] "1.prems"(2) by simp
    from "1.IH" [OF refl refl refl True c1 "1.prems"(1) this r] show ?thesis .
  next
    case False
    with "1.prems"(2,3) show ?thesis by (subst (asm) frame_lines.simps) (auto simp: Let_def)
  qed
qed

lemma after_lines_died:
  "after_lines ctx start c = Some (True, c') \<Longrightarrow> http_body_remaining c > 0 \<and> overran (c_world c')"
  by (auto simp: after_lines_def overran_def h_sys_def on_sys_def emit_def Let_def split: if_splits)

lemma read_loop_died:
  assumes "read_loop ctx rs c = Some (True, c')"
  shows "overran (c_world c') \<and> (http_body_remaining c = 0 \<longrightarrow> \<not> no_token ctx)"
  using assms
proof (induction ctx rs c rule: read_loop.induct)
  case (5 ctx bs rs c)
  let ?room = "BUF_SIZE - 1 - length (c_buf c)"
  let ?c = "c\<lparr>c_buf := c_buf c @ take ?room bs\<rparr>"
  let ?rs = "if ?room < length bs then Bytes (drop ?room bs) # rs else rs"
  have go: "\<not> (?room = 0 \<or> bs = [])"
  proof
    assume "?room = 0 \<or> bs = []"
    with "5.prems" show False unfolding read_loop.simps(5) Let_def by (simp only: if_True option.inject prod.inject)
  qed
  obtain k c1 died c2 where c1: "frame_lines ctx 0 ?c = Some (k, c1)" and c2: "after_lines ctx k c1 = Some (died, c2)"
    and e: "(if died then Some (True, c2) else read_loop ctx ?rs c2) = Some (True, c')"
  proof -
    have eq: "(case frame_lines ctx 0 ?c of None \<Rightarrow> None | Some (k, c1) \<Rightarrow> (case after_lines ctx k c1 of None \<Rightarrow> None
        | Some (died, c2) \<Rightarrow> if died then Some (True, c2) else read_loop ctx ?rs c2)) = Some (True, c')"
      using "5.prems" unfolding read_loop.simps(5) Let_def if_not_P [OF go] .
    obtain k c1 where c1: "frame_lines ctx 0 ?c = Some (k, c1)" using eq by (cases "frame_lines ctx 0 ?c") auto
    obtain died c2 where c2: "after_lines ctx k c1 = Some (died, c2)" using eq c1 by (cases "after_lines ctx k c1") auto
    from eq show thesis unfolding c1 c2 option.case prod.case by (rule that [OF c1 c2])
  qed
  have nt: "http_body_remaining c1 = 0" if "http_body_remaining c = 0" "no_token ctx"
    using no_token_frame [OF that(2) _ c1] that(1) by simp
  show ?case
  proof (cases died)
    case True
    with e c2 after_lines_died nt show ?thesis by fastforce
  next
    case False
    with "5.IH" [OF refl go refl refl c1 refl c2 refl] e
    have ih: "overran (c_world c')" "http_body_remaining c2 = 0 \<longrightarrow> \<not> no_token ctx" by auto
    have "c2 = c1" if "http_body_remaining c1 = 0" using c2 that by (simp add: after_lines_def)
    with ih nt show ?thesis by auto
  qed
qed auto

fun accounts :: "'g world \<Rightarrow> 'g job_end \<Rightarrow> bool" where
  \<comment> \<open>how a connection may end: the worker is ready for the next one, or the process died of an overrun\<close>
  "accounts w (Returned has' w') \<longleftrightarrow> worker_ok has' w' \<and> accounted w w'"
| "accounts w (Killed w') \<longleftrightarrow> accounted w w' \<and> overran w'"

lemma handler_job_accounts:
  assumes "worker_ok has w"
  shows "\<exists>e. handler_job mutex_ok log_ok ctx reads has w = Some e \<and> accounts w e \<and>
    (\<forall>w'. e = Killed w' \<longrightarrow> (\<exists>x. ctx = Some x \<and> \<not> no_token x))"
proof (cases ctx)
  case None
  with assms show ?thesis by (auto simp: handler_job_def accounted_def same_ctxs_def)
next
  case (Some x)
  let ?i = "if has then (Some (w_coord w), w_sys w) else txn_coordinator_init mutex_ok log_ok (w_sys w)"
  have i: "within {} everything (w_sys w) (snd ?i)" "fst ?i = Some c \<Longrightarrow> empty_table c" for c
    using assms within_everything [OF coordinator_init_within(1)] coordinator_init_within(2) within_refl
    by (auto simp: worker_ok_def split: if_splits)
  show ?thesis
  proof (cases "fst ?i")
    case None
    let ?v = "w\<lparr>w_sys := logj ''ERROR'' ''handler'' None ''Failed to init 2PC coordinator'' (snd ?i)\<rparr>"
    have v: "within {} everything (w_sys w) (w_sys ?v)" using within_logj_any [OF i(1)] by simp
    have "handler_job mutex_ok log_ok ctx reads has w = Some (Returned False ?v)"
      using None by (simp add: handler_job_def Some case_prod_beta split: if_splits)
    moreover have "worker_ok False ?v" using worker_ok_within [OF assms v, of False] by simp
    ultimately show ?thesis using accounted_within [OF v] by simp
  next
    case co: (Some co)
    let ?v = "w\<lparr>w_coord := co, w_sys := snd ?i\<rparr>"
    have v: "within {} everything (w_sys w) (w_sys ?v)" using i(1) by simp
    have "worker_ok True ?v" using worker_ok_within [OF assms v] i(2) [OF co] by simp
    then have "idle ?v" by (simp add: worker_ok_def idle_def)
    then obtain died c where c: "read_loop x reads (conn_start ?v) = Some (died, c)" "served ?v (c_world c)"
      using read_loop_served [of "conn_start ?v" x reads] by (auto simp: conn_start_def)
    have h: "handler_job mutex_ok log_ok ctx reads has w = Some (if died then Killed (c_world c) else Returned True (c_world c))"
      using c(1) co by (simp add: handler_job_def Some case_prod_beta split: if_splits)
    have a: "accounted w (c_world c)" "worker_ok True (c_world c)"
      using accounted_trans [OF accounted_within [OF v]] c(2) by (simp_all add: served_split)
    have "overran (c_world c) \<and> \<not> no_token x" if died
      using read_loop_died [of x reads "conn_start ?v" c] c(1) that by (simp add: conn_start_def)
    with h a Some show ?thesis by simp
  qed
qed

type_synonym 'g job_args = "bool \<times> bool \<times> 'g hctx option \<times> read_result list"

fun worker_jobs :: "'g job_args list \<Rightarrow> bool \<Rightarrow> 'g world \<Rightarrow> 'g job_end option" where
  \<comment> \<open>the connections that one worker thread of the pool takes, one after the other, while the process lives\<close>
  "worker_jobs [] has w = Some (Returned has w)"
| "worker_jobs ((m, l, ctx, reads) # js) has w =
     (case handler_job m l ctx reads has w of
        None \<Rightarrow> None
      | Some (Returned has w) \<Rightarrow> worker_jobs js has w
      | Some (Killed w) \<Rightarrow> Some (Killed w))"

text \<open>
  C4. What a worker thread does with a sequence of connections, whatever bytes, interruptions and errors the reads
  deliver. Either each connection is processed to its end and the worker is ready for the next
  one (no transaction in its table, no context beyond the addresses in use, a well-formed queue of
  reversals); or one of them, on a server with a configured token, makes the handler reach beyond its buffer:
  the connections before it were processed, the process dies there and no later connection is served. Either way no
  participant context is left over, the worker opened at most one database connection, the one
  in its slot of the thread-specific key, and every request counted was counted once more
  as approved or as declined. A failed initialisation of the coordinator only costs the connection.
\<close>

theorem worker_serves_until_killed:
  assumes "worker_ok has w"
  shows "(\<exists>has' w'. worker_jobs js has w = Some (Returned has' w') \<and> worker_ok has' w' \<and> accounted w w') \<or>
    (\<exists>js1 m l x reads js2 has1 w1 w'. js = js1 @ (m, l, Some x, reads) # js2 \<and> \<not> no_token x \<and>
       worker_jobs js1 has w = Some (Returned has1 w1) \<and> worker_ok has1 w1 \<and>
       handler_job m l (Some x) reads has1 w1 = Some (Killed w') \<and> worker_jobs js has w = Some (Killed w') \<and>
       accounted w w' \<and> overran w')"
  using assms
proof (induction js arbitrary: has w)
  case Nil
  then show ?case by (simp add: accounted_def same_ctxs_def)
next
  case (Cons j js)
  obtain m l ctx reads where j: "j = (m, l, ctx, reads)" by (cases j)
  obtain e where e: "handler_job m l ctx reads has w = Some e" "accounts w e"
    "\<forall>w'. e = Killed w' \<longrightarrow> (\<exists>x. ctx = Some x \<and> \<not> no_token x)"
    using handler_job_accounts [OF Cons.prems] by blast
  show ?case
  proof (cases e)
    case (Killed v)
    then obtain x where "ctx = Some x" "\<not> no_token x" using e(3) by blast
    moreover have "j # js = [] @ (m, l, Some x, reads) # js" "worker_jobs [] has w = Some (Returned has w)"
      "handler_job m l (Some x) reads has w = Some (Killed v)" "worker_jobs (j # js) has w = Some (Killed v)"
      "accounted w v" "overran v"
      using e(1,2) Killed \<open>ctx = Some x\<close> by (simp_all add: j)
    ultimately show ?thesis using Cons.prems by blast
  next
    case (Returned h v)
    then have v: "worker_ok h v" "accounted w v" using e(2) by simp_all
    from Cons.IH [OF v(1)] show ?thesis
    proof (elim disjE exE conjE)
      fix has' w' assume "worker_jobs js h v = Some (Returned has' w')" "worker_ok has' w'" "accounted v w'"
      with accounted_trans [OF v(2)] e(1) Returned show ?thesis by (simp add: j)
    next
      fix js1 m' l' x reads' js2 has1 w1 w'
      assume a: "js = js1 @ (m', l', Some x, reads') # js2" "\<not> no_token x" "worker_jobs js1 h v = Some (Returned has1 w1)"
        "worker_ok has1 w1" "handler_job m' l' (Some x) reads' has1 w1 = Some (Killed w')"
        "worker_jobs js h v = Some (Killed w')" "accounted v w'" "overran w'"
      have "accounted w w'" using accounted_trans [OF v(2) a(7)] .
      moreover have "j # js = (j # js1) @ (m', l', Some x, reads') # js2" "worker_jobs (j # js1) has w = Some (Returned has1 w1)"
        "worker_jobs (j # js) has w = Some (Killed w')"
        using a(1,3,6) e(1) Returned by (simp_all add: j)
      ultimately show ?thesis using a(2,4,5,8) by blast
    qed
  qed
qed

subsection \<open>The authenticated routes\<close>

definition opens :: "string \<Rightarrow> bool" where
  "opens l \<longleftrightarrow> is_secure_get (skip isspace l) \<or> is_secure_post (skip isspace l)"

definition header_text :: "string \<Rightarrow> bool" where
  "header_text l \<longleftrightarrow> skip isspace l \<noteq> [] \<and> \<not> opens l"

definition presents :: "string option \<Rightarrow> string \<Rightarrow> bool" where
  \<comment> \<open>the line is an Authorization header that carries the token\<close>
  "presents t l \<longleftrightarrow> strncasecmp_eq (skip isspace l) ''Authorization:'' \<and>
     authorized t (clip 256 (skip_blanks (drop 14 (skip isspace l))))"

definition unauthorized_reply :: string where
  "unauthorized_reply =
     (let b = ''{\"error\":\"unauthorized\"}'' @ [newline] in http_head 401 ''Unauthorized'' (length b) @ b)"

lemma unauthorized_reply_fits: "length unauthorized_reply < 256"
  by code_simp

lemma skip_opens: "opens l \<Longrightarrow> skip isspace l \<noteq> []"
  by (auto simp: opens_def is_secure_get_def is_secure_post_def strncmp_eq_def)

lemma handle_headers:
  "\<forall>h \<in> set hs. header_text h \<Longrightarrow> http_collecting c \<Longrightarrow>
    handle_lines ctx (hs @ ls) c = handle_lines ctx ls (fold header_line (map (skip isspace) hs) c)"
proof (induction hs arbitrary: c)
  case (Cons h hs)
  have "http_collecting (header_line (skip isspace h) c)" using Cons.prems(2) by (simp add: header_line_def)
  moreover have "handle_line ctx h c = Some (header_line (skip isspace h) c)"
    using Cons.prems by (simp add: handle_line_def header_text_def opens_def)
  ultimately show ?case using Cons by simp
qed simp

lemma fold_header_keeps:
  "http_collecting (fold header_line ls c) = http_collecting c"
  "http_is_secure_ping (fold header_line ls c) = http_is_secure_ping c"
  "http_is_secure_tx (fold header_line ls c) = http_is_secure_tx c"
  "http_body_remaining (fold header_line ls c) = http_body_remaining c"
  "http_body (fold header_line ls c) = http_body c"
  "c_world (fold header_line ls c) = c_world c" "c_buf (fold header_line ls c) = c_buf c"
  by (induction ls arbitrary: c) (simp_all add: header_line_def)

lemma fold_header_authz:
  assumes "\<not> authorized t (http_authz c)"
    and "\<forall>l \<in> set ls. strncasecmp_eq l ''Authorization:'' \<longrightarrow> \<not> authorized t (clip 256 (skip_blanks (drop 14 l)))"
  shows "\<not> authorized t (http_authz (fold header_line ls c))"
  using assms by (induction ls arbitrary: c) (simp_all add: header_line_def)

lemma authorized_Nil [simp]: "\<not> authorized t []"
  by (auto simp: authorized_def split: option.split list.split)

lemma end_unauthorized:
  assumes "http_collecting c" "http_is_secure_ping c \<or> http_is_secure_tx c" "\<not> authorized (api_token ctx) (http_authz c)"
  shows "end_of_headers ctx c =
    (h_write unauthorized_reply c)\<lparr>http_collecting := False, http_is_secure_ping := False, http_authz := []\<rparr>"
  using assms unauthorized_reply_fits
  by (simp add: end_of_headers_def http_reply_def unauthorized_reply_def Let_def)

definition turned_away :: "'g conn \<Rightarrow> 'g conn \<Rightarrow> bool" where
  \<comment> \<open>exactly the answer 401 was sent, and the connection frames lines again: it is not closed, and nothing that
      follows on it, the body of the refused request included, is skipped\<close>
  "turned_away c c' \<longleftrightarrow> c_world c' = on_sys (emit (Write unauthorized_reply)) (c_world c) \<and> framing c'"

lemma request_refused:
  assumes "opens req" "\<forall>h \<in> set hs. header_text h" "skip isspace bl = []"
    and "\<forall>h \<in> set hs. \<not> presents (api_token ctx) h" "framing c"
  shows "\<exists>c'. handle_lines ctx (req # hs @ [bl]) c = Some c' \<and> turned_away c c'"
proof -
  obtain c1 where c1: "handle_line ctx req c = Some c1" "http_collecting c1" "http_authz c1 = []"
    "http_is_secure_ping c1 \<or> http_is_secure_tx c1" "http_body_remaining c1 = 0" "c_world c1 = c_world c"
    using assms(5) skip_opens [OF assms(1)] assms(1)
    by (cases "is_secure_get (skip isspace req)") (simp_all add: handle_line_def opens_def framing_def)
  let ?c = "fold header_line (map (skip isspace) hs) c1"
  have a: "\<not> authorized (api_token ctx) (http_authz ?c)"
    by (rule fold_header_authz) (use c1(3) assms(4) in \<open>auto simp: presents_def\<close>)
  have "handle_lines ctx (req # hs @ [bl]) c = Some (end_of_headers ctx ?c)"
    using c1(1,2) handle_headers [OF assms(2) c1(2), of ctx "[bl]"] assms(3)
    by (simp add: handle_line_def fold_header_keeps)
  moreover have "turned_away c (end_of_headers ctx ?c)"
    using c1 end_unauthorized [of ?c ctx] a by (simp add: turned_away_def fold_header_keeps framing_def h_defs)
  ultimately show ?thesis by blast
qed

definition payment_line :: "string \<Rightarrow> bool" where
  \<comment> \<open>a line that is none of the handler's routes and so goes to the payment pipeline\<close>
  "payment_line l \<longleftrightarrow> plain_line l \<and> skip isspace l \<noteq> [] \<and>
     (\<forall>r \<in> {''GET /healthz'', ''GET /readyz'', ''GET /metrics'', ''GET /tx?'', ''GET /version''}. \<not> strncmp_eq (skip isspace l) r)"

lemma handle_payment:
  "payment_line l \<Longrightarrow> \<not> http_collecting c \<Longrightarrow>
    handle_line ctx l c = map_option (\<lambda>w. c\<lparr>c_world := w\<rparr>) (process_line (h_pq ctx) (h_db ctx) (skip isspace l) (c_world c))"
  by (simp add: handle_line_def payment_line_def plain_line_def Let_def split: option.split)

text \<open>
  C30. What a request to \<open>/secure/ping\<close> or \<open>/secure/tx\<close> gets none of whose header lines presents the configured
  token (without a configured token: every request). Its request line, headers and blank line are answered with 401, with no
  other write, no counter and no transaction. But the connection stays open and frames lines again: whatever lines follow
  are handled as if they came first after that answer, and in particular a payment line, such as the body of the
  refused POST with a newline at its end, is processed as a payment although nobody presented a token.
\<close>

theorem secure_routes_need_token:
  assumes "opens req" "\<forall>h \<in> set hs. header_text h" "skip isspace bl = []"
    and "\<forall>h \<in> set hs. \<not> presents (api_token ctx) h" "framing c"
  shows "\<exists>c'. turned_away c c' \<and> (\<forall>ls. handle_lines ctx (req # hs @ bl # ls) c = handle_lines ctx ls c') \<and>
    (\<forall>l. payment_line l \<longrightarrow> map_option c_world (handle_lines ctx (req # hs @ [bl, l]) c) =
       process_line (h_pq ctx) (h_db ctx) (skip isspace l) (on_sys (emit (Write unauthorized_reply)) (c_world c)))"
proof -
  obtain c' where c': "handle_lines ctx (req # hs @ [bl]) c = Some c'" "turned_away c c'"
    using request_refused [OF assms] by blast
  have after: "handle_lines ctx (req # hs @ bl # ls) c = handle_lines ctx ls c'" for ls
    using handle_lines_append [of ctx "req # hs @ [bl]" ls c] c'(1) by simp
  have "map_option c_world (handle_lines ctx [l] c') =
      process_line (h_pq ctx) (h_db ctx) (skip isspace l) (on_sys (emit (Write unauthorized_reply)) (c_world c))" if "payment_line l" for l
    using handle_payment [OF that, of c' ctx] c'(2)
    by (simp add: turned_away_def framing_def option.map_comp comp_def option.map_ident split: option.split)
  with c'(2) after show ?thesis by auto
qed

lemma suffix_skip: "suffix (skip P s) s"
  by (simp add: skip_dropWhile suffix_dropWhile)

lemma suffix_last: "suffix t s \<Longrightarrow> t \<noteq> [] \<Longrightarrow> last t = last s"
  by (auto simp: suffix_def)

lemma crlf_not_presented:
  assumes "last h = CHR 0x0D" "length h \<le> 255" "CHR 0x0D \<notin> set t"
  shows "\<not> presents (Some t) h"
proof
  assume p: "presents (Some t) h"
  let ?b = "skip_blanks (drop 14 (skip isspace h))"
  have b: "suffix ?b h"
    unfolding skip_blanks_def by (intro suffix_order.trans [OF suffix_skip] suffix_order.trans [OF suffix_drop] suffix_skip)
  then have "clip 256 ?b = ?b" using suffix_length_le [OF b] assms(2) by (simp add: clip_def)
  with p obtain q where q: "strstr ?b ''Bearer '' = Some q" "skip (\<lambda>c. c = CHR '' '') (drop 7 q) = t" "t \<noteq> []"
    by (auto simp: presents_def authorized_def split: list.splits option.splits)
  have "suffix q ?b" using strstr_suffix [OF q(1)] by (auto simp: suffix_def)
  then have "suffix t h"
    using q(2) b by (metis suffix_skip suffix_drop suffix_order.trans)
  with suffix_last [OF this q(3)] assms(1,3) q(3) show False by (metis last_in_set)
qed

text \<open>
  A request whose lines end in CR LF, as HTTP prescribes, is refused whatever token it carries:
  the CR stays in the value of the Authorization header, so it never equals the configured token.
\<close>

theorem crlf_requests_always_refused:
  assumes "opens req" "\<forall>h \<in> set hs. header_text h \<and> last h = CHR 0x0D \<and> length h \<le> 255" "skip isspace bl = []"
    and "api_token ctx = Some t" "CHR 0x0D \<notin> set t" "framing c"
  shows "\<exists>c'. handle_lines ctx (req # hs @ [bl]) c = Some c' \<and> turned_away c c'"
  by (rule request_refused) (use assms crlf_not_presented in auto)

subsection \<open>The body of a POST\<close>

definition body_mode :: "nat \<Rightarrow> 'g conn \<Rightarrow> bool" where
  \<comment> \<open>inside the body of a POST of which \<open>n\<close> bytes are missing\<close>
  "body_mode n c \<longleftrightarrow> http_is_secure_tx c \<and> http_body_remaining c = int n"

lemma frame_no_newline: "newline \<notin> set (c_buf c) \<Longrightarrow> frame_lines ctx 0 c = Some (0, c)"
  using frame_lines_sent [of "[]" "c_buf c" c "[]" ctx] by (simp add: sent_def kept_def)

lemma collect_prefix:
  assumes "http_body_remaining c = int n" "c_buf c = pre @ p" "length p \<le> n" "length (http_body c) + length p \<le> BODY_SIZE" "p \<noteq> []"
  shows "collect_body (length pre) c =
    c\<lparr>http_body := http_body c @ p, http_body_remaining := int (n - length p), c_buf := []\<rparr>"
  using assms by (simp add: collect_body_def Let_def of_nat_diff)

definition body_done :: "'g hctx \<Rightarrow> string \<Rightarrow> 'g conn \<Rightarrow> 'g conn option" where
  \<comment> \<open>the whole body has been processed and the connection is out of body mode\<close>
  "body_done ctx body c = map_option (\<lambda>w. c\<lparr>c_world := w, c_buf := [], http_is_secure_tx := False, http_body := [],
     http_content_length := - 1, http_body_remaining := 0\<rparr>) (process_body (h_pq ctx) (h_db ctx) (cstr body) (c_world c))"

lemma after_lines_last:
  assumes "body_mode (length p) c" "c_buf c = pre @ p" "length (http_body c) + length p < BODY_SIZE" "p \<noteq> []"
  shows "after_lines ctx (length pre) c = map_option (Pair False) (body_done ctx (http_body c @ p) c)"
  using assms collect_prefix [of c "length p" pre p]
  by (simp add: after_lines_def body_mode_def finish_body_def body_done_def option.map_comp comp_def split: option.split)

lemma read_fits:
  assumes "c_buf c = []" "bs \<noteq> []" "length bs < BUF_SIZE"
  shows "read_loop ctx (Bytes bs # rs) c = (case frame_lines ctx 0 (c\<lparr>c_buf := bs\<rparr>) of None \<Rightarrow> None
    | Some (start, c) \<Rightarrow> (case after_lines ctx start c of
        None \<Rightarrow> None | Some (died, c) \<Rightarrow> if died then Some (True, c) else read_loop ctx rs c))"
proof -
  have "\<not> (BUF_SIZE - 1 - length (c_buf c) = 0 \<or> bs = [])" "take (BUF_SIZE - 1 - length (c_buf c)) bs = bs"
    "\<not> BUF_SIZE - 1 - length (c_buf c) < length bs"
    using assms by (auto simp: BUF_SIZE_def)
  then show ?thesis unfolding read_loop.simps(5) Let_def by (simp add: assms(1))
qed

lemma read_bytes:
  assumes "c_buf c = []" "newline \<notin> set p" "p \<noteq> []" "length p < BUF_SIZE"
  shows "read_loop ctx (Bytes p # rs) c = (case after_lines ctx 0 (c\<lparr>c_buf := p\<rparr>) of
      None \<Rightarrow> None | Some (died, c) \<Rightarrow> if died then Some (True, c) else read_loop ctx rs c)"
  using frame_no_newline [of "c\<lparr>c_buf := p\<rparr>" ctx] assms(2) by (simp add: read_fits [OF assms(1,3,4)])

lemma read_body:
  assumes "body_mode (length (concat ps)) c" "c_buf c = []" "\<forall>p \<in> set ps. p \<noteq> [] \<and> newline \<notin> set p" "ps \<noteq> []"
    and "length (http_body c) + length (concat ps) < BODY_SIZE"
  shows "read_loop ctx (map Bytes ps) c = map_option (Pair False) (body_done ctx (http_body c @ concat ps) c)"
  using assms
proof (induction ps arbitrary: c)
  case (Cons p ps)
  have p: "newline \<notin> set p" "p \<noteq> []" "length p < BUF_SIZE" using Cons.prems by (auto simp: BUF_SIZE_def BODY_SIZE_def)
  note st = read_bytes [OF Cons.prems(2) p, of ctx "map Bytes ps"]
  show ?case
  proof (cases "ps = []")
    case True
    have "after_lines ctx (length ([] :: string)) (c\<lparr>c_buf := p\<rparr>) =
        map_option (Pair False) (body_done ctx (http_body (c\<lparr>c_buf := p\<rparr>) @ p) (c\<lparr>c_buf := p\<rparr>))"
      by (rule after_lines_last) (use Cons.prems p True in \<open>auto simp: body_mode_def\<close>)
    with st True show ?thesis by (simp add: body_done_def option.map_comp comp_def split: option.split)
  next
    case False
    let ?n = "length (concat ps)"
    let ?c = "c\<lparr>http_body := http_body c @ p, http_body_remaining := int ?n, c_buf := []\<rparr>"
    have "?n > 0" using False Cons.prems(3) by (cases ps) auto
    have "collect_body (length ([] :: string)) (c\<lparr>c_buf := p\<rparr>) = (c\<lparr>c_buf := p\<rparr>)
        \<lparr>http_body := http_body (c\<lparr>c_buf := p\<rparr>) @ p, http_body_remaining := int (length p + ?n - length p), c_buf := []\<rparr>"
      by (rule collect_prefix) (use Cons.prems p in \<open>auto simp: body_mode_def\<close>)
    moreover have "0 < http_body_remaining c"
      using Cons.prems(1) \<open>?n > 0\<close> unfolding body_mode_def by (simp del: length_concat length_greater_0_conv)
    ultimately have "after_lines ctx 0 (c\<lparr>c_buf := p\<rparr>) = Some (False, ?c)"
      using \<open>?n > 0\<close> by (auto simp: after_lines_def BUF_SIZE_def Let_def)
    with st have "read_loop ctx (map Bytes (p # ps)) c = read_loop ctx (map Bytes ps) ?c" by simp
    also have "\<dots> = map_option (Pair False) (body_done ctx (http_body ?c @ concat ps) ?c)"
      by (rule Cons.IH) (use Cons.prems False in \<open>auto simp: body_mode_def\<close>)
    finally show ?thesis by (simp add: body_done_def)
  qed
qed simp

lemma read_headers:
  \<comment> \<open>a read with complete lines, some of them, and then \<open>p\<close> without a newline\<close>
  assumes "\<forall>l \<in> set ls. text_line l" "newline \<notin> set p" "ls \<noteq> []" "length (sent ls @ p) < BUF_SIZE"
    and "handle_lines ctx ls (conn_start w) = Some c"
  shows "read_loop ctx (Bytes (sent ls @ p) # rs) (conn_start w) =
    (case after_lines ctx (length (kept ls)) (c\<lparr>c_buf := kept ls @ p\<rparr>) of
       None \<Rightarrow> None | Some (died, c) \<Rightarrow> if died then Some (True, c) else read_loop ctx rs c)"
proof -
  let ?c = "(conn_start w)\<lparr>c_buf := sent ls @ p\<rparr>"
  have "frame_lines ctx (length ([] :: string)) ?c =
    map_option (\<lambda>c'. (length ([] :: string) + length (sent ls), c'\<lparr>c_buf := [] @ kept ls @ p\<rparr>)) (handle_lines ctx ls ?c)"
    by (rule frame_lines_sent) (use assms in auto)
  then have "frame_lines ctx 0 ?c = Some (length (kept ls), c\<lparr>c_buf := kept ls @ p\<rparr>)"
    using assms(5) by (simp add: handle_lines_buf)
  moreover have "sent ls @ p \<noteq> []" using assms(3) by (cases ls) auto
  moreover have "c_buf (conn_start w) = []" by (simp add: conn_start_def)
  ultimately show ?thesis using assms(4) by (simp add: read_fits)
qed

lemma read_after_headers:
  \<comment> \<open>a read with exactly the headers of an accepted POST leaves an empty buffer\<close>
  assumes "\<forall>l \<in> set ls. text_line l" "ls \<noteq> []" "length (sent ls) < BUF_SIZE"
    and "handle_lines ctx ls (conn_start w) = Some c" "body_mode n c" "0 < n"
  shows "read_loop ctx (Bytes (sent ls) # rs) (conn_start w) = read_loop ctx rs (c\<lparr>c_buf := []\<rparr>)"
proof -
  have "collect_body (length (kept ls)) (c\<lparr>c_buf := kept ls\<rparr>) = c\<lparr>c_buf := kept ls\<rparr>" by (simp add: collect_body_def)
  then have "after_lines ctx (length (kept ls)) (c\<lparr>c_buf := kept ls\<rparr>) = Some (False, c\<lparr>c_buf := []\<rparr>)"
    using assms(5,6) by (auto simp: after_lines_def body_mode_def Let_def)
  then show ?thesis
    using read_headers [OF assms(1) _ assms(2) _ assms(4), of "[]" rs] assms(3) by simp
qed

lemma read_body_line:
  \<comment> \<open>in body mode a complete line is taken by the framing, before the body is collected\<close>
  assumes "body_mode n c" "0 < n" "c_buf c = []" "\<not> http_collecting c" "payment_line l" "length l + 1 < BUF_SIZE"
  shows "read_loop ctx [Bytes (l @ [newline])] c =
    map_option (\<lambda>w. (False, c\<lparr>c_world := w\<rparr>)) (process_line (h_pq ctx) (h_db ctx) (skip isspace l) (c_world c))"
proof -
  let ?c = "c\<lparr>c_buf := l @ [newline]\<rparr>"
  have l: "text_line l" using assms(5) by (simp add: payment_line_def plain_line_def)
  have "frame_lines ctx 0 ?c = map_option (\<lambda>c'. (Suc (length l), c'\<lparr>c_buf := l @ [nul]\<rparr>)) (handle_lines ctx [l] ?c)"
    using frame_lines_sent [of "[l]" "[]" ?c "[]" ctx] l by (simp add: sent_def kept_def)
  also have "\<dots> = map_option (\<lambda>w. (Suc (length l), c\<lparr>c_world := w, c_buf := l @ [nul]\<rparr>))
      (process_line (h_pq ctx) (h_db ctx) (skip isspace l) (c_world c))"
    using handle_payment [OF assms(5), of ?c ctx] assms(4) by (simp add: option.map_comp comp_def split: option.split)
  finally have fr: "frame_lines ctx 0 ?c = \<dots>" .
  have "after_lines ctx (Suc (length l)) (c\<lparr>c_world := w, c_buf := l @ [nul]\<rparr>) = Some (False, c\<lparr>c_world := w\<rparr>)" for w
    using assms(1-3) by (cases c) (auto simp: after_lines_def collect_body_def body_mode_def Let_def)
  then show ?thesis
    using read_fits [OF assms(3), of "l @ [newline]" ctx "[]"] fr assms(6) by (auto split: option.split)
qed

text \<open>
  C29. The body of an accepted POST that arrives after its headers. When none of it is a newline, it is put together
  from any number of reads and processed as the one text it was sent as: the connection ends up where \<open>process_body\<close> on the whole
  body leads (for bodies shorter than 8192 bytes), and the process survives. But the framing runs before the body is
  collected: a payment line with a newline at its end is run as a line instead, with the plain answer of \<open>process_line\<close>,
  and is not collected.
\<close>

theorem post_body_reassembled:
  assumes "\<forall>l \<in> set ls. text_line l" "ls \<noteq> []" "length (sent ls) < BUF_SIZE"
    and "handle_lines ctx ls (conn_start w) = Some c" "body_mode n c" "0 < n" "http_body c = []"
  shows "(\<forall>ps. length (concat ps) = n \<and> n < BODY_SIZE \<and> (\<forall>p \<in> set ps. p \<noteq> [] \<and> newline \<notin> set p) \<longrightarrow>
      map_option (apsnd c_world) (read_loop ctx (Bytes (sent ls) # map Bytes ps) (conn_start w)) =
      map_option (Pair False) (process_body (h_pq ctx) (h_db ctx) (cstr (concat ps)) (c_world c))) \<and>
    (\<forall>l. payment_line l \<and> length l + 1 < BUF_SIZE \<and> \<not> http_collecting c \<longrightarrow>
      map_option (apsnd (\<lambda>c. (c_world c, http_body c))) (read_loop ctx [Bytes (sent ls), Bytes (l @ [newline])] (conn_start w)) =
      map_option (\<lambda>w. (False, w, [])) (process_line (h_pq ctx) (h_db ctx) (skip isspace l) (c_world c)))"
proof (intro conjI allI impI; elim conjE)
  fix ps assume p: "length (concat ps) = n" "n < BODY_SIZE" "\<forall>p \<in> set ps. p \<noteq> [] \<and> newline \<notin> set p"
  have "ps \<noteq> []" using p(1) assms(6) by auto
  have "read_loop ctx (map Bytes ps) (c\<lparr>c_buf := []\<rparr>) =
      map_option (Pair False) (body_done ctx (http_body (c\<lparr>c_buf := []\<rparr>) @ concat ps) (c\<lparr>c_buf := []\<rparr>))"
    by (rule read_body) (use assms p \<open>ps \<noteq> []\<close> in \<open>auto simp: body_mode_def\<close>)
  then show "map_option (apsnd c_world) (read_loop ctx (Bytes (sent ls) # map Bytes ps) (conn_start w)) =
      map_option (Pair False) (process_body (h_pq ctx) (h_db ctx) (cstr (concat ps)) (c_world c))"
    using read_after_headers [OF assms(1-6)] assms(7) by (simp add: body_done_def option.map_comp comp_def)
next
  fix l assume l: "payment_line l" "length l + 1 < BUF_SIZE" "\<not> http_collecting c"
  have "read_loop ctx [Bytes (l @ [newline])] (c\<lparr>c_buf := []\<rparr>) = map_option (\<lambda>w. (False, c\<lparr>c_buf := [], c_world := w\<rparr>))
      (process_line (h_pq ctx) (h_db ctx) (skip isspace l) (c_world c))"
    using read_body_line [of n "c\<lparr>c_buf := []\<rparr>" l ctx] assms(5,6) l by (simp add: body_mode_def)
  then show "map_option (apsnd (\<lambda>c. (c_world c, http_body c))) (read_loop ctx [Bytes (sent ls), Bytes (l @ [newline])] (conn_start w)) =
      map_option (\<lambda>w. (False, w, [])) (process_line (h_pq ctx) (h_db ctx) (skip isspace l) (c_world c))"
    using read_after_headers [OF assms(1-6)] assms(7) by (simp add: option.map_comp comp_def)
qed

text \<open>
  C38. When a read delivers the headers of an accepted POST and the first bytes of its body, but not
  all of it, the size of the final \<open>memmove\<close> wraps around: the buffer has already been emptied and the
  start of the unprocessed bytes lies behind its end. The process dies there, whatever the later reads would deliver.
\<close>

theorem split_body_crashes:
  assumes "\<forall>l \<in> set ls. text_line l" "ls \<noteq> []" "length (sent ls @ p) < BUF_SIZE"
    and "handle_lines ctx ls (conn_start w) = Some c" "body_mode n c" "http_body c = []"
    and "newline \<notin> set p" "p \<noteq> []" "length p < n"
  shows "\<exists>c'. read_loop ctx (Bytes (sent ls @ p) # rs) (conn_start w) = Some (True, c') \<and>
    c_world c' = on_sys (emit (Fault ''buf'' (length (sent ls)))) (c_world c)"
proof -
  have k: "length (kept ls) > 0" using assms(2) by (cases ls) auto
  have "length p \<le> BODY_SIZE" using assms(3) by (simp add: BUF_SIZE_def BODY_SIZE_def)
  then have "collect_body (length (kept ls)) (c\<lparr>c_buf := kept ls @ p\<rparr>) = (c\<lparr>c_buf := kept ls @ p\<rparr>)
      \<lparr>http_body := http_body (c\<lparr>c_buf := kept ls @ p\<rparr>) @ p, http_body_remaining := int (n - length p), c_buf := []\<rparr>"
    using assms(5,6,8,9) by (intro collect_prefix) (auto simp: body_mode_def)
  then have "\<exists>c'. after_lines ctx (length (kept ls)) (c\<lparr>c_buf := kept ls @ p\<rparr>) = Some (True, c') \<and>
      c_world c' = on_sys (emit (Fault ''buf'' (length (sent ls)))) (c_world c)"
    using assms(5,9) k by (auto simp: after_lines_def body_mode_def Let_def h_sys_def)
  then show ?thesis
    using read_headers [OF assms(1,7,2,3,4)] by auto
qed

definition demo_hctx :: "(string \<Rightarrow> row option) hctx" where
  "demo_hctx = \<lparr>h_pq = demo_pq, h_db = Some 3, api_token = Some ''k''\<rparr>"

definition demo_headers :: "string list" where
  "demo_headers = [''POST /secure/tx HTTP/1.1'', ''Authorization: Bearer k'', ''Content-Length: 5'', []]"

lemma demo_headers_accepted:
  "handle_lines demo_hctx demo_headers (conn_start w) =
     Some ((conn_start w)\<lparr>http_is_secure_tx := True, http_content_length := 5, http_body_remaining := 5\<rparr>)"
proof -
  have "is_secure_post ''POST /secure/tx HTTP/1.1''" "\<not> is_secure_get ''POST /secure/tx HTTP/1.1''"
    "\<not> is_secure_get ''Authorization: Bearer k''" "\<not> is_secure_post ''Authorization: Bearer k''"
    "\<not> is_secure_get ''Content-Length: 5''" "\<not> is_secure_post ''Content-Length: 5''"
    "strncasecmp_eq ''Authorization: Bearer k'' ''Authorization:''" "\<not> strncasecmp_eq ''Content-Length: 5'' ''Authorization:''"
    "strncasecmp_eq ''Content-Length: 5'' ''Content-Length:''"
    "skip isspace ''POST /secure/tx HTTP/1.1'' = ''POST /secure/tx HTTP/1.1''"
    "skip isspace ''Authorization: Bearer k'' = ''Authorization: Bearer k''"
    "skip isspace ''Content-Length: 5'' = ''Content-Length: 5''"
    "clip 256 (skip_blanks (drop 14 ''Authorization: Bearer k'')) = ''Bearer k''"
    "strtol (skip_blanks (drop 15 ''Content-Length: 5'')) = 5" "authorized (Some ''k'') ''Bearer k''" "5 \<le> int BODY_SIZE"
    by code_simp+
  then show ?thesis
    by (simp add: demo_headers_def demo_hctx_def handle_line_def header_line_def end_of_headers_def conn_start_def Let_def)
qed


lemma idle_worker: "idle w \<Longrightarrow> worker_ok True w"
  by (simp add: idle_def worker_ok_def)

text \<open>Witness of C4: the second connection carries a POST whose first read ends inside the body.\<close>

theorem worker_serves_until_killed_witness:
  "let js = [(True, True, Some demo_hctx, [Bytes ''GET /healthz'', Eintr, Bytes [newline, nul], Eof]),
       (True, True, Some demo_hctx, [Bytes (sent demo_headers @ ''{}''), Bytes ''abc''])] in
   (\<exists>has' w'. worker_jobs js True demo_world = Some (Returned has' w') \<and> worker_ok has' w' \<and> accounted demo_world w') \<or>
   (\<exists>w'. worker_jobs js True demo_world = Some (Killed w') \<and> accounted demo_world w' \<and> overran w')"
  unfolding Let_def by (rule disjE [OF worker_serves_until_killed [OF idle_worker [OF idle_demo]]]) blast+

lemma demo_plain: "plain_line ''GET /healthz''" "plain_line ''GET /version''"
  by code_simp+

text \<open>Witness of C37.\<close>

theorem keepalive_repeats_first_line_witness:
  "map_option (apsnd c_world) (read_loop demo_hctx [Bytes (''GET /healthz'' @ [newline]), Bytes (''GET /version'' @ [newline])] (conn_start demo_world)) =
   map_option (\<lambda>c. (False, c_world c)) (handle_lines demo_hctx [''GET /healthz'', ''GET /healthz''] (conn_start demo_world))"
  using keepalive_repeats_first_line [of "''GET /healthz''" "[]" "[[''GET /version'']]" demo_hctx demo_world] demo_plain
  by (simp add: sent_def BUF_SIZE_def)

lemma demo_opens: "opens ''GET /secure/ping HTTP/1.1''" "opens (''GET /secure/ping HTTP/1.1'' @ [CHR 0x0D])"
  by code_simp+

lemma framing_start: "framing (conn_start w)"
  by (simp add: framing_def conn_start_def)

lemma demo_payment_line: "payment_line demo_line" "skip isspace demo_line = demo_line"
  by code_simp+

text \<open>Witness of C30: the refused POST is followed by its body, a payment.\<close>

theorem secure_routes_need_token_witness:
  "map_option c_world (handle_lines demo_hctx [''POST /secure/tx HTTP/1.1'', ''Authorization: Bearer x'', [], demo_line] (conn_start demo_world)) =
   process_line demo_pq (Some 3) demo_line (on_sys (emit (Write unauthorized_reply)) demo_world)"
proof -
  have o: "opens ''POST /secure/tx HTTP/1.1''" by code_simp
  have "header_text ''Authorization: Bearer x''" "\<not> presents (Some ''k'') ''Authorization: Bearer x''" by code_simp+
  then show ?thesis
    using secure_routes_need_token [OF o _ _ _ framing_start, of "[''Authorization: Bearer x'']" "[]" demo_hctx demo_world] demo_payment_line
    by (auto simp: demo_hctx_def conn_start_def)
qed

text \<open>A concrete instance.\<close>

theorem crlf_requests_always_refused_witness:
  "\<exists>c'. handle_lines demo_hctx [''GET /secure/ping HTTP/1.1'' @ [CHR 0x0D], ''Authorization: Bearer k'' @ [CHR 0x0D], [CHR 0x0D]]
       (conn_start demo_world) = Some c' \<and> turned_away (conn_start demo_world) c'"
proof -
  have h: "header_text (''Authorization: Bearer k'' @ [CHR 0x0D])" "skip isspace [CHR 0x0D] = []" by code_simp+
  show ?thesis
    using crlf_requests_always_refused [OF demo_opens(2) _ h(2) _ _ framing_start,
        of "[''Authorization: Bearer k'' @ [CHR 0x0D]]" demo_hctx "''k''" demo_world] h(1)
    by (simp add: demo_hctx_def)
qed

lemma demo_headers_sent: "\<forall>l \<in> set demo_headers. text_line l" "demo_headers \<noteq> []" "length (sent demo_headers) < 100"
  by code_simp+

text \<open>Witness of C29.\<close>

theorem post_body_reassembled_witness:
  "map_option (apsnd c_world) (read_loop demo_hctx [Bytes (sent demo_headers), Bytes ''{}'', Bytes ''abc''] (conn_start demo_world)) =
   map_option (Pair False) (process_body demo_pq (Some 3) (cstr ''{}abc'') demo_world) \<and>
   map_option (apsnd (\<lambda>c. (c_world c, http_body c)))
     (read_loop demo_hctx [Bytes (sent demo_headers), Bytes (demo_line @ [newline])] (conn_start demo_world)) =
   map_option (\<lambda>w. (False, w, [])) (process_line demo_pq (Some 3) demo_line demo_world)"
proof -
  let ?c = "(conn_start demo_world)\<lparr>http_is_secure_tx := True, http_content_length := 5, http_body_remaining := 5\<rparr>"
  have h: "length (sent demo_headers) < BUF_SIZE" "body_mode 5 ?c" "(0::nat) < 5" "http_body ?c = []"
    using demo_headers_sent(3) by (simp_all add: body_mode_def conn_start_def BUF_SIZE_def)
  have "length demo_line < 100" by code_simp
  then have l: "length demo_line + 1 < BUF_SIZE" "\<not> http_collecting ?c" "c_world ?c = demo_world"
    by (simp_all add: BUF_SIZE_def conn_start_def)
  note r = post_body_reassembled [OF demo_headers_sent(1,2) h(1) demo_headers_accepted h(2-4)]
  from conjunct1 [OF r, rule_format, of "[''{}'', ''abc'']"] conjunct2 [OF r, rule_format, of demo_line] l demo_payment_line
  show ?thesis by (simp add: demo_hctx_def BODY_SIZE_def)
qed

text \<open>Witness of C38.\<close>

theorem split_body_crashes_witness:
  "\<exists>c' n. read_loop demo_hctx [Bytes (sent demo_headers @ ''{}''), Bytes ''abc''] (conn_start demo_world) = Some (True, c') \<and>
     trace (w_sys (c_world c')) = [Fault ''buf'' n]"
  using split_body_crashes [OF demo_headers_sent(1,2) _ demo_headers_accepted, of "''{}''" 5 demo_world "[Bytes ''abc'']"] demo_headers_sent(3)
  by (auto simp: body_mode_def conn_start_def BUF_SIZE_def on_sys_def demo_world_def demo_dsys_def)

end
