(* ===== verification/System.thy ===== *)
theory System
  imports Server Connection
begin

section \<open>The whole server: accept loop, workers and reversal thread\<close>

text \<open>
  The server after \<open>main_start\<close> as one transition system. The accept loop and the queue are those of \<open>Net\<close>; a
  worker with a job runs \<open>handler_job\<close> on the globals all threads share, one iteration of its read loop at a time, with its own
  coordinator, its own slot of the thread-specific key and its own buffer; the reversal thread takes a
  task and attempts it. Everything between two calls of \<open>read\<close> is one step: the threads interleave at
  the reads, at the lock of the pool and at the reversal queue. A fault of \<open>after_lines\<close> ends the process.
\<close>

subsection \<open>One iteration of the read loop\<close>

datatype read_verdict = Goes_on | Closed | Died

definition read_step :: "'g hctx \<Rightarrow> read_result \<Rightarrow> 'g conn \<Rightarrow> (read_verdict \<times> 'g conn) option" where
  "read_step ctx r c =
     (case r of
        Eintr \<Rightarrow> Some (Goes_on, c)
      | Read_error \<Rightarrow> Some (Closed, c)
      | Eof \<Rightarrow> Some (Closed, c)
      | Bytes bs \<Rightarrow>
          if bs = [] then Some (Closed, c)
          else
            (case frame_lines ctx 0 (c\<lparr>c_buf := c_buf c @ bs\<rparr>) of
               None \<Rightarrow> None
             | Some (start, c) \<Rightarrow>
                 (case after_lines ctx start c of
                    None \<Rightarrow> None
                  | Some (died, c) \<Rightarrow> Some (if died then Died else Goes_on, c))))"

definition fits :: "read_result \<Rightarrow> 'g conn \<Rightarrow> bool" where
  \<comment> \<open>\<open>read\<close> returns at most \<open>sizeof(buf) - 1 - used\<close> bytes\<close>
  "fits r c \<longleftrightarrow> (case r of Bytes bs \<Rightarrow> length bs \<le> BUF_SIZE - 1 - length (c_buf c) | _ \<Rightarrow> True)"

lemma read_loop_step:
  assumes "fits r c"
  shows "read_loop ctx (r # rs) c =
    (case read_step ctx r c of
       None \<Rightarrow> None
     | Some (v, c') \<Rightarrow> if v = Goes_on then read_loop ctx rs c' else Some (v = Died, c'))"
proof (cases r)
  case (Bytes bs)
  let ?room = "BUF_SIZE - 1 - length (c_buf c)"
  have fit: "length bs \<le> ?room" using assms by (simp add: fits_def Bytes)
  show ?thesis
  proof (cases "bs = []")
    case True
    then show ?thesis by (simp add: Bytes read_step_def read_loop.simps(5))
  next
    case False
    with fit have "\<not> (?room = 0 \<or> bs = [])" "take ?room bs = bs" "\<not> ?room < length bs" by auto
    with False show ?thesis
      by (auto simp: Bytes read_step_def read_loop.simps(5) Let_def split: option.split prod.split)
  qed
qed (simp_all add: read_step_def)

lemma read_step_served:
  assumes "idle (c_world c)"
  shows "\<exists>v c'. read_step ctx r c = Some (v, c') \<and> served (c_world c) (c_world c')"
proof (cases r)
  case (Bytes bs)
  let ?c = "c\<lparr>c_buf := c_buf c @ bs\<rparr>"
  obtain k c1 where c1: "frame_lines ctx 0 ?c = Some (k, c1)" "served (c_world c) (c_world c1)"
    using frame_lines_served [of ?c ctx 0] assms by auto
  obtain died c2 where c2: "after_lines ctx k c1 = Some (died, c2)" "served (c_world c1) (c_world c2)"
    using after_lines_served [OF served_idle [OF c1(2)]] by blast
  with c1 served_trans [OF c1(2) c2(2)] served_refl [OF assms] show ?thesis
    by (auto simp: Bytes read_step_def)
qed (use served_refl [OF assms] in \<open>simp_all add: read_step_def\<close>)

subsection \<open>Threads and their view of the globals\<close>

type_synonym 'g snet = "('g, unit) dsys_ext csys_ext net"

record 'g thread =
  t_has :: bool
  t_coord :: "'g dsys coordinator"
  t_tls :: "nat option"
  t_conn :: "'g conn option"
    \<comment> \<open>the connection in progress; the globals in it are those of its last step\<close>

record 'g server =
  sv_net :: "'g snet"
  sv_threads :: "'g thread list"
  sv_risk :: risk
  sv_rev :: reversal
  sv_tod_src :: "nat \<Rightarrow> int \<times> int"
  sv_tod_calls :: nat
  sv_dead :: bool

definition enter :: "nat \<Rightarrow> 'g server \<Rightarrow> 'g world" where
  \<comment> \<open>what thread \<open>i\<close> sees\<close>
  "enter i S =
     (let t = sv_threads S ! i in
      \<lparr>w_coord = t_coord t, w_risk = sv_risk S, w_rev = sv_rev S, w_sys = (net_sys (sv_net S))\<lparr>db_tls := t_tls t\<rparr>,
       tod_src = sv_tod_src S, tod_calls = sv_tod_calls S\<rparr>)"

definition leave :: "nat \<Rightarrow> bool \<Rightarrow> 'g conn option \<Rightarrow> 'g world \<Rightarrow> 'g server \<Rightarrow> 'g server" where
  \<comment> \<open>thread \<open>i\<close> has made a step: its coordinator, slot and connection, and the globals\<close>
  "leave i has c w S =
     S\<lparr>sv_net := (sv_net S)\<lparr>net_sys := w_sys w\<rparr>,
       sv_threads := (sv_threads S)[i := \<lparr>t_has = has, t_coord = w_coord w, t_tls = db_tls (w_sys w), t_conn = c\<rparr>],
       sv_risk := w_risk w, sv_rev := w_rev w, sv_tod_src := tod_src w, sv_tod_calls := tod_calls w\<rparr>"

definition hctx_of :: "'g pq \<Rightarrow> net_ctx \<Rightarrow> 'g hctx" where
  "hctx_of pq k = \<lparr>h_pq = pq, h_db = ctx_db k, api_token = ctx_token k\<rparr>"

definition end_job :: "nat \<Rightarrow> nat \<Rightarrow> 'g server \<Rightarrow> 'g server" where
  "end_job i j S = S\<lparr>sv_net := finish_conn i j (sv_net S)\<rparr>"

definition begin_job :: "bool \<Rightarrow> bool \<Rightarrow> nat \<Rightarrow> nat \<Rightarrow> 'g server \<Rightarrow> 'g server" where
  \<comment> \<open>\<open>handler_job\<close> up to its read loop\<close>
  "begin_job mutex_ok log_ok i j S =
     (let w = enter i S in
      case (if t_has (sv_threads S ! i) then (Some (w_coord w), w_sys w) else txn_coordinator_init mutex_ok log_ok (w_sys w)) of
        (None, s) \<Rightarrow>
          end_job i j (leave i False None (w\<lparr>w_sys := logj ''ERROR'' ''handler'' None ''Failed to init 2PC coordinator'' s\<rparr>) S)
      | (Some co, s) \<Rightarrow>
          let w = w\<lparr>w_coord := co, w_sys := s\<rparr> in leave i True (Some (conn_start w)) w S)"

definition after_read :: "nat \<Rightarrow> nat \<Rightarrow> read_verdict \<Rightarrow> 'g conn \<Rightarrow> 'g server \<Rightarrow> 'g server" where
  "after_read i j v c S =
     (case v of
        Goes_on \<Rightarrow> leave i True (Some c) (c_world c) S
      | Closed \<Rightarrow> end_job i j (leave i True None (c_world c) S)
      | Died \<Rightarrow> (leave i True (Some c) (c_world c) S)\<lparr>sv_dead := True\<rparr>)"

definition on_net :: "('g snet \<Rightarrow> 'g snet) \<Rightarrow> 'g server \<Rightarrow> 'g server" where
  "on_net f S = S\<lparr>sv_net := f (sv_net S)\<rparr>"

definition worker_lock :: "'g pq \<Rightarrow> nat \<Rightarrow> 'g server \<Rightarrow> 'g server" where
  \<comment> \<open>worker \<open>i\<close> takes the lock of the pool; when it leaves the loop its thread ends and the destructor of the key runs\<close>
  "worker_lock pq i S =
     (let S = on_net (\<lambda>n. n\<lparr>net_tp := lock_step i (net_tp n)\<rparr>) S in
      if workers (net_tp (sv_net S)) ! i = Exited
      then leave i (t_has (sv_threads S ! i)) None (on_sys (db_tls_destructor pq) (enter i S)) S
      else S)"

definition reversal_attempt :: "reversal \<Rightarrow> 'a csys_scheme \<Rightarrow> (reversal \<times> 'a csys_scheme) option" where
  \<comment> \<open>the reversal thread takes a task that is ready and attempts it\<close>
  "reversal_attempt r s =
     (case reversal_take r s of
        None \<Rightarrow> None
      | Some (Task a, r, s) \<Rightarrow> reversal_perform a r s
      | Some (_, r, s) \<Rightarrow> Some (r, s))"

subsection \<open>The transition system\<close>

inductive server_step :: "'g pq \<Rightarrow> 'g server \<Rightarrow> 'g server \<Rightarrow> bool" for pq where
  conn: "\<not> sv_dead S \<Longrightarrow> n = sv_net S \<Longrightarrow> listening n \<Longrightarrow> fd \<notin> net_fds n \<Longrightarrow>
     (Asleep \<in> set (workers (net_tp n)) \<Longrightarrow> i < length (workers (net_tp n)) \<and> workers (net_tp n) ! i = Asleep) \<Longrightarrow>
     server_step pq S (on_net (accept_conn i fd) S)"
| accept_error: "\<not> sv_dead S \<Longrightarrow> listening (sv_net S) \<Longrightarrow> server_step pq S (on_net (\<lambda>n. n\<lparr>listening := False\<rparr>) S)"
| lock: "\<not> sv_dead S \<Longrightarrow> i < length (workers (net_tp (sv_net S))) \<Longrightarrow> workers (net_tp (sv_net S)) ! i = At_lock \<Longrightarrow>
     server_step pq S (worker_lock pq i S)"
| spurious: "\<not> sv_dead S \<Longrightarrow> i < length (workers (net_tp (sv_net S))) \<Longrightarrow> workers (net_tp (sv_net S)) ! i = Asleep \<Longrightarrow>
     server_step pq S (on_net (\<lambda>n. n\<lparr>net_tp := (net_tp n)\<lparr>workers := (workers (net_tp n))[i := At_lock]\<rparr>\<rparr>) S)"
| start_job: "\<not> sv_dead S \<Longrightarrow> i < length (workers (net_tp (sv_net S))) \<Longrightarrow> workers (net_tp (sv_net S)) ! i = Running j \<Longrightarrow>
     t_conn (sv_threads S ! i) = None \<Longrightarrow> server_step pq S (begin_job m l i j S)"
| read: "\<not> sv_dead S \<Longrightarrow> i < length (workers (net_tp (sv_net S))) \<Longrightarrow> workers (net_tp (sv_net S)) ! i = Running j \<Longrightarrow>
     t_conn (sv_threads S ! i) = Some c \<Longrightarrow> net_ctxs (sv_net S) (ctx_of (sv_net S) j) = Some k \<Longrightarrow> fits r c \<Longrightarrow>
     read_step (hctx_of pq k) r (c\<lparr>c_world := enter i S\<rparr>) = Some (v, c') \<Longrightarrow>
     server_step pq S (after_read i j v c' S)"
| reversal: "\<not> sv_dead S \<Longrightarrow> reversal_attempt (sv_rev S) (net_sys (sv_net S)) = Some (r', s') \<Longrightarrow>
     server_step pq S (on_net (\<lambda>n. n\<lparr>net_sys := s'\<rparr>) (S\<lparr>sv_rev := r'\<rparr>))"
| shutdown: "\<not> sv_dead S \<Longrightarrow> \<not> listening (sv_net S) \<Longrightarrow>
     server_step pq S (on_net (\<lambda>n. n\<lparr>net_tp := shutdown_step (net_tp n)\<rparr>) S)"

inductive server_reach :: "'g pq \<Rightarrow> 'g server \<Rightarrow> 'g server \<Rightarrow> bool" for pq S0 where
  server_init: "server_reach pq S0 S0"
| server_next: "server_reach pq S0 S \<Longrightarrow> server_step pq S S' \<Longrightarrow> server_reach pq S0 S'"

definition server_start :: "config \<Rightarrow> nat \<Rightarrow> pool \<Rightarrow> 'g world \<Rightarrow> 'g server" where
  "server_start c d p w =
     \<lparr>sv_net = net_start c (Some d) p (w_sys w),
      sv_threads = replicate (num_threads p) \<lparr>t_has = False, t_coord = w_coord w, t_tls = None, t_conn = None\<rparr>,
      sv_risk = w_risk w, sv_rev = w_rev w, sv_tod_src = tod_src w, sv_tod_calls = tod_calls w, sv_dead = False\<rparr>"

end
