(* ===== verification/System_inv.thy ===== *)
theory System_inv
  imports System
begin

section \<open>The invariant of the running server\<close>

text \<open>
  What every step of the system of \<open>System\<close> keeps: the reversal thread leaves the database layer and the contexts alone, the open
  connections belong to \<open>main\<close> and to the slots of the workers (\<open>owned\<close>), the contexts and counters are balanced between two
  steps, a worker that has left holds no connection (\<open>gone\<close>), and the accept loop and the pool make steps of \<open>Net\<close>.
\<close>

subsection \<open>The reversal thread\<close>

lemma grows_reversal_counters:
  assumes "grows P s t"
  shows "grows P s (with_metrics metrics_inc_reversal_succeeded t)" "grows P s (with_metrics metrics_inc_reversal_failed t)"
  using assms by (auto intro!: grows_same [OF assms] simp: with_metrics_def metrics_inc_defs tallies_def)

definition aside :: "'a csys_scheme \<Rightarrow> 'a csys_scheme \<Rightarrow> bool" where
  \<comment> \<open>what the reversal thread does: it leaves no context and does not touch the database layer\<close>
  "aside s s' \<longleftrightarrow> grows plain s s' \<and> clearing_ctxs s' = clearing_ctxs s \<and> csys.more s' = csys.more s"

lemma asideI: "grows plain s s' \<Longrightarrow> clearing_ctxs s' = clearing_ctxs s \<Longrightarrow> csys.more s' = csys.more s \<Longrightarrow> aside s s'"
  by (simp add: aside_def)

lemma aside_refl: "aside s s"
  by (simp add: aside_def grows_refl)

lemma aside_trans: "aside s t \<Longrightarrow> aside t u \<Longrightarrow> aside s u"
  by (auto simp: aside_def intro: grows_trans)

lemma aside_time: "aside s (s\<lparr>time_calls := n\<rparr>)"
  by (intro asideI grows_basic grows_refl) simp_all

lemma aside_within:
  fixes s :: "('g, 'b) dsys_scheme"
  assumes "aside s s'"
  shows "within {} plain s s'" "db_conns s' = db_conns s"
proof -
  have m: "csys.more s' = csys.more s" using assms by (simp add: aside_def)
  with assms show "within {} plain s s'" using db_fields_more [OF m] by (intro withinI) (simp_all add: aside_def)
  show "db_conns s' = db_conns s" using m by (rule db_fields_more)
qed

lemma reversal_retry_ready:
  fixes s :: "('g, 'b) dsys_scheme"
  assumes "rev_chain r as" "a \<notin> set as" "g_tasks r a \<noteq> None" "\<forall>x. allocs s \<le> x \<longrightarrow> g_tasks r x = None"
  shows "\<exists>r' s'. reversal_retry a t r s = Some (r', s') \<and> rev_ready r' s' \<and> aside s s'"
proof (cases "max_attempts s \<le> attempts t + 1")
  case True
  let ?s = "logj ''ERROR'' ''reversal'' (Some (r_txn_id t)) ''Reversal failed permanently'' s"
  have "aside s (with_metrics metrics_inc_reversal_failed ?s)"
    by (intro asideI grows_reversal_counters grows_basic grows_refl) (simp_all add: with_metrics_def logj_def emit_def)
  moreover have "rev_ready (r\<lparr>g_tasks := (g_tasks r)(a := None)\<rparr>) (with_metrics metrics_inc_reversal_failed ?s)"
    using rev_chain_heap [OF assms(1,2), of None] assms(4) by (auto simp: rev_ready_def with_metrics_def logj_def emit_def)
  ultimately show ?thesis using True by (simp add: reversal_retry_def)
next
  case False
  define t' where "t' = (t\<lparr>attempts := attempts t + 1\<rparr>)\<lparr>next_at := time_src s (time_calls s) +
    c_div1000 (to_int32 (base_delay_ms s * to_int32 (2 ^ nat (attempts t + 1 - 1))))\<rparr>"
  let ?r = "r\<lparr>g_tasks := (g_tasks r)(a \<mapsto> t')\<rparr>" and ?s = "s\<lparr>time_calls := Suc (time_calls s)\<rparr>"
  have "g_tasks ?r a = Some t'" by simp
  from queue_push_chain [OF rev_chain_heap [OF assms(1,2)] assms(2) this] obtain r'
    where r': "queue_push a ?r = Some r'" by blast
  note p = push_inv [OF assms(1,2) r']
  have "a < allocs s" using assms(3,4) by (metis linorder_not_less)
  then have "rev_ready r' ?s" using p assms(4) by (auto simp: rev_ready_def)
  moreover have "reversal_retry a t r s = Some (r', ?s)"
    using False r' by (simp add: reversal_retry_def time_null_def Let_def t'_def)
  moreover have "aside s ?s" by (rule aside_time)
  ultimately show ?thesis by blast
qed

lemma reversal_retry_grows: "reversal_retry a t r s = Some (r', s') \<Longrightarrow> grows plain s s'"
  by (auto simp: reversal_retry_def time_null_def Let_def intro!: grows_reversal_counters grows_basic grows_refl
      split: if_splits option.splits)

lemma reversal_perform_grows:
  assumes "reversal_perform a r s = Some (r', s')"
  shows "grows plain s s'"
proof -
  obtain t where t: "g_tasks r a = Some t" using assms by (auto simp: reversal_perform_def split: option.splits)
  obtain x s1 where i: "clearing_participant_init None 10 s = (x, s1)" by force
  have s1: "grows plain s s1" using grows_cl_rest(1) [of s None 10] i by simp
  show ?thesis
  proof (cases x)
    case None
    with assms t i have "reversal_retry a t r s1 = Some (r', s')" by (simp add: reversal_perform_def)
    then show ?thesis using reversal_retry_grows grows_trans [OF s1] by blast
  next
    case (Some y)
    let ?tid = "Some (r_txn_id t)"
    let ?s2 = "snd (clearing_participant_set_transaction x ?tid (Some (r_pan_masked t)) (Some (r_amount t)) (Some (r_merchant_id t)) s1)"
    let ?s4 = "clearing_participant_destroy x (snd (clearing_participant_abort x ?tid ?s2))"
    have "grows plain ?s2 (snd (clearing_participant_abort x ?tid ?s2))" by (simp add: Some grows_cl_abort)
    then have s4: "grows plain s ?s4" by (meson s1 grows_trans grows_cl_rest)
    have "s' = with_metrics metrics_inc_reversal_succeeded (logj ''INFO'' ''reversal'' ?tid ''Reversal success'' ?s4) \<or>
      reversal_retry a t r ?s4 = Some (r', s')"
      using assms t i Some by (auto simp: reversal_perform_def Let_def case_prod_beta split: if_splits)
    then show ?thesis
      using grows_reversal_counters(1) [OF grows_basic(3) [OF s4]] grows_trans [OF s4 reversal_retry_grows] by blast
  qed
qed

lemma reversal_perform_ready:
  fixes s :: "('g, 'b) dsys_scheme"
  assumes "rev_chain r as" "a \<notin> set as" "g_tasks r a = Some t" "\<forall>x. allocs s \<le> x \<longrightarrow> g_tasks r x = None" "fresh_ctxs s"
  shows "\<exists>r' s'. reversal_perform a r s = Some (r', s') \<and> rev_ready r' s' \<and> aside s s'"
proof (cases "alloc_src s (allocs s)")
  case True
  from reversal_perform_spec [OF assms(3) True] obtain s' where
    s': "reversal_perform a r s = Some (r\<lparr>g_tasks := (g_tasks r)(a := None)\<rparr>, s')" "allocs s' = Suc (allocs s)"
      "clearing_ctxs s' = (clearing_ctxs s)(allocs s := None)" "csys.more s' = csys.more s" by blast
  have "clearing_ctxs s (allocs s) = None" using assms(5) by (simp add: fresh_ctxs_def)
  then have "clearing_ctxs s' = clearing_ctxs s" using s'(3) by (simp add: fun_upd_idem)
  then have "aside s s'" using reversal_perform_grows [OF s'(1)] s'(4) by (intro asideI)
  moreover have "rev_ready (r\<lparr>g_tasks := (g_tasks r)(a := None)\<rparr>) s'"
    using rev_chain_heap [OF assms(1,2), of None] assms(4) s'(2) by (auto simp: rev_ready_def)
  ultimately show ?thesis using s'(1) by blast
next
  case False
  obtain s1 where c: "clearing_participant_init None 10 s = (None, s1)"
    using clearing_init_spec(1) [of None 10 s] False by (metis surj_pair)
  note f = clearing_init_spec [OF c]
  have "aside s s1"
    using grows_cl_rest(1) [of s None 10] f(7,9) c by (intro asideI) simp_all
  moreover obtain r' s' where "reversal_retry a t r s1 = Some (r', s')" "rev_ready r' s'" "aside s1 s'"
    using reversal_retry_ready [OF assms(1,2), of s1 t] assms(3,4) f(2) by auto
  ultimately show ?thesis using assms(3) c by (auto simp: reversal_perform_def intro: aside_trans)
qed

lemma reversal_attempt_ready:
  fixes s :: "('g, 'b) dsys_scheme"
  assumes "rev_ready r s" "fresh_ctxs s"
  shows "\<exists>r' s'. reversal_attempt r s = Some (r', s') \<and> rev_ready r' s' \<and> aside s s'"
proof (cases "g_head r = None")
  case True
  with assms aside_refl show ?thesis by (fastforce simp: reversal_attempt_def reversal_take_def)
next
  case False
  obtain as where as: "rev_chain r as" "\<forall>x. allocs s \<le> x \<longrightarrow> g_tasks r x = None" using assms(1) by (auto simp: rev_ready_def)
  let ?s = "s\<lparr>time_calls := Suc (time_calls s)\<rparr>" and ?now = "time_src s (time_calls s)"
  have s: "aside s ?s" by (rule aside_time)
  from queue_pop_ready_chain [OF as(1), of ?now] consider "queue_pop_ready ?now r = Some (None, r)"
    | us a vs r1 where "as = us @ a # vs" "queue_pop_ready ?now r = Some (Some a, r1)" "rev_chain r1 (us @ vs)"
        "\<forall>x. map_option (\<lambda>t. t\<lparr>r_next := None\<rparr>) (g_tasks r1 x) = map_option (\<lambda>t. t\<lparr>r_next := None\<rparr>) (g_tasks r x)"
    by blast
  then show ?thesis
  proof cases
    case 1
    with False s as show ?thesis
      by (fastforce simp: reversal_attempt_def reversal_take_def time_null_def rev_ready_def)
  next
    case 2
    note none = same_contents_None [OF 2(4)]
    have "a \<notin> set (us @ vs)" "g_tasks r a \<noteq> None"
      using as(1) chain_dom [of "g_tasks r" r_next "g_head r" as a] by (simp_all add: rev_chain_def 2(1))
    moreover have "g_tasks r1 a \<noteq> None" using none [of a] \<open>g_tasks r a \<noteq> None\<close> by simp
    ultimately obtain t where t: "a \<notin> set (us @ vs)" "g_tasks r1 a = Some t" by blast
    have fresh: "\<forall>x. allocs ?s \<le> x \<longrightarrow> g_tasks r1 x = None" "fresh_ctxs ?s"
      using as(2) none fresh_ctxs_within [OF assms(2) aside_within(1) [OF s]] by simp_all
    from reversal_perform_ready [OF 2(3) t fresh] obtain r' s' where
      "reversal_perform a r1 ?s = Some (r', s')" "rev_ready r' s'" "aside ?s s'" by blast
    with False 2(2) aside_trans [OF s] show ?thesis
      by (auto simp: reversal_attempt_def reversal_take_def time_null_def)
  qed
qed

subsection \<open>Connections and their owners\<close>

fun held :: "nat option list \<Rightarrow> nat list" where
  "held [] = []"
| "held (Some a # ts) = a # held ts"
| "held (None # ts) = held ts"

lemma taken_append [simp]: "held (us @ vs) = held us @ held vs"
  by (induction us rule: held.induct) simp_all

definition owned :: "nat \<Rightarrow> nat option list \<Rightarrow> ('g, 'a) dsys_scheme \<Rightarrow> bool" where
  \<comment> \<open>the open connections are that of the main thread and one for every slot in use\<close>
  "owned d ts s \<longleftrightarrow> dom (db_conns s) = set (d # held ts) \<and> distinct (d # held ts) \<and> (\<forall>a \<in> set (d # held ts). a < allocs s)"

lemma owned_same: "owned d ts s \<Longrightarrow> dom (db_conns s') = dom (db_conns s) \<Longrightarrow> allocs s \<le> allocs s' \<Longrightarrow> owned d ts s'"
  by (fastforce simp: owned_def)

lemma owned_keeps:
  assumes "owned d ts s" "i < length ts" "keeps_conns (s\<lparr>db_tls := ts ! i\<rparr>) s'"
  shows "owned d (ts[i := db_tls s']) s'"
proof -
  consider "db_tls s' = ts ! i" "dom (db_conns s') = dom (db_conns s)" "allocs s \<le> allocs s'"
    | a where "ts ! i = None" "db_tls s' = Some a" "allocs s \<le> a" "a < allocs s'" "dom (db_conns s') = insert a (dom (db_conns s))"
    using assms(3) by (auto simp: keeps_conns_def)
  then show ?thesis
  proof cases
    case 1
    then show ?thesis using owned_same [OF assms(1)] by simp
  next
    case 2
    obtain us vs where w: "ts = us @ None # vs" "\<And>x. ts[i := x] = us @ x # vs" using update_split [OF assms(2)] 2(1) by metis
    have o: "owned d (us @ None # vs) s" using assms(1) w(1) by simp
    then have "a \<notin> set (d # held (us @ None # vs))" using 2(3) unfolding owned_def by (metis leD)
    moreover have "\<forall>x \<in> set (d # held (us @ None # vs)). x < allocs s'" using o 2(3,4) unfolding owned_def by (meson less_le_trans less_imp_le)
    ultimately have "owned d (us @ Some a # vs) s'" using o 2(4,5) by (auto simp: owned_def)
    then show ?thesis by (simp only: w(2) 2(2))
  qed
qed

lemma db_tls_destructor_effect:
  "db_tls (db_tls_destructor pq s) = None" "dom (db_conns (db_tls_destructor pq s)) = dom (db_conns s) - set_option (db_tls s)"
  "db_ctxs (db_tls_destructor pq s) = db_ctxs s" "clearing_ctxs (db_tls_destructor pq s) = clearing_ctxs s"
  "metrics (db_tls_destructor pq s) = metrics s" "allocs (db_tls_destructor pq s) = allocs s"
  by (auto simp: db_tls_destructor_def db_disconnect_def db_fault_def emit_def Let_def split: option.splits)

lemma owned_closes:
  assumes "owned d ts s" "i < length ts"
  shows "owned d (ts[i := None]) (db_tls_destructor pq (s\<lparr>db_tls := ts ! i\<rparr>))"
proof -
  obtain us vs where w: "ts = us @ ts ! i # vs" "\<And>x. ts[i := x] = us @ x # vs" using update_split [OF assms(2)] by metis
  let ?t = "ts ! i"
  have "owned d (us @ ?t # vs) s" using assms(1) w(1) by simp
  then have "owned d (us @ None # vs) (db_tls_destructor pq (s\<lparr>db_tls := ?t\<rparr>))"
    by (cases ?t) (auto simp: owned_def db_tls_destructor_effect)
  then show ?thesis by (simp only: w(2))
qed

subsection \<open>The invariant\<close>

abbreviation sv_sys :: "'g server \<Rightarrow> 'g dsys" where
  "sv_sys S \<equiv> net_sys (sv_net S)"

abbreviation sv_workers :: "'g server \<Rightarrow> worker list" where
  "sv_workers S \<equiv> workers (net_tp (sv_net S))"

definition balanced :: "'g dsys \<Rightarrow> bool" where
  \<comment> \<open>no participant context, and every request counted was counted as approved or as declined\<close>
  "balanced s \<longleftrightarrow> db_ctxs s = Map.empty \<and> clearing_ctxs s = Map.empty \<and>
     g_total (metrics s) = g_approved (metrics s) + g_declined (metrics s)"

definition thread_ok :: "'g thread \<Rightarrow> bool" where
  "thread_ok t \<longleftrightarrow> (t_has t \<longrightarrow> empty_table (t_coord t)) \<and> (t_conn t \<noteq> None \<longrightarrow> t_has t)"

definition server_inv :: "nat \<Rightarrow> 'g server \<Rightarrow> bool" where
  "server_inv d S \<longleftrightarrow> length (sv_threads S) = length (sv_workers S) \<and> list_all thread_ok (sv_threads S) \<and>
     balanced (sv_sys S) \<and> rev_ready (sv_rev S) (sv_sys S) \<and> owned d (map t_tls (sv_threads S)) (sv_sys S)"

definition gone :: "'g server \<Rightarrow> bool" where
  \<comment> \<open>a worker that has left holds no connection\<close>
  "gone S \<longleftrightarrow> (\<forall>i < length (sv_workers S). sv_workers S ! i = Exited \<longrightarrow> t_tls (sv_threads S ! i) = None)"

lemma settled_fresh: "balanced s \<Longrightarrow> fresh_ctxs s"
  by (simp add: balanced_def fresh_ctxs_def)

lemma settled_within: "balanced s \<Longrightarrow> within {} P s s' \<Longrightarrow> balanced s'"
  by (auto simp: balanced_def within_def grows_def tallies_def fun_eq_iff)

lemma enter_simps [simp]:
  "w_rev (enter i S) = sv_rev S" "w_coord (enter i S) = t_coord (sv_threads S ! i)"
  "w_sys (enter i S) = (sv_sys S)\<lparr>db_tls := t_tls (sv_threads S ! i)\<rparr>"
  by (simp_all add: enter_def Let_def)

lemma leave_simps [simp]:
  "sv_threads (leave i has c w S) = (sv_threads S)[i := \<lparr>t_has = has, t_coord = w_coord w, t_tls = db_tls (w_sys w), t_conn = c\<rparr>]"
  "sv_net (leave i has c w S) = (sv_net S)\<lparr>net_sys := w_sys w\<rparr>" "sv_rev (leave i has c w S) = w_rev w" "sv_dead (leave i has c w S) = sv_dead S"
  by (simp_all add: leave_def)

lemma enter_ok:
  assumes "server_inv d S" "i < length (sv_threads S)"
  shows "worker_ok (t_has (sv_threads S ! i)) (enter i S)" "balanced (w_sys (enter i S))"
  using assms by (auto simp: server_inv_def worker_ok_def thread_ok_def list_all_length balanced_def fresh_ctxs_def rev_ready_def)

lemma settled_accounted: "balanced (w_sys w) \<Longrightarrow> accounted w w' \<Longrightarrow> balanced (w_sys w')"
  by (auto simp: balanced_def accounted_def same_ctxs_def Let_def algebra_simps)

lemma leave_settled:
  assumes "server_inv d S" "i < length (sv_threads S)" "worker_ok has w" "balanced (w_sys w)"
    and "owned d ((map t_tls (sv_threads S))[i := db_tls (w_sys w)]) (w_sys w)" and "c \<noteq> None \<Longrightarrow> has"
  shows "server_inv d (leave i has c w S)"
proof -
  have "list_all thread_ok (sv_threads (leave i has c w S))"
    using assms by (auto simp: server_inv_def list_all_length thread_ok_def nth_list_update worker_ok_def)
  with assms show ?thesis by (simp add: server_inv_def worker_ok_def map_update)
qed

lemma leave_inv:
  assumes "server_inv d S" "i < length (sv_threads S)" "worker_ok has w" "accounted (enter i S) w" "c \<noteq> None \<Longrightarrow> has"
  shows "server_inv d (leave i has c w S)"
proof (rule leave_settled [OF assms(1,2,3) settled_accounted [OF enter_ok(2) [OF assms(1,2)] assms(4)] _ assms(5)])
  have "keeps_conns ((sv_sys S)\<lparr>db_tls := map t_tls (sv_threads S) ! i\<rparr>) (w_sys w)"
    using assms(2,4) by (simp add: accounted_def same_ctxs_def)
  then show "owned d ((map t_tls (sv_threads S))[i := db_tls (w_sys w)]) (w_sys w)"
    using assms(1,2) by (intro owned_keeps) (simp_all add: server_inv_def)
qed

lemma gone_leave:
  assumes "gone S" "sv_workers S ! i \<noteq> Exited \<or> db_tls (w_sys w) = None"
  shows "gone (leave i has c w S)"
  using assms by (cases "i < length (sv_threads S)") (auto simp: gone_def nth_list_update not_less list_update_beyond)

text \<open>
  What the threads do to the shared state is always a step of the system of \<open>Net\<close>, or none: the
  statements about the accept loop and the pool hold of the server with its real jobs.
\<close>

definition sound :: "nat \<Rightarrow> 'g snet \<Rightarrow> 'g server \<Rightarrow> bool" where
  "sound d n0 S \<longleftrightarrow> server_inv d S \<and> gone S \<and> net_reach n0 (sv_net S)"

lemma net_others: "net_reach n0 n \<Longrightarrow> allocs (net_sys n) \<le> allocs s \<Longrightarrow> g_server_busy (metrics s) = g_server_busy (metrics (net_sys n)) \<Longrightarrow>
    net_reach n0 (n\<lparr>net_sys := s\<rparr>)"
  by (rule net_next) (auto intro: net_step.others)

lemma within_counts: "within {} P s s' \<Longrightarrow> allocs s \<le> allocs s' \<and> g_server_busy (metrics s') = g_server_busy (metrics s)"
  by (simp add: within_def grows_def tallies_def)

lemma sound_leave:
  assumes "sound d n0 S" "i < length (sv_workers S)" "sv_workers S ! i \<noteq> Exited" "worker_ok has w" "accounted (enter i S) w"
    "c \<noteq> None \<Longrightarrow> has"
  shows "sound d n0 (leave i has c w S)"
proof -
  have S: "server_inv d S" "gone S" "net_reach n0 (sv_net S)" "i < length (sv_threads S)"
    using assms(1,2) by (auto simp: sound_def server_inv_def)
  have "net_reach n0 (sv_net (leave i has c w S))"
    using net_others [OF S(3), of "w_sys w"] assms(5) by (simp add: accounted_def Let_def)
  with leave_inv [OF S(1,4) assms(4,5,6)] gone_leave [OF S(2)] assms(3) show ?thesis by (simp add: sound_def)
qed

lemma sound_tp:
  assumes "sound d n0 S" "net_step (sv_net S) n" "net_sys n = sv_sys S" "length (workers (net_tp n)) = length (sv_workers S)"
    and "\<forall>i < length (sv_workers S). workers (net_tp n) ! i = Exited \<longrightarrow> sv_workers S ! i = Exited"
  shows "sound d n0 (S\<lparr>sv_net := n\<rparr>)"
  using assms net_next [OF _ assms(2), of n0] by (auto simp: sound_def server_inv_def gone_def)

lemma sound_end_job:
  assumes "sound d n0 S" "i < length (sv_workers S)" "sv_workers S ! i = Running j"
  shows "sound d n0 (end_job i j S)"
  unfolding end_job_def
  by (rule sound_tp [OF assms(1) net_step.finish [OF assms(2,3)]])
    (use assms(2) in \<open>auto simp: finish_conn_def finish_step_def nth_list_update\<close>)

lemma sound_conn:
  assumes "sound d n0 S" "net_step (sv_net S) (accept_conn i fd (sv_net S))"
  shows "sound d n0 (on_net (accept_conn i fd) S)"
proof -
  let ?n = "accept_conn i fd (sv_net S)"
  have S: "server_inv d S" "gone S" using assms(1) by (simp_all add: sound_def)
  have "db_ctxs (net_sys ?n) = db_ctxs (sv_sys S)" "clearing_ctxs (net_sys ?n) = clearing_ctxs (sv_sys S)" "allocs (sv_sys S) \<le> allocs (net_sys ?n)"
    "g_total (metrics (net_sys ?n)) = g_total (metrics (sv_sys S))" "g_approved (metrics (net_sys ?n)) = g_approved (metrics (sv_sys S))"
    "g_declined (metrics (net_sys ?n)) = g_declined (metrics (sv_sys S))" "db_conns (net_sys ?n) = db_conns (sv_sys S)"
    by (simp_all add: accept_conn_def net_submit_def malloc_def Let_def case_prod_beta with_metrics_def emit_def metrics_inc_server_busy_def)
  moreover have w: "length (workers (net_tp ?n)) = length (sv_workers S)"
    "\<And>k. k < length (sv_workers S) \<Longrightarrow> workers (net_tp ?n) ! k = Exited \<Longrightarrow> sv_workers S ! k = Exited"
    by (auto simp: accept_conn_def net_submit_def malloc_def Let_def case_prod_beta submit_step_def wake_one_def nth_list_update split: if_splits)
  ultimately have "server_inv d (on_net (accept_conn i fd) S)"
    using S(1) owned_same [of d _ "sv_sys S" "net_sys ?n"] by (auto simp: server_inv_def on_net_def balanced_def rev_ready_def)
  moreover have "gone (on_net (accept_conn i fd) S)" using S(2) w by (simp add: gone_def on_net_def)
  ultimately show ?thesis using assms net_next by (auto simp: sound_def on_net_def)
qed

lemma sound_begin_job:
  assumes "sound d n0 S" "i < length (sv_workers S)" "sv_workers S ! i = Running j"
  shows "sound d n0 (begin_job m l i j S)"
proof -
  have S: "server_inv d S" "i < length (sv_threads S)" using assms(1,2) by (auto simp: sound_def server_inv_def)
  let ?w = "enter i S" and ?has = "t_has (sv_threads S ! i)"
  let ?c = "if ?has then (Some (w_coord ?w), w_sys ?w) else txn_coordinator_init m l (w_sys ?w)"
  note ok = enter_ok(1) [OF S]
  have w: "within {} plain (w_sys ?w) (snd ?c)" using coordinator_init_within(1) [of "w_sys ?w" m l] by (simp add: within_refl)
  have co: "empty_table co" if "fst ?c = Some co" for co
  proof (cases ?has)
    case True
    with ok that show ?thesis by (auto simp: worker_ok_def)
  next
    case False
    with that show ?thesis by (intro coordinator_init_within(2) [of m l "w_sys ?w"]) simp
  qed
  show ?thesis
  proof (cases "fst ?c")
    case None
    let ?v = "?w\<lparr>w_sys := logj ''ERROR'' ''handler'' None ''Failed to init 2PC coordinator'' (snd ?c)\<rparr>"
    have v: "within {} plain (w_sys ?w) (w_sys ?v)" using within_step(1) [OF w] by simp
    have "begin_job m l i j S = end_job i j (leave i False None ?v S)"
      using None by (simp add: begin_job_def Let_def case_prod_beta)
    with sound_leave [OF assms(1,2) _ worker_ok_within [OF ok v, of False] accounted_within [OF v], of None] assms(2,3) show ?thesis
      by (simp add: sound_end_job)
  next
    case (Some x)
    let ?v = "?w\<lparr>w_coord := x, w_sys := snd ?c\<rparr>"
    have v: "within {} plain (w_sys ?w) (w_sys ?v)" using w by simp
    have "begin_job m l i j S = leave i True (Some (conn_start ?v)) ?v S"
      using Some by (simp add: begin_job_def Let_def case_prod_beta)
    with sound_leave [OF assms(1,2) _ worker_ok_within [OF ok v, of True] accounted_within [OF v]] co [OF Some] assms(3) show ?thesis by simp
  qed
qed

lemma read_possible:
  assumes "server_inv d S" "i < length (sv_threads S)" "t_conn (sv_threads S ! i) = Some c"
  shows "\<exists>v c'. read_step ctx r (c\<lparr>c_world := enter i S\<rparr>) = Some (v, c') \<and> worker_ok True (c_world c') \<and>
    accounted (enter i S) (c_world c')"
proof -
  have "worker_ok True (enter i S)"
    using enter_ok(1) [OF assms(1,2)] assms by (auto simp: server_inv_def list_all_length thread_ok_def)
  then have "idle (enter i S)" by (simp add: worker_ok_def idle_def)
  then show ?thesis using read_step_served [of "c\<lparr>c_world := enter i S\<rparr>" ctx r] by (auto simp: served_split)
qed

lemma sound_after_read:
  fixes S :: "'g server"
  assumes "sound d n0 S" "i < length (sv_workers S)" "sv_workers S ! i = Running j" "worker_ok True (c_world c)" "accounted (enter i S) (c_world c)"
  shows "sound d n0 (after_read i j v c S)"
proof -
  have l: "sound d n0 (leave i True x (c_world c) S)" for x by (rule sound_leave [OF assms(1,2) _ assms(4,5)]) (simp_all add: assms(3))
  have "sound d n0 (T\<lparr>sv_dead := True\<rparr>) = sound d n0 T" for T :: "'g server" by (simp add: sound_def server_inv_def gone_def)
  with l assms(2,3) show ?thesis by (cases v) (simp_all add: after_read_def sound_end_job)
qed

lemma sound_lock:
  assumes "sound d n0 S" "i < length (sv_workers S)" "sv_workers S ! i = At_lock"
  shows "sound d n0 (worker_lock pq i S)"
proof -
  let ?n = "(sv_net S)\<lparr>net_tp := lock_step i (net_tp (sv_net S))\<rparr>"
  let ?T = "S\<lparr>sv_net := ?n\<rparr>"
  have S: "server_inv d S" "gone S" "i < length (sv_threads S)" using assms(1,2) by (auto simp: sound_def server_inv_def)
  have r: "net_reach n0 ?n" using assms net_next [OF _ net_step.lock] by (auto simp: sound_def)
  have w: "length (workers (net_tp ?n)) = length (sv_workers S)" "k \<noteq> i \<Longrightarrow> workers (net_tp ?n) ! k = sv_workers S ! k" for k
    by (auto simp: lock_step_def split: prod.split decision.split option.split)
  have T: "server_inv d ?T" using S(1) w(1) by (simp add: server_inv_def)
  show ?thesis
  proof (cases "workers (net_tp ?n) ! i = Exited")
    case True
    let ?w = "on_sys (db_tls_destructor pq) (enter i ?T)"
    note e = db_tls_destructor_effect [of pq "w_sys (enter i ?T)"]
    have i: "i < length (sv_threads ?T)" using S(3) by simp
    have "worker_ok (t_has (sv_threads S ! i)) ?w" "balanced (w_sys ?w)"
      using enter_ok [OF T i] e by (simp_all add: on_sys_def worker_ok_def balanced_def fresh_ctxs_def rev_ready_def)
    moreover have "owned d ((map t_tls (sv_threads ?T))[i := db_tls (w_sys ?w)]) (w_sys ?w)"
      using owned_closes [of d "map t_tls (sv_threads S)" "sv_sys S" i pq] S(1,3) e(1) by (simp add: on_sys_def server_inv_def)
    ultimately have "server_inv d (leave i (t_has (sv_threads S ! i)) None ?w ?T)"
      by (intro leave_settled [OF T i]) simp_all
    moreover have "gone (leave i (t_has (sv_threads S ! i)) None ?w ?T)"
      using S(2,3) w e(1) by (auto simp: gone_def on_sys_def nth_list_update)
    moreover have "net_reach n0 (sv_net (leave i (t_has (sv_threads S ! i)) None ?w ?T))"
      using net_others [OF r, of "w_sys ?w"] e by (simp add: on_sys_def)
    ultimately show ?thesis using True by (simp add: sound_def worker_lock_def on_net_def Let_def)
  next
    case False
    have "gone ?T" using S(2) w False by (auto simp: gone_def) metis
    with False T r show ?thesis by (simp add: sound_def worker_lock_def on_net_def Let_def)
  qed
qed

lemma sound_reversal:
  assumes "sound d n0 S" "reversal_attempt (sv_rev S) (sv_sys S) = Some (r', s')"
  shows "sound d n0 (on_net (\<lambda>n. n\<lparr>net_sys := s'\<rparr>) (S\<lparr>sv_rev := r'\<rparr>))"
proof -
  have S: "server_inv d S" "gone S" "net_reach n0 (sv_net S)" using assms(1) by (simp_all add: sound_def)
  then have a: "rev_ready r' s'" "aside (sv_sys S) s'"
    using reversal_attempt_ready [of "sv_rev S" "sv_sys S"] settled_fresh assms(2) by (auto simp: server_inv_def)
  note w = aside_within [OF a(2)]
  have "owned d (map t_tls (sv_threads S)) s'"
    using owned_same [of d _ "sv_sys S" s'] S(1) w within_counts by (auto simp: server_inv_def)
  moreover have "net_reach n0 ((sv_net S)\<lparr>net_sys := s'\<rparr>)" using net_others [OF S(3)] within_counts [OF w(1)] by simp
  ultimately show ?thesis
    using S(1,2) a(1) settled_within [OF _ w(1)] by (simp add: sound_def server_inv_def gone_def on_net_def)
qed

lemma server_step_sound: "server_step pq S S' \<Longrightarrow> sound d n0 S \<Longrightarrow> sound d n0 S'"
proof (induction rule: server_step.induct)
  case (conn S n fd i)
  then show ?case by (intro sound_conn net_step.conn) auto
next
  case (accept_error S)
  then show ?case unfolding on_net_def by (intro sound_tp net_step.accept_error) simp_all
next
  case (lock S i)
  then show ?case by (intro sound_lock)
next
  case (spurious S i)
  then show ?case unfolding on_net_def by (intro sound_tp net_step.spurious) (auto simp: nth_list_update)
next
  case (start_job S i j m l)
  then show ?case by (intro sound_begin_job)
next
  case (read S i j c k r v c')
  then have S: "server_inv d S" "i < length (sv_threads S)" by (auto simp: sound_def server_inv_def)
  from read_possible [OF S read(4), of "hctx_of pq k" r] read(7) show ?case
    by (intro sound_after_read [OF read.prems read(2,3)]) auto
next
  case (reversal S r' s')
  then show ?case by (intro sound_reversal)
next
  case (shutdown S)
  then show ?case unfolding on_net_def
    by (intro sound_tp net_step.shutdown) (auto simp: shutdown_step_def wake_all_def split: if_splits)
qed

lemma server_reach_sound: "server_reach pq S0 S \<Longrightarrow> sound d n0 S0 \<Longrightarrow> sound d n0 S"
  by (induction rule: server_reach.induct) (simp_all add: server_step_sound)

lemma server_start_sound:
  assumes "ready c d p w"
  shows "sound d (net_start c (Some d) p (w_sys w)) (server_start c d p w)"
proof -
  have "rev_ready reversal_start (w_sys w)" by (auto simp: rev_ready_def rev_chain_def reversal_start_def intro!: exI [of _ "[]"])
  moreover have "held (replicate n None) = []" for n by (induction n) simp_all
  then have "owned d (map t_tls (sv_threads (server_start c d p w))) (w_sys w)"
    using assms by (auto simp: ready_def server_start_def owned_def map_replicate split: if_splits)
  ultimately show ?thesis
    using assms net_init by (auto simp: ready_def sound_def gone_def server_inv_def server_start_def net_start_def tp_start_def thread_ok_def
        list_all_length balanced_def metrics_zero_def)
qed

end
