(* ===== verification/Lifecycle.thy ===== *)
theory Lifecycle
  imports System_inv
begin

section \<open>The server from its start to its end\<close>

text \<open>
  The composition of \<open>main_start\<close>, the running server and \<open>main_stop\<close>: the books balance in every reachable state, and from
  every state without a fault the server can be drained and stopped. The measure \<open>server_load\<close> bounds the steps of the workers once the pool is
  shutting down.
\<close>

subsection \<open>The server can always be drained\<close>

fun weight :: "worker \<Rightarrow> 'c option \<Rightarrow> nat" where
  "weight (Running j) None = 3"
| "weight (Running j) (Some c) = 2"
| "weight At_lock c = 1"
| "weight Asleep c = 0"
| "weight Exited c = 0"

definition server_load :: "'g server \<Rightarrow> nat" where
  \<comment> \<open>an upper bound of the steps that are left once the pool is shutting down and every peer closes\<close>
  "server_load S = 4 * length (queued (pool_of (net_tp (sv_net S)))) +
     (\<Sum>k < length (sv_workers S). weight (sv_workers S ! k) (t_conn (sv_threads S ! k)))"

lemma weighted_less:
  fixes f g :: "nat \<Rightarrow> nat"
  assumes "i < n" "\<And>k. k < n \<Longrightarrow> k \<noteq> i \<Longrightarrow> g k = f k" "a + g i < b + f i"
  shows "a + (\<Sum>k < n. g k) < b + (\<Sum>k < n. f k)"
proof -
  have "(\<Sum>k < n. h k) = h i + (\<Sum>k \<in> {..<n} - {i}. h k)" for h :: "nat \<Rightarrow> nat"
    using assms(1) by (simp add: sum.remove)
  moreover have "(\<Sum>k \<in> {..<n} - {i}. g k) = (\<Sum>k \<in> {..<n} - {i}. f k)" using assms(2) by (intro sum.cong) auto
  ultimately show ?thesis using assms(3) by simp
qed

lemma load_less:
  assumes "i < length (sv_workers S)" "length (sv_threads S) = length (sv_workers S)" "sv_workers S' = (sv_workers S)[i := x]"
    and "\<And>k. k \<noteq> i \<Longrightarrow> sv_threads S' ! k = sv_threads S ! k"
    and "4 * length (queued (pool_of (net_tp (sv_net S')))) + weight x (t_conn (sv_threads S' ! i)) <
      4 * length (queued (pool_of (net_tp (sv_net S)))) + weight (sv_workers S ! i) (t_conn (sv_threads S ! i))"
  shows "server_load S' < server_load S"
proof -
  have "length (sv_workers S') = length (sv_workers S)" using assms(3) by simp
  then show ?thesis unfolding server_load_def using assms
    by (simp only:) (rule weighted_less [OF assms(1)], auto simp: nth_list_update)
qed

lemma begin_job_cases:
  "(\<exists>w. begin_job m l i j S = end_job i j (leave i False None w S)) \<or> (\<exists>c w. begin_job m l i j S = leave i True (Some c) w S)"
  by (cases "fst (if t_has (sv_threads S ! i) then (Some (w_coord (enter i S)), w_sys (enter i S))
        else txn_coordinator_init m l (w_sys (enter i S)))")
     (simp add: begin_job_def Let_def case_prod_beta, blast)+

lemma lock_step_down:
  assumes "tp_inv t" "shutting_down (pool_of t)"
  shows "workers (lock_step i t) = (workers t)[i := Exited] \<and> queued (pool_of (lock_step i t)) = queued (pool_of t) \<or>
    (\<exists>j js. queued (pool_of t) = j # js \<and> workers (lock_step i t) = (workers t)[i := Running j] \<and> queued (pool_of (lock_step i t)) = js)"
proof -
  have ok: "pool_ok (pool_of t)" using assms(1) by (simp add: tp_inv_def)
  then have sz: "qsize (pool_of t) = length (queued (pool_of t))" by (simp add: pool_ok_def)
  show ?thesis
  proof (cases "queued (pool_of t)")
    case Nil
    then show ?thesis using sz assms(2) by (simp add: lock_step_def worker_locked_def)
  next
    case (Cons j js)
    obtain p' where p': "worker_pop (pool_of t) = (Some j, p')" "queued p' = js"
      using worker_pop_first [OF ok Cons] by (cases "worker_pop (pool_of t)") auto
    then show ?thesis using sz Cons by (simp add: lock_step_def worker_locked_def)
  qed
qed

lemma running_context:
  assumes "net_inv b n" "i < length (workers (net_tp n))" "workers (net_tp n) ! i = Running j"
  shows "net_ctxs n (ctx_of n j) \<noteq> None"
proof -
  have "j \<in> live_jobs (net_tp n)" using assms(2,3) nth_mem [OF assms(2)] by (auto simp: live_jobs_def live_job_def)
  then show ?thesis using assms(1) bij_betwE by (fastforce simp: net_inv_def)
qed

lemma finish_queued:
  assumes "tp_inv t" "tp_inv (finish_step i j t)"
  shows "queued (pool_of (finish_step i j t)) = queued (pool_of t)"
proof -
  have "started t @ queued (pool_of (finish_step i j t)) = started t @ queued (pool_of t)"
    using assms by (simp add: tp_inv_def finish_step_def)
  then show ?thesis by simp
qed

lemma load_end_job:
  assumes "tp_inv (net_tp (sv_net S))" "length (sv_threads S) = length (sv_workers S)" "i < length (sv_workers S)" "sv_workers S ! i = Running j"
  shows "server_load (end_job i j (leave i has None w S)) < server_load S"
proof (rule load_less [OF assms(3,2), where x = At_lock])
  have "queued (pool_of (finish_step i j (net_tp (sv_net S)))) = queued (pool_of (net_tp (sv_net S)))"
    using finish_queued [OF assms(1) finish_inv [OF assms(1,3,4)]] .
  then show "4 * length (queued (pool_of (net_tp (sv_net (end_job i j (leave i has None w S)))))) +
      weight At_lock (t_conn (sv_threads (end_job i j (leave i has None w S)) ! i)) <
    4 * length (queued (pool_of (net_tp (sv_net S)))) + weight (sv_workers S ! i) (t_conn (sv_threads S ! i))"
    using assms(4) by (cases "t_conn (sv_threads S ! i)") (simp_all add: end_job_def finish_conn_def)
qed (simp_all add: end_job_def finish_conn_def finish_step_def)

definition closing :: "'g server \<Rightarrow> bool" where
  "closing S \<longleftrightarrow> \<not> sv_dead S \<and> shutting_down (pool_of (net_tp (sv_net S)))"

lemma closing_end_job: "closing S \<Longrightarrow> closing (end_job i j (leave i has c w S))"
  by (simp add: closing_def end_job_def finish_conn_def finish_step_def)

lemma drain_step:
  assumes "sound d n0 S" "net_inv b (sv_net S)" "closing S" "i < length (sv_workers S)" "sv_workers S ! i \<noteq> Exited"
  shows "\<exists>S'. server_step pq S S' \<and> closing S' \<and> server_load S' < server_load S"
proof -
  have inv: "tp_inv (net_tp (sv_net S))" using assms(2) by (simp add: net_inv_def)
  have S: "server_inv d S" "length (sv_threads S) = length (sv_workers S)" using assms(1) by (auto simp: sound_def server_inv_def)
  have alive: "\<not> sv_dead S" and down: "shutting_down (pool_of (net_tp (sv_net S)))" using assms(3) by (simp_all add: closing_def)
  show ?thesis
  proof (cases "sv_workers S ! i")
    case At_lock
    let ?S = "worker_lock pq i S" and ?t = "lock_step i (net_tp (sv_net S))"
    have net: "net_tp (sv_net ?S) = ?t" "sv_dead ?S = sv_dead S"
      by (simp_all add: worker_lock_def on_net_def Let_def)
    have th: "k \<noteq> i \<Longrightarrow> sv_threads ?S ! k = sv_threads S ! k" for k by (simp add: worker_lock_def on_net_def Let_def)
    have w: "weight (Running j) c \<le> 3" for j and c :: "'a conn option" by (cases c) simp_all
    have "server_load ?S < server_load S" using lock_step_down [OF inv down, of i]
    proof (elim disjE exE conjE)
      assume "workers ?t = (sv_workers S)[i := Exited]" "queued (pool_of ?t) = queued (pool_of (net_tp (sv_net S)))"
      then show ?thesis by (intro load_less [OF assms(4) S(2), where x = Exited]) (simp_all add: net th At_lock)
    next
      fix j js
      assume "queued (pool_of (net_tp (sv_net S))) = j # js" "workers ?t = (sv_workers S)[i := Running j]" "queued (pool_of ?t) = js"
      then show ?thesis using w [of j "t_conn (sv_threads ?S ! i)"]
        by (intro load_less [OF assms(4) S(2), where x = "Running j"]) (simp_all add: net th At_lock)
    qed
    moreover have "closing ?S" using alive down by (simp add: closing_def net lock_step_fields)
    ultimately show ?thesis using server_step.lock [OF alive assms(4) At_lock, of pq] by blast
  next
    case Asleep
    then show ?thesis using inv down nth_mem [OF assms(4)] by (auto simp: tp_inv_def)
  next
    case Exited
    with assms(5) show ?thesis by simp
  next
    case (Running j)
    show ?thesis
    proof (cases "t_conn (sv_threads S ! i)")
      case None
      note st = server_step.start_job [OF alive assms(4) Running None, of pq True True]
      from begin_job_cases [of True True i j S] show ?thesis
      proof (elim disjE exE)
        fix w assume "begin_job True True i j S = end_job i j (leave i False None w S)"
        with st load_end_job [OF inv S(2) assms(4) Running] closing_end_job [OF assms(3)] show ?thesis by metis
      next
        fix c w assume e: "begin_job True True i j S = leave i True (Some c) w S"
        have "(sv_workers S)[i := Running j] = sv_workers S" using Running list_update_id [of "sv_workers S" i] by simp
        then have "server_load (leave i True (Some c) w S) < server_load S"
          using assms(4) S(2) Running None by (intro load_less [OF assms(4) S(2), where x = "Running j"]) simp_all
        with st e assms(3) show ?thesis by (auto simp: closing_def)
      qed
    next
      case (Some c)
      obtain k where k: "net_ctxs (sv_net S) (ctx_of (sv_net S) j) = Some k"
        using running_context [OF assms(2,4) Running] by blast
      let ?c = "c\<lparr>c_world := enter i S\<rparr>"
      have "server_step pq S (after_read i j Closed ?c S)"
        by (rule server_step.read [OF alive assms(4) Running Some k, where r = Eof]) (simp_all add: fits_def read_step_def)
      then show ?thesis
        using load_end_job [OF inv S(2) assms(4) Running] closing_end_job [OF assms(3)] by (auto simp: after_read_def)
    qed
  qed
qed

lemma server_reach_trans: "server_reach pq T U \<Longrightarrow> server_reach pq S T \<Longrightarrow> server_reach pq S U"
  by (induction rule: server_reach.induct) (auto intro: server_next)

lemma drain:
  assumes "sound d (net_start c x p s) S" "new_pool p" "closing S"
  shows "\<exists>S'. server_reach pq S S' \<and> closing S' \<and> set (sv_workers S') \<subseteq> {Exited}"
  using assms
proof (induction "server_load S" arbitrary: S rule: less_induct)
  case less
  show ?case
  proof (cases "set (sv_workers S) \<subseteq> {Exited}")
    case True
    then show ?thesis using less.prems(3) server_init by blast
  next
    case False
    then obtain x where "x \<in> set (sv_workers S)" "x \<noteq> Exited" by blast
    then obtain i where i: "i < length (sv_workers S)" "sv_workers S ! i \<noteq> Exited" by (metis in_set_conv_nth)
    have "net_inv (g_server_busy (metrics s)) (sv_net S)"
      using net_reach_inv less.prems(1,2) by (auto simp: sound_def)
    from drain_step [OF less.prems(1) this less.prems(3) i, of pq] obtain T where
      T: "server_step pq S T" "closing T" "server_load T < server_load S" by blast
    from less.hyps [OF T(3) server_step_sound [OF T(1) less.prems(1)] less.prems(2) T(2)] obtain U where
      "server_reach pq T U" "closing U" "set (sv_workers U) \<subseteq> {Exited}" by blast
    with server_reach_trans [OF _ server_next [OF server_init T(1)]] show ?thesis by blast
  qed
qed

lemma can_close:
  assumes "\<not> sv_dead S"
  shows "\<exists>S'. server_reach pq S S' \<and> closing S'"
proof -
  define T where "T = (if listening (sv_net S) then on_net (\<lambda>n. n\<lparr>listening := False\<rparr>) S else S)"
  have T: "server_reach pq S T" "\<not> sv_dead T" "\<not> listening (sv_net T)"
    using assms server_next [OF server_init server_step.accept_error] server_init by (auto simp: T_def on_net_def)
  let ?U = "on_net (\<lambda>n. n\<lparr>net_tp := shutdown_step (net_tp n)\<rparr>) T"
  have "server_step pq T ?U" using T(2,3) by (rule server_step.shutdown)
  moreover have "closing ?U" using T(2) by (simp add: closing_def on_net_def shutdown_step_def)
  ultimately show ?thesis using T(1) server_next by blast
qed

subsection \<open>From the start of the process to its end\<close>

definition main_world :: "'g world \<Rightarrow> 'g server \<Rightarrow> 'g world" where
  \<comment> \<open>what \<open>main\<close> finds when \<open>net_server_run\<close> has returned and the workers have been joined\<close>
  "main_world w S = w\<lparr>w_risk := sv_risk S, w_rev := sv_rev S, w_sys := sv_sys S, tod_calls := sv_tod_calls S\<rparr>"

lemma booted:
  assumes "fresh_world w" "main_start pq spawn created w = (Inr (c, d, p), w')" "server_reach pq (server_start c d p w') S"
  shows "sound d (net_start c (Some d) p (w_sys w')) S" "new_pool p" "g_server_busy (metrics (w_sys w')) = 0" "0 < num_threads p"
    "int (cap p) = queue_cap c"
proof -
  have r: "config_init (w_sys w) = Some c" "ready c d p w'" using main_start_ok [OF assms(1,2)] by (simp_all add: start_ok_def)
  then show "new_pool p" "g_server_busy (metrics (w_sys w')) = 0" "int (cap p) = queue_cap c" by (simp_all add: ready_def metrics_zero_def)
  have "int (num_threads p) = cfg_num_threads c" using r(2) by (simp add: ready_def)
  then show "0 < num_threads p" using config_init_sane [OF r(1)] by linarith
  show "sound d (net_start c (Some d) p (w_sys w')) S"
    using server_reach_sound [OF assms(3) server_start_sound [OF r(2)]] .
qed

lemma net_step_workers: "net_step n n' \<Longrightarrow> length (workers (net_tp n')) = length (workers (net_tp n))"
  by (induction rule: net_step.induct)
    (auto simp: accept_conn_def net_submit_def finish_conn_def finish_step_def malloc_def submit_step_def wake_one_def lock_step_def
      shutdown_step_def wake_all_def Let_def case_prod_beta split: option.split decision.split)

lemma net_reach_workers: "net_reach n0 n \<Longrightarrow> length (workers (net_tp n)) = length (workers (net_tp n0))"
  by (induction rule: net_reach.induct) (simp_all add: net_step_workers)

lemma taken_all_free: "\<forall>i < length ts. ts ! i = None \<Longrightarrow> held ts = []"
  by (induction ts rule: held.induct) (force simp: All_less_Suc2)+

lemma all_gone:
  assumes "sound d n0 S" "set (sv_workers S) \<subseteq> {Exited}"
  shows "dom (db_conns (sv_sys S)) = {d}"
proof -
  have "t_tls (sv_threads S ! i) = None" if "i < length (sv_threads S)" for i
    using assms that nth_mem [of i "sv_workers S"] by (fastforce simp: sound_def server_inv_def gone_def)
  then have "held (map t_tls (sv_threads S)) = []" by (intro taken_all_free) simp
  then show ?thesis using assms(1) by (simp add: sound_def server_inv_def owned_def)
qed

text \<open>
  C5. The books of the whole server balance at every moment. Start the process, let \<open>main\<close> start the server, and
  interleave in any order connections, reads of any worker with any bytes, attempts of the reversal thread,
  wake-ups and the shutdown. Every connection was queued, refused with \<open>server_busy\<close> or dropped; \<open>server_busy\<close> counts the refusals;
  every request counted was counted once more, as approved or as declined; no participant context outlives its request, and no
  transaction stays in the table of a worker's coordinator; jobs in progress, handler contexts and sockets correspond
  one to one; at most \<open>QUEUE_CAP\<close> connections wait; the queue of reversals stays linked; and the open database connections are that of \<open>main\<close> and at most one per worker.
  When all workers have left, every queued connection was served, and neither a socket nor a worker's connection is left.
\<close>

theorem server_accounts:
  assumes "fresh_world w" and "main_start pq spawn created w = (Inr (c, d, p), w')"
    and "server_reach pq (server_start c d p w') S"
  shows "let n = sv_net S; s = net_sys n; m = metrics s in
    conns n = length (accepted (net_tp n)) + refusals n + drops n \<and> g_server_busy m = of_nat (refusals n) \<and>
    g_total m = g_approved m + g_declined m \<and> db_ctxs s = Map.empty \<and> clearing_ctxs s = Map.empty \<and>
    list_all thread_ok (sv_threads S) \<and> served_exactly n \<and> int (length (queued (pool_of (net_tp n)))) \<le> queue_cap c \<and> (\<exists>as. rev_chain (sv_rev S) as) \<and>
    owned d (map t_tls (sv_threads S)) s \<and>
    (set (workers (net_tp n)) = {Exited} \<longrightarrow>
       mset (executed (net_tp n)) = mset (accepted (net_tp n)) \<and> net_ctxs n = Map.empty \<and> net_fds n = {} \<and> dom (db_conns s) = {d})"
proof -
  note b = booted [OF assms]
  have inv: "server_inv d S" and r: "net_reach (net_start c (Some d) p (w_sys w')) (sv_net S)" using b(1) by (simp_all add: sound_def)
  note a = net_reach_accounts [OF b(2) r]
  show ?thesis unfolding Let_def
    using a b(3,5) inv all_gone [OF b(1)] by (auto simp: server_inv_def balanced_def rev_ready_def)
qed

text \<open>
  C6. The server can always be stopped. In every state it can reach without a fault, whatever the workers are doing, there is a
  continuation (the listener fails, the pool shuts down, the peers close) that drains it: every worker
  leaves, every queued connection has been served and closed, and the rest of \<open>main\<close>, with the queue of reversals as it stands when the
  reversal thread has been joined, returns with no database connection, no job and no reversal task left.
\<close>

theorem server_can_stop:
  assumes "fresh_world w" and "main_start pq spawn created w = (Inr (c, d, p), w')"
    and "server_reach pq (server_start c d p w') S" and "\<not> sv_dead S"
  shows "\<exists>S' q v. server_reach pq S S' \<and> set (workers (net_tp (sv_net S'))) = {Exited} \<and>
    mset (executed (net_tp (sv_net S'))) = mset (accepted (net_tp (sv_net S'))) \<and> net_fds (sv_net S') = {} \<and>
    main_stop pq d (pool_of (net_tp (sv_net S'))) (main_world w' S') = Some (q, v) \<and>
    db_conns (w_sys v) = Map.empty \<and> head q = None \<and> shutting_down q \<and> rev_chain (w_rev v) []"
proof -
  obtain T where T: "server_reach pq S T" "closing T" using can_close [OF assms(4)] by blast
  note b = booted [OF assms(1,2) server_reach_trans [OF T(1) assms(3)]]
  obtain U where U: "server_reach pq T U" "set (sv_workers U) \<subseteq> {Exited}" using drain [OF b(1,2) T(2)] by blast
  note u = server_reach_sound [OF U(1) b(1)]
  have r: "net_reach (net_start c (Some d) p (w_sys w')) (sv_net U)" and inv: "server_inv d U" using u by (simp_all add: sound_def)
  have "sv_workers U \<noteq> []" using net_reach_workers [OF r] b(4) by (auto simp: net_start_def tp_start_def)
  then have e: "set (sv_workers U) = {Exited}" using U(2) by (cases "sv_workers U") auto
  note a = net_reach_accounts(5) [OF b(2) r e]
  have "dom (db_conns (w_sys (main_world w' U))) = {d}" using all_gone [OF u U(2)] by (simp add: main_world_def)
  moreover obtain as where "rev_chain (w_rev (main_world w' U)) as"
    using inv by (auto simp: server_inv_def rev_ready_def main_world_def)
  ultimately obtain q v where "main_stop pq d (pool_of (net_tp (sv_net U))) (main_world w' U) = Some (q, v)"
    "db_conns (w_sys v) = Map.empty" "head q = None" "shutting_down q" "rev_chain (w_rev v) []"
    using main_stop_releases by blast
  with server_reach_trans [OF U(1) T(1)] e a show ?thesis by blast
qed

subsection \<open>A concrete run\<close>

definition demo_boot_config :: config where
  "demo_boot_config = \<lparr>cfg_db_uri = ''u'', listen_port = 9090, cfg_num_threads = 4, queue_cap = 1024, cfg_api_token = None\<rparr>"

definition demo_boot_pool :: pool where
  "demo_boot_pool = \<lparr>num_threads = 4, head = None, tail = None, qsize = 0, cap = 1024, shutting_down = False, jobs = Map.empty\<rparr>"

definition demo_boot :: "(string \<Rightarrow> row option) world" where
  "demo_boot = demo_world0\<lparr>w_risk := risk_init (with_metrics metrics_init (w_sys demo_world0)) risk_start,
     w_rev := snd (reversal_init True reversal_start),
     w_sys := (with_metrics metrics_init (w_sys demo_world0))\<lparr>allocs := 14, db_conns := [10 \<mapsto> \<lparr>conn = Some 1, uri = Some ''u''\<rparr>]\<rparr>\<rparr>"

lemma demo_start: "main_start demo_pq (\<lambda>_. True) True demo_world0 = (Inr (demo_boot_config, 10, demo_boot_pool), demo_boot)"
  by (simp add: main_start_def hooks demo_world0_def demo_dsys_def config_init_def positive_or_def db_connect_def malloc_def
        demo_pq_def threadpool_create_def on_sys_def with_metrics_def Let_def list_all_iff demo_boot_config_def demo_boot_pool_def demo_boot_def)

lemma demo_fresh: "fresh_world demo_world0" 
  by (simp add: fresh_world_def demo_world0_def demo_dsys_def)

definition demo_server0 :: "(string \<Rightarrow> row option) server" where
  "demo_server0 = server_start demo_boot_config 10 demo_boot_pool demo_boot"

definition demo_server1 :: "(string \<Rightarrow> row option) server" where
  \<comment> \<open>a connection arrives and the first worker takes it\<close>
  "demo_server1 = worker_lock demo_pq 0 (on_net (accept_conn 0 7) demo_server0)"

definition demo_server2 :: "(string \<Rightarrow> row option) server" where
  \<comment> \<open>it has prepared its coordinator and waits for bytes\<close>
  "demo_server2 = begin_job True True 0 15 demo_server1"

definition demo_server3 :: "(string \<Rightarrow> row option) server" where
  \<comment> \<open>the peer closes\<close>
  "demo_server3 = after_read 0 15 Closed ((the (t_conn (sv_threads demo_server2 ! 0)))\<lparr>c_world := enter 0 demo_server2\<rparr>) demo_server2"

lemmas demo_server_defs = demo_server0_def server_start_def demo_boot_def demo_boot_pool_def demo_boot_config_def demo_world0_def
  demo_dsys_def on_net_def worker_lock_def net_exec_defs

lemma demo_workers: "replicate 4 x = [x, x, x, x]"
  by (simp add: numeral_eq_Suc)

lemma demo_accept: "server_step demo_pq demo_server0 (on_net (accept_conn 0 7) demo_server0)"
  by (rule server_step.conn [OF _ refl]) (simp_all add: demo_server_defs demo_workers)

lemma demo_lock: "server_step demo_pq (on_net (accept_conn 0 7) demo_server0) demo_server1"
  unfolding demo_server1_def by (rule server_step.lock) (simp_all add: demo_server_defs demo_workers)

lemma demo_server1_parts:
  "sv_workers demo_server1 = [Running 15, At_lock, At_lock, At_lock]" "\<not> sv_dead demo_server1"
  "t_conn (sv_threads demo_server1 ! 0) = None" "\<not> t_has (sv_threads demo_server1 ! 0)"
  "jobs (pool_of (net_tp (sv_net demo_server1))) 15 = Some \<lparr>fn = 0, arg = 14, jnext = None\<rparr>"
  "net_ctxs (sv_net demo_server1) = [14 \<mapsto> \<lparr>client_fd = 7, ctx_db = Some 10, ctx_token = None\<rparr>]" "net_fds (sv_net demo_server1) = {7}"
  "conns (sv_net demo_server1) = 1" "refusals (sv_net demo_server1) = 0" "executed (net_tp (sv_net demo_server1)) = []" "alloc_src (sv_sys demo_server1) = (\<lambda>_. True)"
  by (simp_all add: demo_server1_def demo_server_defs demo_workers fun_eq_iff)

lemma demo_server2_step: "server_step demo_pq demo_server1 demo_server2"
  unfolding demo_server2_def by (rule server_step.start_job) (simp_all add: demo_server1_parts)

lemma demo_server2_parts:
  "\<exists>c w. demo_server2 = leave 0 True (Some c) w demo_server1"
  using demo_server1_parts
  by (auto simp: demo_server2_def begin_job_def txn_coordinator_init_def malloc_def Let_def)

lemma demo_server3_eq: "\<exists>c w w'. demo_server2 = leave 0 True (Some c) w demo_server1 \<and> demo_server3 = end_job 0 15 (leave 0 True None w' demo_server2)"
  using demo_server2_parts by (auto simp: demo_server3_def after_read_def)

lemma demo_server3_step: "server_step demo_pq demo_server2 demo_server3"
proof -
  obtain c w where s: "demo_server2 = leave 0 True (Some c) w demo_server1" using demo_server2_parts by blast
  have "length (sv_threads demo_server1) = 4" by (simp add: demo_server1_def demo_server_defs)
  then have t: "t_conn (sv_threads demo_server2 ! 0) = Some c" by (simp add: s)
  show ?thesis unfolding demo_server3_def t option.sel
    by (rule server_step.read [where k = "\<lparr>client_fd = 7, ctx_db = Some 10, ctx_token = None\<rparr>" and c = c and r = Eof])
      (use demo_server1_parts t in \<open>simp_all add: s ctx_of_def fits_def read_step_def\<close>)
qed

lemma demo_server_reach:
  "server_reach demo_pq demo_server0 demo_server2" "server_reach demo_pq demo_server0 demo_server3"
  using server_init demo_accept demo_lock demo_server2_step demo_server3_step server_next by meson+

text \<open>Witness of C5: the server has started, served one connection that its peer closed, and waits.\<close>

theorem server_accounts_witness:
  "conns (sv_net demo_server3) = 1 \<and> executed (net_tp (sv_net demo_server3)) = [15] \<and> net_fds (sv_net demo_server3) = {} \<and>
   refusals (sv_net demo_server3) = 0 \<and> length (accepted (net_tp (sv_net demo_server3))) + drops (sv_net demo_server3) = 1 \<and>
   db_ctxs (sv_sys demo_server3) = Map.empty \<and> list_all thread_ok (sv_threads demo_server3) \<and> 10 \<in> dom (db_conns (sv_sys demo_server3))"
proof -
  note a = server_accounts [OF demo_fresh demo_start demo_server_reach(2) [unfolded demo_server0_def], unfolded Let_def]
  obtain c w w' where s: "demo_server2 = leave 0 True (Some c) w demo_server1" "demo_server3 = end_job 0 15 (leave 0 True None w' demo_server2)"
    using demo_server3_eq by blast
  have "conns (sv_net demo_server3) = 1" "executed (net_tp (sv_net demo_server3)) = [15]" "net_fds (sv_net demo_server3) = {}"
    "refusals (sv_net demo_server3) = 0"
    using demo_server1_parts by (simp_all add: s end_job_def finish_conn_def finish_step_def fd_of_def ctx_of_def)
  with a show ?thesis by (simp add: owned_def)
qed

text \<open>Witness of C6: while the first worker waits for the bytes of its connection.\<close>

theorem server_can_stop_witness:
  "\<exists>S' q v. server_reach demo_pq demo_server2 S' \<and> net_fds (sv_net S') = {} \<and>
     main_stop demo_pq 10 (pool_of (net_tp (sv_net S'))) (main_world demo_boot S') = Some (q, v) \<and> db_conns (w_sys v) = Map.empty"
proof -
  obtain c w where s: "demo_server2 = leave 0 True (Some c) w demo_server1" using demo_server2_parts by blast
  have "\<not> sv_dead demo_server2" using demo_server1_parts(2) by (simp add: s)
  from server_can_stop [OF demo_fresh demo_start demo_server_reach(1) [unfolded demo_server0_def] this] show ?thesis by blast
qed

end
