(* ===== verification/Risk_race.thy ===== *)
theory Risk_race
  imports Risk
begin

section \<open>The velocity limiter without its lock (server/risk.c)\<close>

text \<open>
  The workers call \<open>risk_evaluate\<close> on one table without a lock. Here a call is cut at its accesses to the table: the scan of
  \<open>vel_get\<close>, the initialisation of a new entry, the check of the window, the load and the store of
  \<open>e->count++\<close> and the final comparison. A schedule is the list of the threads that move, one access each. Run without
  interruption, the accesses are \<open>risk_evaluate\<close> (\<open>race_alone\<close>); no schedule leaves the table (\<open>race_in_bounds\<close>); but there are
  schedules in which overlapping calls do not count each other. A scan is one step: the races shown do not depend on torn scans.
\<close>

datatype rpc =
    Called iso_request
  | Missed int int nat string
  | Located int nat
  | Windowed nat
  | Loaded nat int
  | Stored nat
  | Decided risk_decision

definition slot_of :: "int \<Rightarrow> int \<Rightarrow> nat" where
  \<comment> \<open>where \<open>vel_get\<close> puts a card it has not found\<close>
  "slot_of free_idx oldest_idx =
     (let idx = (if free_idx \<ge> 0 then free_idx else oldest_idx); idx = (if idx < 0 then 0 else idx) in nat idx)"

fun access :: "rpc \<Rightarrow> risk \<Rightarrow> 'a sys_scheme \<Rightarrow> rpc \<times> risk \<times> 'a sys_scheme" where
  "access (Called q) r s =
     (if \<not> g_risk_enabled r then (Decided \<lparr>allow = True, reason = []\<rparr>, r, s)
      else
        let (now, s) = time_null s; (vnow, s) = time_null s in
        (case vel_scan (pan q) 0 (g_vel r) (- 1) vnow (- 1) of
           Inl i \<Rightarrow> Located now i
         | Inr (free_idx, oldest_idx) \<Rightarrow> Missed now vnow (slot_of free_idx oldest_idx) (pan q), r, s))"
| "access (Missed now vnow i pn) r s =
     (Located now i, r\<lparr>g_vel := (g_vel r)[i := \<lparr>vpan = clip 64 pn, vstart = vnow, vcount = 0\<rparr>]\<rparr>, s)"
| "access (Located now i) r s =
     (let e = g_vel r ! i in
      (Windowed i, if now - vstart e \<ge> g_vel_window_sec r then r\<lparr>g_vel := (g_vel r)[i := e\<lparr>vstart := now, vcount := 0\<rparr>]\<rparr> else r, s))"
| "access (Windowed i) r s = (Loaded i (vcount (g_vel r ! i)), r, s)"
| "access (Loaded i n) r s = (Stored i, r\<lparr>g_vel := (g_vel r)[i := (g_vel r ! i)\<lparr>vcount := n + 1\<rparr>]\<rparr>, s)"
| "access (Stored i) r s =
     (Decided (if vcount (g_vel r ! i) > g_vel_limit r then \<lparr>allow = False, reason = clip 64 ''risk_velocity''\<rparr>
        else \<lparr>allow = True, reason = []\<rparr>), r, s)"
| "access (Decided d) r s = (Decided d, r, s)"

record 'a race =
  r_pcs :: "rpc list"
  r_tab :: risk
  r_sys :: "'a sys_scheme"

definition race_move :: "nat \<Rightarrow> 'a race \<Rightarrow> 'a race" where
  \<comment> \<open>thread \<open>i\<close> makes its next access\<close>
  "race_move i R =
     (if i < length (r_pcs R) then
        let (pc, r, s) = access (r_pcs R ! i) (r_tab R) (r_sys R) in \<lparr>r_pcs = (r_pcs R)[i := pc], r_tab = r, r_sys = s\<rparr>
      else R)"

definition race_run :: "nat list \<Rightarrow> 'a race \<Rightarrow> 'a race" where
  "race_run sched R = fold race_move sched R"

definition race_start :: "iso_request list \<Rightarrow> risk \<Rightarrow> 'a sys_scheme \<Rightarrow> 'a race" where
  "race_start qs r s = \<lparr>r_pcs = map Called qs, r_tab = r, r_sys = s\<rparr>"

subsection \<open>One call without interruption\<close>

lemma scan_in_bounds:
  assumes "length (g_vel r) = VEL_CAP"
  shows "vel_scan pn 0 (g_vel r) (- 1) t (- 1) = Inl i \<Longrightarrow> i < VEL_CAP"
    "vel_scan pn 0 (g_vel r) (- 1) t (- 1) = Inr (f, oi) \<Longrightarrow> slot_of f oi < VEL_CAP"
proof -
  show "i < VEL_CAP" if "vel_scan pn 0 (g_vel r) (- 1) t (- 1) = Inl i"
    using vel_scan_found [OF that] assms by simp
  show "slot_of f oi < VEL_CAP" if s: "vel_scan pn 0 (g_vel r) (- 1) t (- 1) = Inr (f, oi)"
    using vel_scan_absent [OF s] vel_scan_free [OF s] assms by (auto simp: slot_of_def VEL_CAP_def split: if_splits)
qed

fun accesses :: "nat \<Rightarrow> rpc \<Rightarrow> risk \<Rightarrow> 'a sys_scheme \<Rightarrow> rpc \<times> risk \<times> 'a sys_scheme" where
  "accesses 0 pc r s = (pc, r, s)"
| "accesses (Suc n) pc r s = (let (pc, r, s) = access pc r s in accesses n pc r s)"

lemma accesses_decided: "accesses n (Decided d) r s = (Decided d, r, s)"
  by (induction n) simp_all

lemma accesses_located:
  assumes "i < length (g_vel r)"
  shows "accesses (Suc (Suc (Suc (Suc n)))) (Located now i) r s =
    (let e = g_vel r ! i; e = (if now - vstart e \<ge> g_vel_window_sec r then e\<lparr>vstart := now, vcount := 0\<rparr> else e);
         e = e\<lparr>vcount := vcount e + 1\<rparr> in
     (Decided (if vcount e > g_vel_limit r then \<lparr>allow = False, reason = clip 64 ''risk_velocity''\<rparr> else \<lparr>allow = True, reason = []\<rparr>),
      r\<lparr>g_vel := (g_vel r)[i := e]\<rparr>, s))"
  using assms by (simp add: accesses_decided Let_def)

lemma race_alone:
  assumes "length (g_vel r) = VEL_CAP"
  shows "accesses 6 (Called q) r s = (let (d, r', s') = risk_evaluate (Some q) r s in (Decided d, r', s'))"
proof -
  let ?t = "time_src s (Suc (time_calls s))"
  have six: "accesses 6 pc r s = accesses (Suc (Suc (Suc (Suc (Suc (Suc 0)))))) pc r s" for pc by (simp add: numeral_eq_Suc)
  show ?thesis
  proof (cases "g_risk_enabled r")
    case False
    then show ?thesis by (simp add: six risk_evaluate_def)
  next
    case True
    show ?thesis
    proof (cases "vel_scan (pan q) 0 (g_vel r) (- 1) ?t (- 1)")
      case (Inl i)
      then have "i < length (g_vel r)" using scan_in_bounds(1) [OF assms] assms by simp
      with True Inl show ?thesis
        by (simp add: six risk_evaluate_def vel_get_def time_null_def Let_def)
    next
      case (Inr x)
      obtain f oi where x: "x = (f, oi)" by force
      then have "slot_of f oi < length (g_vel r)" using scan_in_bounds(2) [OF assms] assms Inr by simp
      with True Inr show ?thesis
        by (simp add: six risk_evaluate_def vel_get_def time_null_def Let_def x slot_of_def)
    qed
  qed
qed

subsection \<open>No schedule leaves the table\<close>

fun pc_ok :: "rpc \<Rightarrow> bool" where
  "pc_ok (Missed now vnow i pn) = (i < VEL_CAP)"
| "pc_ok (Located now i) = (i < VEL_CAP)"
| "pc_ok (Windowed i) = (i < VEL_CAP)"
| "pc_ok (Loaded i n) = (i < VEL_CAP)"
| "pc_ok (Stored i) = (i < VEL_CAP)"
| "pc_ok _ = True"

lemma access_ok:
  assumes "access pc r s = (pc', r', s')" "pc_ok pc" "length (g_vel r) = VEL_CAP"
  shows "pc_ok pc' \<and> length (g_vel r') = VEL_CAP \<and> settings r' = settings r"
proof (cases pc)
  case (Called q)
  with assms scan_in_bounds [OF assms(3), of "pan q"] show ?thesis
    by (auto simp: time_null_def Let_def settings_def split: if_splits sum.splits prod.splits)
qed (use assms in \<open>auto simp: settings_def Let_def split: if_splits\<close>)

lemma race_move_ok:
  assumes "list_all pc_ok (r_pcs R)" "length (g_vel (r_tab R)) = VEL_CAP"
  shows "list_all pc_ok (r_pcs (race_move i R)) \<and> length (g_vel (r_tab (race_move i R))) = VEL_CAP \<and>
    length (r_pcs (race_move i R)) = length (r_pcs R)"
proof (cases "i < length (r_pcs R)")
  case True
  obtain pc r s where a: "access (r_pcs R ! i) (r_tab R) (r_sys R) = (pc, r, s)" by (metis prod_cases3)
  have "pc_ok (r_pcs R ! i)" using assms(1) True by (simp add: list_all_length)
  from access_ok [OF a this assms(2)] a assms(1) True show ?thesis
    by (auto simp: race_move_def list_all_length nth_list_update)
qed (use assms in \<open>simp add: race_move_def\<close>)

lemma race_in_bounds:
  assumes "length (g_vel r) = VEL_CAP"
  shows "list_all pc_ok (r_pcs (race_run sched (race_start qs r s))) \<and> length (g_vel (r_tab (race_run sched (race_start qs r s)))) = VEL_CAP"
proof -
  have "list_all pc_ok (r_pcs R) \<and> length (g_vel (r_tab R)) = VEL_CAP \<Longrightarrow>
    list_all pc_ok (r_pcs (fold race_move sched R)) \<and> length (g_vel (r_tab (fold race_move sched R))) = VEL_CAP" for R :: "'a race"
    by (induction sched arbitrary: R) (simp_all add: race_move_ok)
  from this [of "race_start qs r s"] assms show ?thesis by (simp add: race_run_def race_start_def list.pred_map list_all_length)
qed

subsection \<open>A schedule that defeats the limit\<close>

definition overlapping :: "nat \<Rightarrow> nat list" where
  \<comment> \<open>one schedule of \<open>m\<close> calls: every thread scans the table before the first of them has entered the card, then each
      finishes in turn; other schedules with the same scans can end differently\<close>
  "overlapping m = [0..<m] @ concat (map (replicate 5) [0..<m])"

definition allowed :: rpc where
  "allowed = Decided \<lparr>allow = True, reason = []\<rparr>"

definition missed :: "string \<Rightarrow> rpc \<Rightarrow> bool" where
  "missed pn pc \<longleftrightarrow> (\<exists>now vnow i. pc = Missed now vnow i pn \<and> i < VEL_CAP)"

lemma scan_misses:
  assumes "\<forall>e \<in> set (g_vel r). vpan e = [] \<or> vpan e \<noteq> pan q" "g_risk_enabled r" "length (g_vel r) = VEL_CAP"
  shows "\<exists>pc s'. access (Called q) r s = (pc, r, s') \<and> missed (pan q) pc"
proof -
  let ?t = "time_src s (Suc (time_calls s))"
  have "\<exists>f oi. vel_scan (pan q) 0 (g_vel r) (- 1) ?t (- 1) = Inr (f, oi)"
  proof (cases "vel_scan (pan q) 0 (g_vel r) (- 1) ?t (- 1)")
    case (Inl i)
    from vel_scan_found [OF this] have "g_vel r ! i \<in> set (g_vel r)" "vpan (g_vel r ! i) = pan q" "pan q \<noteq> []" by auto
    with assms(1) show ?thesis by metis
  next
    case (Inr x)
    then show ?thesis by (cases x) simp
  qed
  then obtain f oi where f: "vel_scan (pan q) 0 (g_vel r) (- 1) ?t (- 1) = Inr (f, oi)" by blast
  with assms(2) scan_in_bounds(2) [OF assms(3) f] show ?thesis
    by (auto simp: time_null_def missed_def Let_def)
qed

lemma all_scan:
  assumes "r_pcs R = ps @ replicate m (Called q)" "list_all (missed (pan q)) ps"
    and "\<forall>e \<in> set (g_vel (r_tab R)). vpan e = [] \<or> vpan e \<noteq> pan q" "g_risk_enabled (r_tab R)" "length (g_vel (r_tab R)) = VEL_CAP"
  shows "\<exists>ws s. fold race_move [length ps..<length ps + m] R = \<lparr>r_pcs = ws, r_tab = r_tab R, r_sys = s\<rparr> \<and>
    length ws = length ps + m \<and> list_all (missed (pan q)) ws"
  using assms
proof (induction m arbitrary: ps R)
  case 0
  then show ?case by (intro exI [of _ ps] exI [of _ "r_sys R"]) simp
next
  case (Suc m)
  obtain pc s' where a: "access (Called q) (r_tab R) (r_sys R) = (pc, r_tab R, s')" "missed (pan q) pc"
    using scan_misses [OF Suc.prems(3-5)] by blast
  let ?R = "\<lparr>r_pcs = (ps @ [pc]) @ replicate m (Called q), r_tab = r_tab R, r_sys = s'\<rparr>"
  have "race_move (length ps) R = ?R" using Suc.prems(1) a(1) by (simp add: race_move_def nth_append)
  moreover have "[length ps..<length ps + Suc m] = length ps # [length (ps @ [pc])..<length (ps @ [pc]) + m]" by (simp add: upt_rec)
  moreover have "\<exists>ws s. fold race_move [length (ps @ [pc])..<length (ps @ [pc]) + m] ?R = \<lparr>r_pcs = ws, r_tab = r_tab R, r_sys = s\<rparr> \<and>
      length ws = length (ps @ [pc]) + m \<and> list_all (missed (pan q)) ws"
    using Suc.IH [of ?R "ps @ [pc]"] Suc.prems a(2) by simp
  ultimately show ?case by simp
qed

lemma race_turn:
  assumes "i < length (r_pcs R)"
  shows "fold race_move (replicate n i) R =
    (let (pc, r, s) = accesses n (r_pcs R ! i) (r_tab R) (r_sys R) in \<lparr>r_pcs = (r_pcs R)[i := pc], r_tab = r, r_sys = s\<rparr>)"
  using assms
proof (induction n arbitrary: R)
  case 0
  then show ?case by simp
next
  case (Suc n)
  then show ?case by (simp add: race_move_def case_prod_beta Let_def)
qed

lemma late_entry:
  assumes "missed pn pc" "length (g_vel r) = VEL_CAP" "1 \<le> g_vel_limit r"
  shows "\<exists>r'. accesses 5 pc r s = (allowed, r', s) \<and> length (g_vel r') = VEL_CAP \<and> g_vel_limit r' = g_vel_limit r"
proof -
  obtain now vnow i where pc: "pc = Missed now vnow i pn" "i < length (g_vel r)" using assms(1,2) by (auto simp: missed_def)
  have "accesses 5 p r s = accesses (Suc (Suc (Suc (Suc (Suc 0))))) p r s" for p by (simp add: numeral_eq_Suc)
  with pc assms(2,3) show ?thesis by (simp add: allowed_def Let_def)
qed

lemma all_finish:
  assumes "r_pcs R = replicate k allowed @ ws" "list_all (missed pn) ws" "length (g_vel (r_tab R)) = VEL_CAP" "1 \<le> g_vel_limit (r_tab R)"
  shows "r_pcs (fold race_move (concat (map (replicate 5) [k..<k + length ws])) R) = replicate (k + length ws) allowed"
  using assms
proof (induction ws arbitrary: k R)
  case Nil
  then show ?case by simp
next
  case (Cons w ws)
  obtain r' where r': "accesses 5 w (r_tab R) (r_sys R) = (allowed, r', r_sys R)" "length (g_vel r') = VEL_CAP" "1 \<le> g_vel_limit r'"
    using late_entry [of pn w "r_tab R" "r_sys R"] Cons.prems by auto
  let ?R = "\<lparr>r_pcs = replicate (Suc k) allowed @ ws, r_tab = r', r_sys = r_sys R\<rparr>"
  have "fold race_move (replicate 5 k) R = ?R"
    using Cons.prems(1) r'(1) by (subst race_turn) (simp_all add: nth_append list_update_append replicate_append_same [symmetric])
  moreover have "r_pcs (fold race_move (concat (map (replicate 5) [Suc k..<Suc k + length ws])) ?R) = replicate (Suc k + length ws) allowed"
    using Cons.IH [of ?R "Suc k"] Cons.prems(2) r'(2,3) by simp
  moreover have "[k..<k + length (w # ws)] = k # [Suc k..<Suc k + length ws]" by (simp add: upt_rec)
  ultimately show ?case by simp
qed

lemma limit_positive: "1 \<le> g_vel_limit (risk_init s0 risk_start)"
  by (simp add: risk_init_def env_positive_def risk_start_def Let_def split: option.split)

text \<open>
  C36. There is a schedule that evades the limit. Take a card within its window and more requests than the limit allows. One after
  the other, the limiter refuses the last. In the schedule \<open>overlapping m\<close>, in which all threads scan the table before the first of
  them has entered the card and then finish one after the other, every one of the requests is allowed, however many there are: each
  thread initialises the entry anew and forgets the requests counted before. Nothing is claimed of other schedules.
\<close>

theorem risk_race_bypasses_limit:
  assumes "g_risk_enabled (risk_init s0 risk_start)" and "pan q \<noteq> []" and "length (pan q) < 64"
    and "g_vel_limit (risk_init s0 risk_start) < int m"
    and "\<forall>k. t0 \<le> time_src s k \<and> time_src s k < t0 + g_vel_window_sec (risk_init s0 risk_start)"
  shows "\<not> last (fst (risk_run (replicate m q) (risk_init s0 risk_start) s)) \<and>
    r_pcs (race_run (overlapping m) (race_start (replicate m q) (risk_init s0 risk_start) s)) = replicate m allowed"
proof -
  define r where r_def: "r = risk_init s0 risk_start"
  note a = assms [folded r_def]
  have m: "0 < m" using a(4) limit_positive [of s0] by (simp add: r_def)
  have "card (pan ` set (replicate m q)) \<le> VEL_CAP" using m by (simp add: VEL_CAP_def)
  then have run: "fst (risk_run (replicate m q) r s) = velocity_spec (g_vel_limit r) (\<lambda>_. 0) (replicate m (pan q))"
    using risk_init_run [of s0 risk_start "replicate m q" t0 s] a by (simp add: r_def)
  have "count_list (replicate m (pan q)) (pan q) = m" by (induction m) simp_all
  with m have seq: "\<not> last (fst (risk_run (replicate m q) r s))"
    unfolding run velocity_spec_counts using a(4) by (simp add: last_conv_nth)
  have tab: "length (g_vel r) = VEL_CAP" "\<forall>e \<in> set (g_vel r). vpan e = [] \<or> vpan e \<noteq> pan q"
    by (simp_all add: r_def risk_init_def vel_zero_def)
  obtain ws s' where ws: "fold race_move [0..<m] (race_start (replicate m q) r s) = \<lparr>r_pcs = ws, r_tab = r, r_sys = s'\<rparr>"
    "length ws = m" "list_all (missed (pan q)) ws"
    using all_scan [of "race_start (replicate m q) r s" "[]" m q] tab a(1) by (auto simp: race_start_def)
  have "r_pcs (fold race_move (concat (map (replicate 5) [0..<0 + length ws])) \<lparr>r_pcs = ws, r_tab = r, r_sys = s'\<rparr>) = replicate (0 + length ws) allowed"
    using limit_positive [of s0] ws(3) tab(1) by (intro all_finish [where pn = "pan q"]) (simp_all add: r_def)
  with ws have "r_pcs (race_run (overlapping m) (race_start (replicate m q) r s)) = replicate m allowed"
    by (simp add: race_run_def overlapping_def)
  with seq show ?thesis by (simp add: r_def)
qed

subsection \<open>A concrete instance\<close>

definition demo_limit_one :: sys where
  "demo_limit_one = demo_risk_sys\<lparr>env_src := (\<lambda>n. if n = ''RISK_VEL_LIMIT'' then Some ''1'' else None)\<rparr>"

text \<open>Witness of C36: with a limit of one, two workers in this schedule both allow a request of the same card.\<close>

theorem risk_race_bypasses_limit_witness:
  "\<not> last (fst (risk_run [demo_request ''41'', demo_request ''41''] (risk_init demo_limit_one risk_start) demo_limit_one)) \<and>
   r_pcs (race_run [0, 1, 0, 0, 0, 0, 0, 1, 1, 1, 1, 1]
     (race_start [demo_request ''41'', demo_request ''41''] (risk_init demo_limit_one risk_start) demo_limit_one)) = [allowed, allowed]"
proof -
  let ?r = "risk_init demo_limit_one risk_start"
  have lim: "g_vel_limit ?r = 1" "g_vel_window_sec ?r = 60" "g_risk_enabled ?r"
    by (simp_all add: risk_init_def env_positive_def demo_limit_one_def demo_risk_sys_def risk_start_def atoi_def strtol_def
        isspace_def isdigit_def code_of_def digit_val_def clamp_long_def long_max_def long_min_def to_int32_def)
  have "replicate 2 (demo_request ''41'') = [demo_request ''41'', demo_request ''41'']" "overlapping 2 = [0, 1, 0, 0, 0, 0, 0, 1, 1, 1, 1, 1]"
    "replicate 2 allowed = [allowed, allowed]"
    by (simp_all add: overlapping_def numeral_eq_Suc upt_rec)
  with risk_race_bypasses_limit [of demo_limit_one "demo_request ''41''" 2 1000 demo_limit_one] lim show ?thesis
    by (simp add: demo_request_def demo_limit_one_def demo_risk_sys_def)
qed

end
