(* ===== verification/Logging.thy ===== *)
theory Logging
  imports Iso8583 Sys
begin

section \<open>Log lines (server/log.c)\<close>

text \<open>
  The text that a \<open>Log\<close> event of the trace stands for. \<open>localtime_r\<close> and \<open>strftime\<close> are outside the
  sources: the local time in the form \<open>%Y-%m-%d %H:%M:%S\<close> is an argument. Null pointers are \<^const>\<open>None\<close>.
\<close>

definition pad3 :: "nat \<Rightarrow> string" where
  \<comment> \<open>\<open>%03d\<close>\<close>
  "pad3 n = (let t = show_nat n in replicate (3 - length t) (CHR ''0'') @ t)"

definition fmt_timestamp :: "nat \<Rightarrow> string \<Rightarrow> nat \<Rightarrow> string" where
  \<comment> \<open>buffer size, local time, \<open>tv_nsec\<close>\<close>
  "fmt_timestamp n local nsec =
     (if length local + 4 < n then local @ clip (n - length local) (CHR ''.'' # pad3 (nsec div 1000000)) else local)"

definition log_message :: "string \<Rightarrow> string option \<Rightarrow> string option \<Rightarrow> string" where
  "log_message ts level msg =
     ts @ '' '' @ (case level of None \<Rightarrow> ''INFO'' | Some l \<Rightarrow> l) @ '' '' @ (case msg of None \<Rightarrow> '''' | Some m \<Rightarrow> m) @ [CHR 0x0A]"

definition opt_field :: "string \<Rightarrow> string option \<Rightarrow> string" where
  \<comment> \<open>\<open>if (v && v[0]) fprintf(stderr, ",\"name\":\"%s\"", v)\<close>\<close>
  "opt_field name v =
     (case v of None \<Rightarrow> [] | Some t \<Rightarrow> if t = [] then [] else '',\"'' @ name @ ''\":\"'' @ t @ ''\"'')"

definition log_message_json ::
    "string \<Rightarrow> string option \<Rightarrow> string option \<Rightarrow> string option \<Rightarrow> string option \<Rightarrow> int \<Rightarrow> string" where
  "log_message_json ts level event rid status latency_us =
     ''{\"ts\":\"'' @ ts @ ''\",\"lvl\":\"'' @ (case level of None \<Rightarrow> ''INFO'' | Some l \<Rightarrow> l) @
     ''\",\"event\":\"'' @ (case event of None \<Rightarrow> ''event'' | Some e \<Rightarrow> e) @ ''\"'' @
     opt_field ''request_id'' rid @ opt_field ''status'' status @
     (if latency_us \<ge> 0 then '',\"latency_us\":'' @ show_int latency_us else []) @ ''}'' @ [CHR 0x0A]"

definition log_text :: "string \<Rightarrow> event \<Rightarrow> string option" where
  \<comment> \<open>the line a \<open>Log\<close> event puts on \<open>stderr\<close>\<close>
  "log_text ts e =
     (case e of Log lvl ev rid st lat \<Rightarrow> Some (log_message_json ts (Some lvl) (Some ev) rid (Some st) lat) | _ \<Rightarrow> None)"

subsection \<open>A log line is one flat object\<close>

definition opt_member :: "string \<Rightarrow> string option \<Rightarrow> (string \<times> jvalue) list" where
  "opt_member name v = (case v of None \<Rightarrow> [] | Some t \<Rightarrow> if t = [] then [] else [(name, Quoted t)])"

definition log_members :: "string \<Rightarrow> string \<Rightarrow> string \<Rightarrow> string option \<Rightarrow> string \<Rightarrow> int \<Rightarrow> (string \<times> jvalue) list" where
  \<comment> \<open>the members of the line, in order\<close>
  "log_members ts lvl ev rid st lat =
     [(''ts'', Quoted ts), (''lvl'', Quoted lvl), (''event'', Quoted ev)] @ opt_member ''request_id'' rid @
     opt_member ''status'' (Some st) @ (if lat \<ge> 0 then [(''latency_us'', Bare (show_int lat))] else [])"

lemma log_message_json_object:
  "log_message_json ts (Some lvl) (Some ev) rid (Some st) lat = jobject (log_members ts lvl ev rid st lat) @ [CHR 0x0A]"
  by (cases rid) (auto simp: log_message_json_def log_members_def jobject_def opt_field_def opt_member_def)

definition log_fields :: "string list" where
  "log_fields = [''ts'', ''lvl'', ''event'', ''request_id'', ''status'', ''latency_us'']"

definition loggable :: "string \<Rightarrow> bool" where
  \<comment> \<open>a text without quotes and line breaks that is not the name of a field\<close>
  "loggable t \<longleftrightarrow> quote \<notin> set t \<and> CHR 0x0A \<notin> set t \<and> t \<notin> set log_fields"

lemma digit_plain: "isdigit c \<Longrightarrow> \<not> bare_end c \<and> c \<noteq> quote \<and> c \<noteq> CHR 0x0A"
  by (auto simp: bare_end_def isspace_def isdigit_def code_of_def)

lemma show_int_plain: "0 \<le> i \<Longrightarrow> c \<in> set (show_int i) \<Longrightarrow> \<not> bare_end c \<and> c \<noteq> quote \<and> c \<noteq> CHR 0x0A"
  using show_nat_digits [of "nat i"] digit_plain by (simp add: show_int_def)

lemma bare_show_int: "0 \<le> i \<Longrightarrow> value_ok k (Bare (show_int i))"
  using show_int_plain [of i] show_nat_nonempty [of "nat i"] by (auto simp: show_int_def)

text \<open>
  C25. Every log line can be read back: for texts without quotes and line breaks that are not
  themselves field names, the line of a \<open>Log\<close> event is a single line, and looking up any of the six
  field names in it with the parser of the request lines gives what was logged: the texts, the
  decimal latency when it is not negative, and nothing for a field that was left out.
\<close>

theorem log_text_roundtrip:
  assumes "log_text ts (Log lvl ev rid st lat) = Some line" and "k \<in> set log_fields"
    and "\<forall>t \<in> {ts, lvl, ev, st} \<union> set_option rid. loggable t"
  shows "last line = CHR 0x0A \<and> CHR 0x0A \<notin> set (butlast line) \<and>
    jget (butlast line) k n =
      (if k = ''ts'' then Some (clip n ts) else if k = ''lvl'' then Some (clip n lvl) else if k = ''event'' then Some (clip n ev)
       else if k = ''request_id'' then (case rid of None \<Rightarrow> None | Some r \<Rightarrow> if r = [] then None else Some (clip n r))
       else if k = ''status'' then (if st = [] then None else Some (clip n st))
       else if 0 \<le> lat then Some (clip n (show_int lat)) else None)"
proof -
  let ?fs = "log_members ts lvl ev rid st lat"
  have line: "line = jobject ?fs @ [CHR 0x0A]" using assms(1) by (simp add: log_text_def log_message_json_object)
  have ok: "\<forall>t \<in> {ts, lvl, ev, st} \<union> set_option rid. quote \<notin> set t \<and> CHR 0x0A \<notin> set t \<and> t \<noteq> k"
    using assms(2,3) by (auto simp: loggable_def)
  have "key_ok k" using assms(2) by (auto simp: log_fields_def key_ok_def)
  moreover have "\<forall>f \<in> set ?fs. member_ok k f"
    using ok bare_show_int [of lat k] by (cases rid) (auto simp: log_members_def opt_member_def member_ok_def simp del: value_ok.simps(2))
  ultimately have "jget (jobject ?fs) k n = map_option (\<lambda>v. clip n (jval v)) (map_of ?fs k)" by (rule jget_object)
  moreover have "CHR 0x0A \<notin> set (jobject ?fs)"
    using ok show_int_plain [of lat "CHR 0x0A"]
    by (cases rid) (auto simp: log_members_def opt_member_def jobject_def)
  ultimately show ?thesis
    using assms(2) by (cases rid) (auto simp: line log_fields_def log_members_def opt_member_def)
qed

text \<open>Witness of C25.\<close>

theorem log_text_roundtrip_witness:
  "\<exists>line. log_text ''12:00'' (Log ''INFO'' ''tx'' (Some ''r1'') ''APPROVED'' 250) = Some line \<and>
     jget (butlast line) ''request_id'' 64 = Some ''r1''"
proof -
  obtain line where l: "log_text ''12:00'' (Log ''INFO'' ''tx'' (Some ''r1'') ''APPROVED'' 250) = Some line"
    by (simp add: log_text_def)
  from log_text_roundtrip [OF l, of "''request_id''" 64] l show ?thesis
    by (simp add: log_fields_def loggable_def clip_def)
qed

end
