(* ===== verification/Loadgen.thy ===== *)
theory Loadgen
  imports Prelude "HOL-Library.Log_Nat" "HOL-Library.Signed_Division"
begin

section \<open>The load generator (client/loadgen.c)\<close>

text \<open>
  The worker threads and the report. What the sockets and the clock answer in one iteration of
  \<open>worker_main\<close> is a value of type \<open>io\<close>, and the iterations of the workers interleave in any order
  (\<open>load_step\<close>): an iteration touches shared state only by one atomic increment. Double arithmetic
  on the percentile indices is written out with rounding to 53 bits; the wall-clock time, the rate and the text printed are
  not modelled, nor are a failing \<open>pthread_create\<close> and the two \<open>calloc\<close> calls, which the program does not check.
\<close>

subsection \<open>Workers\<close>

record io =
  sock_fd :: int
  connect_ok :: bool
  send_n :: int
  io_t0 :: "int \<times> int"
  io_t1 :: "int \<times> int"
  realloc_ok :: bool

definition connect_once :: "io \<Rightarrow> int" where
  "connect_once x = (if sock_fd x < 0 then - 1 else if \<not> connect_ok x then - 1 else sock_fd x)"

definition latency_us :: "int \<times> int \<Rightarrow> int \<times> int \<Rightarrow> 64 word" where
  "latency_us t0 t1 = word_of_int (fst t1 - fst t0) * 1000000 + word_of_int ((snd t1 - snd t0) sdiv 1000)"

record lat =
  lat_a :: "64 word list"
    \<comment> \<open>the first \<open>n\<close> entries\<close>
  lat_cap :: nat

definition lat_push :: "64 word \<Rightarrow> bool \<Rightarrow> lat \<Rightarrow> lat" where
  "lat_push us can_grow l =
     (let l = (if length (lat_a l) = lat_cap l
               then let nc = (if lat_cap l \<noteq> 0 then lat_cap l * 2 else 1024)
                    in if can_grow then l\<lparr>lat_cap := nc\<rparr> else l
               else l)
      in if length (lat_a l) < lat_cap l then l\<lparr>lat_a := lat_a l @ [us]\<rparr> else l)"

record load =
  ok :: "64 word"
  err :: "64 word"
  iters :: "nat list"
    \<comment> \<open>the variable \<open>i\<close> of each worker\<close>
  lats :: "lat list"

definition worker_iter :: "io \<Rightarrow> nat \<Rightarrow> load \<Rightarrow> load" where
  \<comment> \<open>one iteration of worker \<open>i\<close>\<close>
  "worker_iter x i l =
     (let l = l\<lparr>iters := (iters l)[i := Suc (iters l ! i)]\<rparr> in
      if connect_once x < 0 then l\<lparr>err := err l + 1\<rparr>
      else if send_n x < 0 then l\<lparr>err := err l + 1\<rparr>
      else l\<lparr>ok := ok l + 1,
             lats := (lats l)[i := lat_push (latency_us (io_t0 x) (io_t1 x)) (realloc_ok x) (lats l ! i)]\<rparr>)"

inductive load_step :: "int \<Rightarrow> (nat \<Rightarrow> nat \<Rightarrow> io) \<Rightarrow> load \<Rightarrow> load \<Rightarrow> bool" for reqs src where
  iter: "i < length (iters l) \<Longrightarrow> int (iters l ! i) < reqs \<Longrightarrow>
     load_step reqs src l (worker_iter (src i (iters l ! i)) i l)"

inductive_cases load_stepE: "load_step reqs src l l'"

inductive load_reach :: "int \<Rightarrow> (nat \<Rightarrow> nat \<Rightarrow> io) \<Rightarrow> load \<Rightarrow> load \<Rightarrow> bool" for reqs src l0 where
  load_init: "load_reach reqs src l0 l0"
| load_next: "load_reach reqs src l0 l \<Longrightarrow> load_step reqs src l l' \<Longrightarrow> load_reach reqs src l0 l'"

definition load_start :: "int \<Rightarrow> load" where
  "load_start conns = \<lparr>ok = 0, err = 0, iters = replicate (nat conns) 0,
     lats = replicate (nat conns) \<lparr>lat_a = [], lat_cap = 0\<rparr>\<rparr>"

definition all_joined :: "int \<Rightarrow> load \<Rightarrow> bool" where
  \<comment> \<open>every \<open>pthread_join\<close> has returned\<close>
  "all_joined reqs l \<longleftrightarrow> list_all (\<lambda>k. reqs \<le> int k) (iters l)"

subsection \<open>The report\<close>

definition loadgen_args :: "string list \<Rightarrow> (int \<times> int \<times> int) option" where
  \<comment> \<open>\<open>argv\<close> after the program name; \<^const>\<open>None\<close> is \<open>return 1\<close>\<close>
  "loadgen_args argv =
     (case argv of
        [a, b, c] \<Rightarrow>
          (let conns = atoi a; reqs = atoi b; port = atoi c in
           if conns \<le> 0 \<or> reqs \<le> 0 \<or> port \<le> 0 then None else Some (conns, reqs, port))
      | _ \<Rightarrow> None)"

definition merged :: "load \<Rightarrow> 64 word list" where
  "merged l = concat (map lat_a (lats l))"

definition round53 :: "nat \<Rightarrow> nat" where
  \<comment> \<open>rounding to 53 significant bits, ties to even\<close>
  "round53 n =
     (let k = floorlog 2 n - 53; q = n div 2 ^ k; r = n mod 2 ^ k in
      (if 2 * r < 2 ^ k \<or> 2 * r = 2 ^ k \<and> even q then q else q + 1) * 2 ^ k)"

definition pct_index :: "nat \<Rightarrow> nat \<Rightarrow> nat" where
  \<comment> \<open>\<open>(size_t)(n * x)\<close> for the double \<open>x = m / 2^53\<close>\<close>
  "pct_index m n = round53 (round53 n * m) div 2 ^ 53"

definition p50_m :: nat where "p50_m = 4503599627370496"
definition p95_m :: nat where "p95_m = 8556839292003942"
definition p99_m :: nat where "p99_m = 8917127262193582"

record report =
  sent_ok :: "64 word"
  sent_err :: "64 word"
  p50 :: "64 word"
  p95 :: "64 word"
  p99 :: "64 word"

definition load_report :: "bool \<Rightarrow> load \<Rightarrow> report option" where
  \<comment> \<open>from the merge to the line printed; \<^const>\<open>None\<close>: \<open>malloc\<close> failed and \<open>memcpy\<close> writes to the null pointer\<close>
  "load_report malloc_ok l =
     (let n = length (merged l) in
      if n = 0 then Some \<lparr>sent_ok = ok l, sent_err = err l, p50 = 0, p95 = 0, p99 = 0\<rparr>
      else if \<not> malloc_ok then None
      else let xs = (if 1 < n then sort (merged l) else merged l) in
           Some \<lparr>sent_ok = ok l, sent_err = err l, p50 = xs ! pct_index p50_m (n - 1),
                 p95 = xs ! pct_index p95_m (n - 1), p99 = xs ! pct_index p99_m (n - 1)\<rparr>)"

subsection \<open>Counters and latencies\<close>

definition load_inv :: "load \<Rightarrow> bool" where
  "load_inv l \<longleftrightarrow> length (lats l) = length (iters l) \<and> ok l + err l = of_nat (sum_list (iters l)) \<and>
     list_all (\<lambda>b. length (lat_a b) \<le> lat_cap b) (lats l) \<and>
     (\<forall>i < length (iters l). length (lat_a (lats l ! i)) \<le> iters l ! i)"

lemma sum_list_Suc: "i < length xs \<Longrightarrow> sum_list (xs[i := Suc (xs ! i)]) = Suc (sum_list xs)"
  by (simp add: sum_list_update Suc_diff_le elem_le_sum_list)

lemma lat_push_length:
  "length (lat_a b) \<le> lat_cap b \<Longrightarrow> length (lat_a (lat_push us g b)) \<le> lat_cap (lat_push us g b)"
  "length (lat_a (lat_push us g b)) \<le> Suc (length (lat_a b))"
  by (auto simp: lat_push_def Let_def)

lemma worker_iter_inv:
  assumes "load_inv l" "i < length (iters l)"
  shows "load_inv (worker_iter x i l)"
proof -
  let ?b = "lat_push (latency_us (io_t0 x) (io_t1 x)) (realloc_ok x) (lats l ! i)"
  have b: "length (lat_a ?b) \<le> lat_cap ?b" "length (lat_a ?b) \<le> Suc (iters l ! i)"
    using assms lat_push_length [where b = "lats l ! i"]
    by (auto simp: load_inv_def list_all_length intro: le_trans [OF lat_push_length(2)])
  have "list_all (\<lambda>b. length (lat_a b) \<le> lat_cap b) ((lats l)[i := ?b])"
    using assms b(1) by (auto simp: load_inv_def list_all_length nth_list_update)
  moreover have "\<forall>k < length (iters l). length (lat_a ((lats l)[i := ?b] ! k)) \<le> (iters l)[i := Suc (iters l ! i)] ! k"
    "\<forall>k < length (iters l). length (lat_a (lats l ! k)) \<le> (iters l)[i := Suc (iters l ! i)] ! k"
    using assms b(2) by (auto simp: load_inv_def nth_list_update le_Suc_eq)
  ultimately show ?thesis
    using assms by (simp add: load_inv_def worker_iter_def Let_def sum_list_Suc algebra_simps)
qed

lemma load_reach_inv: "load_reach reqs src (load_start conns) l \<Longrightarrow> load_inv l"
proof (induction rule: load_reach.induct)
  case load_init
  show ?case by (simp add: load_inv_def load_start_def list_all_length sum_list_replicate)
next
  case (load_next l l')
  then show ?case by (auto elim!: load_stepE intro: worker_iter_inv)
qed

lemma load_reach_iters:
  "load_reach reqs src (load_start conns) l \<Longrightarrow> 0 \<le> reqs \<Longrightarrow>
     length (iters l) = nat conns \<and> (\<forall>k \<in> set (iters l). int k \<le> reqs)"
proof (induction rule: load_reach.induct)
  case load_init
  then show ?case by (simp add: load_start_def)
next
  case (load_next l l')
  from load_next(2) obtain i where i: "i < length (iters l)" "int (iters l ! i) < reqs" "iters l' = (iters l)[i := Suc (iters l ! i)]"
    by (auto elim!: load_stepE simp: worker_iter_def Let_def)
  with load_next(3,4) show ?case by (auto dest!: subsetD [OF set_update_subset_insert])
qed

lemma latency_us_close:
  assumes "0 \<le> snd t0" "snd t0 < 10 ^ 9" "0 \<le> snd t1" "snd t1 < 10 ^ 9" "fst t1 - fst t0 < 2 ^ 40"
    and "ns = (fst t1 - fst t0) * 10 ^ 9 + (snd t1 - snd t0)" "0 \<le> ns"
  shows "\<bar>1000 * uint (latency_us t0 t1) - ns\<bar> < 1000"
proof -
  let ?d = "fst t1 - fst t0" and ?e = "snd t1 - snd t0"
  have e: "\<bar>1000 * (?e sdiv 1000) - ?e\<bar> < 1000" 
  proof (cases "0 \<le> ?e")
    case True
    then have "?e sdiv 1000 = ?e div 1000" by (cases "?e = 0") (simp_all add: signed_divide_int_def sgn_if)
    then show ?thesis by auto
  next
    case False
    then have "?e sdiv 1000 = - ((- ?e) div 1000)" by (simp add: signed_divide_int_def sgn_if)
    then show ?thesis by auto
  qed
  have d: "0 \<le> ?d" using assms by simp
  have r: "0 \<le> ?d * 1000000 + ?e sdiv 1000" "?d * 1000000 + ?e sdiv 1000 < 2 ^ 64" using e d assms by auto
  have "latency_us t0 t1 = word_of_int (?d * 1000000 + ?e sdiv 1000)" by (simp add: latency_us_def)
  then have "uint (latency_us t0 t1) = ?d * 1000000 + ?e sdiv 1000"
    using r by (simp only: uint_word_of_int) simp
  then show ?thesis using e assms(6) by simp
qed

subsection \<open>Percentiles\<close>

lemma round53_between:
  assumes "2 ^ k * a \<le> n" "n \<le> 2 ^ k * b" "k = floorlog 2 n - 53"
  shows "2 ^ k * a \<le> round53 n" "round53 n \<le> 2 ^ k * b"
proof -
  let ?q = "n div 2 ^ k" and ?r = "n mod 2 ^ k"
  have n: "n = 2 ^ k * ?q + ?r" "?r < 2 ^ k" by (simp_all add: mult.commute)
  have e: "round53 n = (if 2 * ?r < 2 ^ k \<or> 2 * ?r = 2 ^ k \<and> even ?q then ?q else ?q + 1) * 2 ^ k"
    using assms(3) by (simp add: round53_def Let_def)
  have "a \<le> ?q" using assms(1) by (metis div_le_mono div_mult_self1_is_m nat_zero_less_power_iff zero_less_numeral)
  then show "2 ^ k * a \<le> round53 n" unfolding e by (auto simp: mult.commute)
  have "?q \<le> b" using assms(2) by (metis div_le_mono div_mult_self1_is_m nat_zero_less_power_iff zero_less_numeral)
  moreover have "?q \<noteq> b" if "0 < ?r"
  proof
    assume "?q = b"
    with n assms(2) that show False by (metis add_le_cancel_left add.right_neutral not_le)
  qed
  ultimately have "?q < b \<or> ?r = 0" by linarith
  then show "round53 n \<le> 2 ^ k * b" unfolding e using \<open>?q \<le> b\<close> by (auto simp: mult.commute)
qed

lemma round53_exact: "2 ^ (floorlog 2 n - 53) dvd n \<Longrightarrow> round53 n = n"
  by (simp add: round53_def Let_def dvd_imp_mod_0)

lemma round53_scaled:
  assumes "n < 2 ^ 53"
  shows "round53 (n * 2 ^ j) = n * 2 ^ j"
proof (cases "n = 0")
  case False
  have "floorlog 2 n \<le> 53" using assms by (intro floorlog_leI) simp_all
  then have "floorlog 2 (n * 2 ^ j) - 53 \<le> j" using False by simp
  then have "2 ^ (floorlog 2 (n * 2 ^ j) - 53) dvd n * 2 ^ j" by (simp add: le_imp_power_dvd)
  then show ?thesis by (rule round53_exact)
qed (simp add: round53_exact)

lemma round53_mono:
  assumes "n \<le> n'"
  shows "round53 n \<le> round53 n'"
proof -
  let ?k = "floorlog 2 n - 53" and ?k' = "floorlog 2 n' - 53"
  have fl: "floorlog 2 n \<le> floorlog 2 n'" using assms by (rule floorlog_mono)
  show ?thesis
  proof (cases "?k = ?k'")
    case True
    let ?q = "n div 2 ^ ?k" and ?q' = "n' div 2 ^ ?k"
    let ?r = "n mod 2 ^ ?k" and ?r' = "n' mod 2 ^ ?k"
    let ?f = "\<lambda>q r. (if 2 * r < 2 ^ ?k \<or> 2 * r = 2 ^ ?k \<and> even q then q else q + 1) :: nat"
    have "?q \<le> ?q'" using assms by (rule div_le_mono)
    moreover have "?r \<le> ?r'" if "?q = ?q'"
      using assms that by (metis div_mult_mod_eq nat_add_left_cancel_le)
    ultimately have "?f ?q ?r \<le> ?f ?q' ?r'" by (cases "?q = ?q'") auto
    then show ?thesis unfolding round53_def Let_def True [symmetric] by (rule mult_le_mono1)
  next
    case False
    with fl have lt: "floorlog 2 n < floorlog 2 n'" "53 < floorlog 2 n'" by linarith+
    have "n \<le> 2 ^ floorlog 2 n" using floorlog_leD [of 2 n "floorlog 2 n"] by simp
    then have "n \<le> 2 ^ ?k * 2 ^ (floorlog 2 n - ?k)" by (simp flip: power_add)
    then have "round53 n \<le> 2 ^ ?k * 2 ^ (floorlog 2 n - ?k)" by (intro round53_between(2) [of _ 0]) simp_all
    then have "round53 n \<le> 2 ^ floorlog 2 n" by (simp flip: power_add)
    also have "\<dots> \<le> (2::nat) ^ (floorlog 2 n' - 1)" using lt by (intro power_increasing) simp_all
    also have "floorlog 2 n' - 1 = ?k' + 52" using lt by simp
    also have "2 ^ (?k' + 52) = 2 ^ ?k' * (2::nat) ^ 52" by (rule power_add)
    also have "\<dots> \<le> round53 n'"
    proof (rule round53_between(1) [of _ _ _ n'])
      have "2 ^ (floorlog 2 n' - 1) \<le> n'" using lt floorlog_geD [of "floorlog 2 n'" 2 n'] by simp
      also have "floorlog 2 n' - 1 = ?k' + 52" using lt by simp
      finally show "2 ^ ?k' * 2 ^ 52 \<le> n'" by (simp only: power_add)
      show "n' \<le> 2 ^ ?k' * n'" by simp
    qed simp
    finally show ?thesis .
  qed
qed

lemma pct_index_mono: "m \<le> m' \<Longrightarrow> pct_index m n \<le> pct_index m' n"
  unfolding pct_index_def by (intro div_le_mono round53_mono mult_le_mono2)

lemma pct_index_power:
  assumes "n < 2 ^ 53"
  shows "pct_index (2 ^ j) n = n * 2 ^ j div 2 ^ 53"
  using round53_scaled [OF assms, of 0] round53_scaled [OF assms, of j] by (simp add: pct_index_def)

lemma pct_index_le:
  assumes "m \<le> 2 ^ 53" "n < 2 ^ 53"
  shows "pct_index m n \<le> n"
proof -
  have "pct_index m n \<le> pct_index (2 ^ 53) n" using assms(1) by (rule pct_index_mono)
  also have "\<dots> = n" by (simp only: pct_index_power [OF assms(2)]) simp
  finally show ?thesis .
qed

lemma pct_index_median:
  assumes "n < 2 ^ 53"
  shows "pct_index p50_m n = n div 2"
proof -
  have "pct_index p50_m n = n * 2 ^ 52 div (2 * 2 ^ 52)"
    using pct_index_power [OF assms, of 52] by (simp add: p50_m_def)
  also have "\<dots> = n div 2" by (rule div_mult_mult2) simp
  finally show ?thesis .
qed

lemma report_percentiles:
  assumes "load_report True l = Some r" "merged l \<noteq> []" "length (merged l) \<le> 2 ^ 53"
  shows "{p50 r, p95 r, p99 r} \<subseteq> set (merged l) \<and> p50 r \<le> p95 r \<and> p95 r \<le> p99 r \<and>
    p50 r = sort (merged l) ! ((length (merged l) - 1) div 2)"
proof -
  let ?n = "length (merged l)" and ?xs = "sort (merged l)"
  have n: "?n - 1 < 2 ^ 53" "0 < ?n" using assms(2,3) by (simp_all add: less_le_trans [of _ ?n])
  have "(if 1 < ?n then ?xs else merged l) = ?xs"
    using assms(2) by (cases "merged l" rule: remdups_adj.cases) auto
  then have p: "p50 r = ?xs ! pct_index p50_m (?n - 1)" "p95 r = ?xs ! pct_index p95_m (?n - 1)"
    "p99 r = ?xs ! pct_index p99_m (?n - 1)"
    using assms(1,2) by (auto simp: load_report_def Let_def)
  have le: "pct_index p50_m (?n - 1) \<le> pct_index p95_m (?n - 1)" "pct_index p95_m (?n - 1) \<le> pct_index p99_m (?n - 1)"
    by (rule pct_index_mono, simp add: p50_m_def p95_m_def p99_m_def)+
  have "pct_index p99_m (?n - 1) \<le> ?n - 1" by (rule pct_index_le [OF _ n(1)]) (simp add: p99_m_def)
  with le n(2) have lt: "pct_index p50_m (?n - 1) < length ?xs" "pct_index p95_m (?n - 1) < length ?xs"
    "pct_index p99_m (?n - 1) < length ?xs" by (simp_all add: n(2), linarith+)
  have "{p50 r, p95 r, p99 r} \<subseteq> set ?xs" unfolding p using lt nth_mem by blast
  moreover have "p50 r \<le> p95 r" "p95 r \<le> p99 r"
    unfolding p by (rule sorted_nth_mono [OF sorted_sort], use le lt in simp_all)+
  ultimately show ?thesis using p(1) pct_index_median [OF n(1)] by simp
qed

text \<open>
  C28. The report of the load generator is right, whatever the order in which its workers run. When
  all workers have been joined, the successful and failed requests it prints add up to
  connections times requests, at most one latency was recorded per request, and, when at least one was recorded and the buffer
  for the merge could be allocated, the three percentiles are recorded latencies, increasing, and the first is the
  median: the element at position \<open>(n - 1) div 2\<close> of the sorted latencies.
\<close>

theorem load_report_correct:
  assumes "loadgen_args argv = Some (conns, reqs, port)" and "load_reach reqs src (load_start conns) l"
    and "all_joined reqs l" and "load_report True l = Some r" and "length (merged l) \<le> 2 ^ 53"
  shows "sent_ok r + sent_err r = word_of_int (conns * reqs) \<and>
    int (length (merged l)) \<le> conns * reqs \<and>
    (merged l \<noteq> [] \<longrightarrow> {p50 r, p95 r, p99 r} \<subseteq> set (merged l) \<and> p50 r \<le> p95 r \<and> p95 r \<le> p99 r \<and>
       p50 r = sort (merged l) ! ((length (merged l) - 1) div 2))"
proof -
  have pos: "0 < conns" "0 < reqs"
    using assms(1) by (auto simp: loadgen_args_def Let_def split: list.splits if_splits)
  have it: "length (iters l) = nat conns" "\<forall>k \<in> set (iters l). int k \<le> reqs"
    using load_reach_iters [OF assms(2)] pos by auto
  have "iters l = replicate (nat conns) (nat reqs)"
    using it assms(3) by (intro replicate_eqI) (auto simp: all_joined_def list_all_iff intro!: order.antisym)
  then have "sum_list (iters l) = nat conns * nat reqs" by (simp add: sum_list_replicate)
  then have sm: "int (sum_list (iters l)) = conns * reqs" using pos by simp
  have inv: "load_inv l" by (rule load_reach_inv [OF assms(2)])
  have "length (merged l) = (\<Sum>i < length (iters l). length (lat_a (lats l ! i)))"
    using inv by (simp add: merged_def length_concat sum_list_sum_nth atLeast0LessThan load_inv_def comp_def)
  also have "\<dots> \<le> (\<Sum>i < length (iters l). iters l ! i)" using inv by (intro sum_mono) (simp add: load_inv_def)
  also have "\<dots> = sum_list (iters l)" by (simp add: sum_list_sum_nth atLeast0LessThan)
  finally have len: "int (length (merged l)) \<le> conns * reqs" using sm by linarith
  have "sent_ok r + sent_err r = ok l + err l" using assms(4) by (auto simp: load_report_def Let_def split: if_splits)
  also have "\<dots> = word_of_int (int (sum_list (iters l)))" using inv by (simp add: load_inv_def)
  finally have "sent_ok r + sent_err r = word_of_int (conns * reqs)" by (simp only: sm)
  moreover have "{p50 r, p95 r, p99 r} \<subseteq> set (merged l) \<and> p50 r \<le> p95 r \<and> p95 r \<le> p99 r \<and>
      p50 r = sort (merged l) ! ((length (merged l) - 1) div 2)" if ne: "merged l \<noteq> []"
    by (rule report_percentiles [OF assms(4) ne assms(5)])
  ultimately show ?thesis using len by blast
qed

subsection \<open>A concrete run\<close>

definition demo_src :: "nat \<Rightarrow> nat \<Rightarrow> io" where
  \<comment> \<open>two workers with two requests each; the second worker's first connection is refused\<close>
  "demo_src i k = \<lparr>sock_fd = 5, connect_ok = (i = 0 \<or> k = 1), send_n = 47, io_t0 = (10, 0),
     io_t1 = (10, 1000 * (int i + int k + 5)), realloc_ok = True\<rparr>"

definition demo_load :: load where
  "demo_load = worker_iter (demo_src 1 1) 1 (worker_iter (demo_src 0 1) 0 (worker_iter (demo_src 1 0) 1
     (worker_iter (demo_src 0 0) 0 (load_start 2))))"

lemma demo_load_eq:
  "demo_load = \<lparr>ok = 3, err = 1, iters = [2, 2],
     lats = [\<lparr>lat_a = [5, 6], lat_cap = 1024\<rparr>, \<lparr>lat_a = [7], lat_cap = 1024\<rparr>]\<rparr>"
  by (simp add: demo_load_def worker_iter_def connect_once_def demo_src_def load_start_def lat_push_def latency_us_def
      numeral_2_eq_2 signed_divide_int_def Let_def)

lemma demo_load_reach: "load_reach 2 demo_src (load_start 2) demo_load"
proof -
  let ?l0 = "load_start 2"
  let ?l1 = "worker_iter (demo_src 0 0) 0 ?l0"
  let ?l2 = "worker_iter (demo_src 1 0) 1 ?l1"
  let ?l3 = "worker_iter (demo_src 0 1) 0 ?l2"
  have it: "iters ?l0 = [0, 0]" "iters ?l1 = [1, 0]" "iters ?l2 = [1, 1]" "iters ?l3 = [2, 1]"
    by (simp_all add: load_start_def worker_iter_def Let_def numeral_2_eq_2)
  have "load_step 2 demo_src ?l0 ?l1" using load_step.iter [of 0 ?l0 2 demo_src] it by simp
  moreover have "load_step 2 demo_src ?l1 ?l2" using load_step.iter [of 1 ?l1 2 demo_src] it by simp
  moreover have "load_step 2 demo_src ?l2 ?l3" using load_step.iter [of 0 ?l2 2 demo_src] it by simp
  moreover have "load_step 2 demo_src ?l3 demo_load"
    using load_step.iter [of 1 ?l3 2 demo_src] it unfolding demo_load_def by simp
  ultimately show ?thesis by (meson load_reach.intros)
qed

text \<open>Witness of C28.\<close>

theorem load_report_correct_witness:
  "\<exists>r. load_report True demo_load = Some r \<and> sent_ok r + sent_err r = 4 \<and> p50 r = 6 \<and> p50 r \<le> p95 r \<and> p95 r \<le> p99 r"
proof -
  have m: "merged demo_load = [5, 6, 7]" by (simp add: merged_def demo_load_eq)
  obtain r where r: "load_report True demo_load = Some r" by (simp add: load_report_def m Let_def)
  have "loadgen_args [''2'', ''2'', ''9090''] = Some (2, 2, 9090)" by code_simp
  moreover have "all_joined 2 demo_load" by (simp add: all_joined_def demo_load_eq)
  ultimately show ?thesis using load_report_correct [OF _ demo_load_reach _ r] r m by fastforce
qed

end
