(* ===== verification/Service.thy ===== *)
theory Service
  imports Card Amount Sys
begin

section \<open>What the microservices share (microservices/*/src/main.c)\<close>

text \<open>
  The three services repeat the same scaffolding: a request is one \<open>read\<close> of at most 4095 bytes, its
  method and path are taken with \<open>sscanf\<close>, its body is looked up with \<open>strstr\<close>, and the reply is a
  cJSON value printed behind an HTTP header. cJSON is not part of the repository: its parser, printer, item
  lookup, boolean constructor and its two constants are a record of parameters, and what cJSON
  documents of them is the predicate \<open>cjson_documented\<close>. A response under construction is the list of
  its members in the order in which the code adds them. Numbers of a reply are exact fractions; the
  library stores the nearest double. The code writes backslash-r and backslash-n with doubled
  backslashes, so these are the four characters of \<open>esc_rn\<close> and not the bytes CR and LF.
  The progress messages on standard output are not modelled.
\<close>

datatype json =
    JNull
  | JBool bool
  | JNumber int nat  \<comment> \<open>the fraction\<close>
  | JString string
  | JArray "json list"
  | JObject "(string \<times> json) list"

record cjson =
  cJSON_Parse :: "string \<Rightarrow> json option"
  cJSON_Print :: "json \<Rightarrow> string option"
  cJSON_GetObjectItem :: "json \<Rightarrow> string \<Rightarrow> json option"
  cJSON_CreateBool :: "int \<Rightarrow> json"
  cJSON_False :: int
  cJSON_True :: int

definition esc_rn :: string where
  "esc_rn = [CHR 0x5C, CHR ''r'', CHR 0x5C, CHR ''n'']"

definition cjson_documented :: "cjson \<Rightarrow> bool" where
  \<comment> \<open>cJSON.h: the type constants are \<open>1 << 0\<close> and \<open>1 << 1\<close>; \<open>cJSON_CreateBool\<close> makes a true item of
      every non-zero argument; \<open>cJSON_GetObjectItem\<close> finds the member of an object with distinct
      names; no JSON text starts with a backslash\<close>
  "cjson_documented cj \<longleftrightarrow>
     cJSON_False cj = 1 \<and> cJSON_True cj = 2 \<and> (\<forall>b. cJSON_CreateBool cj b = JBool (b \<noteq> 0)) \<and>
     (\<forall>ms k. distinct (map (\<lambda>m. map lower (fst m)) ms) \<longrightarrow> k \<in> fst ` set ms \<longrightarrow>
        cJSON_GetObjectItem cj (JObject ms) k = map_of ms k) \<and>
     (\<forall>t. cJSON_Parse cj (CHR 0x5C # t) = None)"

fun cJSON_IsString :: "json option \<Rightarrow> bool" where
  "cJSON_IsString (Some (JString s)) = True"
| "cJSON_IsString _ = False"

fun valuestring :: "json option \<Rightarrow> string" where
  "valuestring (Some (JString s)) = s"
| "valuestring _ = []"

definition num :: "int \<Rightarrow> json" where
  "num i = JNumber i 1"

subsection \<open>Masking and amounts\<close>

definition svc_mask_pan :: "string \<Rightarrow> nat \<Rightarrow> string" where
  "svc_mask_pan pan max_len =
     (let len = length pan in
      if len \<le> 10 \<or> max_len < len + 1 then take (max_len - 1) pan
      else take 6 pan @ replicate (len - 4 - 6) CHR ''*'' @ drop (len - 4) pan)"

fun ilog2 :: "nat \<Rightarrow> nat" where
  "ilog2 n = (if n < 2 then 0 else Suc (ilog2 (n div 2)))"

declare ilog2.simps [simp del]

definition exceeds :: "fpval \<Rightarrow> int \<Rightarrow> bool" where
  \<comment> \<open>\<open>x > m\<close> for the double nearest to the exact value and a 32-bit integer \<open>m\<close>: the double is
      greater when the exact value lies beyond the middle between \<open>m\<close> and the next double, and the
      middle itself is rounded to \<open>m\<close>\<close>
  "exceeds x m =
     (case x of
        Nan \<Rightarrow> False
      | Inf neg \<Rightarrow> \<not> neg
      | Fin neg n d \<Rightarrow>
          if m = 0 then \<not> neg \<and> d < n * 2 ^ 1075
          else if m > 0 then \<not> neg \<and> (nat m * 2 ^ 53 + 2 ^ ilog2 (nat m)) * d < n * 2 ^ 53
          else \<not> neg \<or>
            (let k = nat (- m); e = ilog2 k in
             n * 2 ^ 54 < (k * 2 ^ 54 - (if k = 2 ^ e then 2 ^ e else 2 * 2 ^ e)) * d))"

subsection \<open>One request\<close>

definition scan_word :: "nat \<Rightarrow> string \<Rightarrow> string option \<times> string" where
  \<comment> \<open>the conversion \<open>%<n>s\<close> of \<open>sscanf\<close>\<close>
  "scan_word n s =
     (let s = skip isspace s; w = take n (takeWhile (\<lambda>c. \<not> isspace c) s) in
      if w = [] then (None, s) else (Some w, drop (length w) s))"

definition request_line :: "string \<times> string \<Rightarrow> string \<Rightarrow> string \<times> string" where
  \<comment> \<open>method and path; what \<open>sscanf\<close> does not find keeps the contents of the uninitialised array\<close>
  "request_line junk buffer =
     (case scan_word 15 buffer of
        (None, _) \<Rightarrow> junk
      | (Some meth, r) \<Rightarrow>
          (case scan_word 255 r of
             (None, _) \<Rightarrow> (meth, snd junk)
           | (Some path, _) \<Rightarrow> (meth, path)))"

definition body_of :: "string \<Rightarrow> string option" where
  "body_of buffer = map_option (drop 4) (strstr buffer (esc_rn @ esc_rn))"

definition svc_response :: "int \<Rightarrow> string \<Rightarrow> string \<Rightarrow> string" where
  "svc_response code why body =
     ''HTTP/1.1 '' @ show_int code @ '' '' @ why @ esc_rn @
     ''Content-Type: application/json'' @ esc_rn @
     ''Content-Length: '' @ show_nat (length body) @ esc_rn @
     ''Connection: close'' @ esc_rn @ esc_rn @ body"

definition send_response :: "cjson \<Rightarrow> int \<Rightarrow> string \<Rightarrow> json option \<Rightarrow> 'a sys_scheme \<Rightarrow> 'a sys_scheme" where
  \<comment> \<open>the length given to \<open>write\<close> is that of the text before truncation: a text that does not fit the
      buffer of 8192 bytes is read beyond its end\<close>
  "send_response cj code why resp s =
     (case resp of
        None \<Rightarrow> s
      | Some j \<Rightarrow>
          (case cJSON_Print cj j of
             None \<Rightarrow> s
           | Some text \<Rightarrow>
               let r = svc_response code why text in
               if length r < 8192 then emit (Write r) s else emit (Fault ''http_response'' (length r)) s))"

definition env_int :: "'a sys_scheme \<Rightarrow> string \<Rightarrow> int \<Rightarrow> int" where
  \<comment> \<open>\<open>getenv(k) ? atoi(getenv(k)) : dflt\<close>\<close>
  "env_int s k dflt = (case env_src s k of None \<Rightarrow> dflt | Some v \<Rightarrow> atoi v)"

definition env_str :: "'a sys_scheme \<Rightarrow> string \<Rightarrow> string \<Rightarrow> nat \<Rightarrow> string" where
  "env_str s k dflt n = clip n (case env_src s k of None \<Rightarrow> dflt | Some v \<Rightarrow> v)"

subsection \<open>Facts\<close>

lemma cjson_bools:
  "cjson_documented cj \<Longrightarrow> cJSON_CreateBool cj (cJSON_False cj) = JBool True"
  "cjson_documented cj \<Longrightarrow> cJSON_CreateBool cj (cJSON_True cj) = JBool True"
  by (simp_all add: cjson_documented_def)

lemma lower_letters [simp]:
  "lower CHR ''a'' = CHR ''a''" "lower CHR ''c'' = CHR ''c''" "lower CHR ''d'' = CHR ''d''" "lower CHR ''e'' = CHR ''e''" "lower CHR ''g'' = CHR ''g''" "lower CHR ''i'' = CHR ''i''" "lower CHR ''k'' = CHR ''k''" "lower CHR ''l'' = CHR ''l''" "lower CHR ''m'' = CHR ''m''" "lower CHR ''n'' = CHR ''n''" "lower CHR ''o'' = CHR ''o''" "lower CHR ''p'' = CHR ''p''" "lower CHR ''r'' = CHR ''r''" "lower CHR ''s'' = CHR ''s''" "lower CHR ''t'' = CHR ''t''" "lower CHR ''u'' = CHR ''u''" "lower CHR ''w'' = CHR ''w''" "lower CHR ''_'' = CHR ''_''"
  by code_simp+

lemma cjson_member:
  assumes "cjson_documented cj" "distinct (map (\<lambda>m. map lower (fst m)) ms)" "map_of ms k = Some v"
  shows "cJSON_GetObjectItem cj (JObject ms) k = Some v"
proof -
  have "k \<in> fst ` set ms" using assms(3) by (metis domI dom_map_of_conv_image_fst)
  with assms show ?thesis unfolding cjson_documented_def by metis
qed

lemma body_of_backslash: "body_of b = Some t \<Longrightarrow> \<exists>u. t = esc_rn @ u"
proof -
  assume "body_of b = Some t"
  then obtain r where r: "strstr b (esc_rn @ esc_rn) = Some r" "t = drop 4 r" by (auto simp: body_of_def)
  from strstr_prefix [OF r(1)] obtain u where "r = (esc_rn @ esc_rn) @ u" by (auto simp: prefix_def)
  then show ?thesis using r(2) by (auto simp: esc_rn_def)
qed

lemma body_never_parses: "cjson_documented cj \<Longrightarrow> body_of b = Some t \<Longrightarrow> cJSON_Parse cj t = None"
  using body_of_backslash [of b t] by (auto simp: esc_rn_def cjson_documented_def)

lemma amount_valid_exceeds:
  "amount_valid s \<longleftrightarrow> atof s \<noteq> Nan \<and> exceeds (atof s) 0 \<and> \<not> exceeds (atof s) 10000"
proof -
  have "ilog2 10000 = 13" by (simp add: ilog2.simps)
  then show ?thesis by (auto simp: amount_valid_def exceeds_def split: fpval.split)
qed

subsection \<open>The request loop\<close>

text \<open>
  What the three services have in common around their routes. \<open>kept\<close> is the part of the state that
  only the handlers behind a POST change.
\<close>

subsection \<open>The listener\<close>

definition svc_listen :: "bool \<times> bool \<times> bool \<Rightarrow> int option" where
  \<comment> \<open>results of \<open>socket\<close>, \<open>bind\<close> and \<open>listen\<close>; the exit status of an early return, if any\<close>
  "svc_listen n = (case n of (socket_ok, bind_ok, listen_ok) \<Rightarrow>
     if \<not> socket_ok then Some 1 else if \<not> bind_ok then Some 1 else if \<not> listen_ok then Some 1 else None)"

locale http_service =
  fixes cj :: cjson
    and route :: "string \<times> string \<Rightarrow> string \<Rightarrow> 's \<Rightarrow> 'r \<times> 's"
    and answer :: "'r \<Rightarrow> 's \<Rightarrow> 's"
    and handle :: "string \<times> string \<Rightarrow> string \<Rightarrow> 's \<Rightarrow> 's"
    and loop :: "((string \<times> string) \<times> string) list \<Rightarrow> 's \<Rightarrow> 's"
    and kept :: "'s \<Rightarrow> 'k"
  assumes handle_eq: "handle junk bytes s =
      (if bytes = [] then s
       else let b = cstr (take 4095 bytes); (r, s') = route (request_line junk b) b s in answer r s')"
    and loop_eq: "loop [] s = s" "loop ((junk, bytes) # rs) s = loop rs (handle junk bytes s)"
    and answer_keeps: "kept (answer r s) = kept s"
    and route_keeps: "(\<And>t. body_of b = Some t \<Longrightarrow> cJSON_Parse cj t = None) \<Longrightarrow> kept (snd (route mp b s)) = kept s"
begin

lemma handle_keeps:
  assumes "cjson_documented cj"
  shows "kept (handle junk bytes s) = kept s"
proof -
  have "kept (snd (route mp b s)) = kept s" for mp b
    by (rule route_keeps) (rule body_never_parses [OF assms])
  then show ?thesis by (simp add: handle_eq Let_def case_prod_beta answer_keeps)
qed

lemma loop_keeps: "cjson_documented cj \<Longrightarrow> kept (loop rs s) = kept s"
proof (induction rs arbitrary: s)
  case (Cons q rs)
  then show ?case by (cases q) (simp add: loop_eq handle_keeps)
qed (simp add: loop_eq)

end

subsection \<open>A concrete library\<close>

definition demo_cjson :: cjson where
  "demo_cjson =
     \<lparr>cJSON_Parse = (\<lambda>t.
        if t = ''R'' then Some (JObject [(''allow'', JBool True), (''reason'', JString ''missing_fields'')])
        else if t = ''P'' then Some (JObject [(''ok'', JBool True), (''error'', JString ''missing_required_fields'')])
        else if t = ''C'' then Some (JObject [(''ok'', JBool True), (''error'', JString ''missing_txn_id'')])
        else None),
      cJSON_Print = (\<lambda>j. Some ''J''),
      cJSON_GetObjectItem = (\<lambda>j k. case j of JObject ms \<Rightarrow> map_of ms k | _ \<Rightarrow> None),
      cJSON_CreateBool = (\<lambda>b. JBool (b \<noteq> 0)), cJSON_False = 1, cJSON_True = 2\<rparr>"

lemma demo_cjson_documented: "cjson_documented demo_cjson"
  by (simp add: cjson_documented_def demo_cjson_def)

end
