(* ===== verification/Risk_service.thy ===== *)
theory Risk_service
  imports Service
begin

section \<open>The risk service (microservices/risk-service/src/main.c)\<close>

text \<open>
  The service's globals extend the process state: the configuration, the velocity table, a slot of
  which is addressed by a hash of the card number, and six counters (kept as integers; they wrap after
  \<open>2^63\<close> requests). The service handles one connection at a time, so its locks have no effect.
\<close>

record risk_config =
  rc_port :: int
  max_amount :: int
  velocity_limit :: int
  velocity_window_sec :: int
  rc_db_uri :: string

record velocity_entry =
  ve_pan :: string
  window_start :: int
  ve_count :: int
  last_seen :: int

record risk_counters =
  g_total_evaluations :: int
  g_approved_evaluations :: int
  g_declined_evaluations :: int
  g_velocity_blocks :: int
  g_amount_blocks :: int
  g_blacklist_blocks :: int

record risk_svc = sys +
  rs_config :: risk_config
  g_velocity_table :: "nat \<Rightarrow> velocity_entry"
  rs_counters :: risk_counters

definition MAX_VELOCITY_ENTRIES :: nat where
  "MAX_VELOCITY_ENTRIES = 10000"

fun hash_loop :: "32 word \<Rightarrow> string \<Rightarrow> 32 word" where
  "hash_loop h [] = h"
| "hash_loop h (c # cs) = hash_loop (h * 31 + of_nat (of_char c)) cs"

definition hash_pan :: "string \<Rightarrow> nat" where
  "hash_pan pan = unat (hash_loop 0 pan) mod MAX_VELOCITY_ENTRIES"

definition count_rs :: "(risk_counters \<Rightarrow> risk_counters) \<Rightarrow> 'a risk_svc_scheme \<Rightarrow> 'a risk_svc_scheme" where
  "count_rs f s = s\<lparr>rs_counters := f (rs_counters s)\<rparr>"

definition inc_velocity_blocks :: "risk_counters \<Rightarrow> risk_counters" where
  "inc_velocity_blocks c = c\<lparr>g_velocity_blocks := g_velocity_blocks c + 1\<rparr>"
definition inc_amount_blocks :: "risk_counters \<Rightarrow> risk_counters" where
  "inc_amount_blocks c = c\<lparr>g_amount_blocks := g_amount_blocks c + 1\<rparr>"
definition inc_blacklist_blocks :: "risk_counters \<Rightarrow> risk_counters" where
  "inc_blacklist_blocks c = c\<lparr>g_blacklist_blocks := g_blacklist_blocks c + 1\<rparr>"
definition inc_total_evaluations :: "risk_counters \<Rightarrow> risk_counters" where
  "inc_total_evaluations c = c\<lparr>g_total_evaluations := g_total_evaluations c + 1\<rparr>"
definition inc_approved_evaluations :: "risk_counters \<Rightarrow> risk_counters" where
  "inc_approved_evaluations c = c\<lparr>g_approved_evaluations := g_approved_evaluations c + 1\<rparr>"
definition inc_declined_evaluations :: "risk_counters \<Rightarrow> risk_counters" where
  "inc_declined_evaluations c = c\<lparr>g_declined_evaluations := g_declined_evaluations c + 1\<rparr>"

lemmas rs_inc_defs = inc_velocity_blocks_def inc_amount_blocks_def inc_blacklist_blocks_def
  inc_total_evaluations_def inc_approved_evaluations_def inc_declined_evaluations_def

subsection \<open>The checks\<close>

definition check_velocity_limit :: "string \<Rightarrow> 'a risk_svc_scheme \<Rightarrow> int \<times> 'a risk_svc_scheme" where
  "check_velocity_limit pan s =
     (let (now, s) = time_null s; index = hash_pan pan; entry = g_velocity_table s index;
          store = (\<lambda>e. s\<lparr>g_velocity_table := (g_velocity_table s)(index := e)\<rparr>) in
      if ve_pan entry = [] \<or> ve_pan entry \<noteq> pan then
        (0, store \<lparr>ve_pan = clip 20 pan, window_start = now, ve_count = 1, last_seen = now\<rparr>)
      else if now - window_start entry \<ge> velocity_window_sec (rs_config s) then
        (0, store (entry\<lparr>window_start := now, ve_count := 1, last_seen := now\<rparr>))
      else
        let entry = entry\<lparr>ve_count := ve_count entry + 1, last_seen := now\<rparr>; s = store entry in
        if ve_count entry \<le> velocity_limit (rs_config s) then (0, s)
        else (- 1, count_rs inc_velocity_blocks s))"

definition check_amount_limit :: "fpval \<Rightarrow> 'a risk_svc_scheme \<Rightarrow> int \<times> 'a risk_svc_scheme" where
  "check_amount_limit amount s =
     (if exceeds amount (max_amount (rs_config s)) then (- 1, count_rs inc_amount_blocks s) else (0, s))"

definition blacklisted_bins :: "string list" where
  "blacklisted_bins = [''999999'', ''000000'', ''123456'']"

definition check_blacklist :: "string \<Rightarrow> 'a risk_svc_scheme \<Rightarrow> int \<times> 'a risk_svc_scheme" where
  "check_blacklist pan s =
     (if length pan \<ge> 6 \<and> take 6 pan \<in> set blacklisted_bins then (- 1, count_rs inc_blacklist_blocks s) else (0, s))"

definition risk_refusal :: "cjson \<Rightarrow> string \<Rightarrow> json" where
  "risk_refusal cj why = JObject [(''allow'', cJSON_CreateBool cj (cJSON_False cj)), (''reason'', JString why)]"

definition risk_declined :: "cjson \<Rightarrow> string \<Rightarrow> string \<Rightarrow> json" where
  "risk_declined cj why masked = JObject
     [(''allow'', cJSON_CreateBool cj (cJSON_False cj)), (''reason'', JString why), (''masked_pan'', JString masked)]"

definition risk_approved :: "cjson \<Rightarrow> string \<Rightarrow> json" where
  "risk_approved cj masked = JObject
     [(''allow'', cJSON_CreateBool cj (cJSON_True cj)), (''reason'', JString ''approved''), (''masked_pan'', JString masked),
      (''risk_score'', JNumber 1 10)]"

definition evaluate_risk :: "cjson \<Rightarrow> json \<Rightarrow> 'a risk_svc_scheme \<Rightarrow> json \<times> 'a risk_svc_scheme" where
  "evaluate_risk cj request s =
     (let pan_field = cJSON_GetObjectItem cj request ''pan''; amount_field = cJSON_GetObjectItem cj request ''amount'' in
      if \<not> cJSON_IsString pan_field \<or> \<not> cJSON_IsString amount_field then
        (risk_refusal cj ''missing_fields'', s)
      else
        let pan = valuestring pan_field; amount = atof (valuestring amount_field);
            masked = svc_mask_pan pan 32;
            (rc, s) = check_amount_limit amount (count_rs inc_total_evaluations s) in
        if rc \<noteq> 0 then
          (risk_declined cj ''amount_limit_exceeded'' masked, count_rs inc_declined_evaluations s)
        else
          let (rc, s) = check_blacklist pan s in
          if rc \<noteq> 0 then
            (risk_declined cj ''blacklisted_pan'' masked, count_rs inc_declined_evaluations s)
          else
            let (rc, s) = check_velocity_limit pan s in
            if rc \<noteq> 0 then
              (risk_declined cj ''velocity_limit_exceeded'' masked, count_rs inc_declined_evaluations s)
            else
              (risk_approved cj masked, count_rs inc_approved_evaluations s))"

subsection \<open>Routes\<close>

definition rate :: "int \<Rightarrow> int \<Rightarrow> json" where
  "rate k n = JNumber (k * 100) (nat n)"

definition risk_metrics :: "'a risk_svc_scheme \<Rightarrow> json \<times> 'a risk_svc_scheme" where
  "risk_metrics s =
     (let c = rs_counters s; (now, s) = time_null s in
      (JObject [(''total_evaluations'', num (g_total_evaluations c)), (''approved_evaluations'', num (g_approved_evaluations c)),
         (''declined_evaluations'', num (g_declined_evaluations c)), (''velocity_blocks'', num (g_velocity_blocks c)),
         (''amount_blocks'', num (g_amount_blocks c)), (''blacklist_blocks'', num (g_blacklist_blocks c)),
         (''timestamp'', num now),
         (''approval_rate_percent'',
            if g_total_evaluations c > 0 then rate (g_approved_evaluations c) (g_total_evaluations c) else num 0)], s))"

definition risk_rule :: "cjson \<Rightarrow> int \<Rightarrow> string \<Rightarrow> string \<Rightarrow> json" where
  "risk_rule cj i name type =
     JObject [(''id'', num i), (''name'', JString name), (''type'', JString type),
       (''enabled'', cJSON_CreateBool cj (cJSON_True cj))]"

definition risk_rules :: "cjson \<Rightarrow> risk_config \<Rightarrow> json" where
  "risk_rules cj g =
     JObject [(''max_amount'', num (max_amount g)), (''velocity_limit'', num (velocity_limit g)),
       (''velocity_window_sec'', num (velocity_window_sec g)),
       (''rules'', JArray [risk_rule cj 1 ''Amount Limit'' ''AMOUNT_LIMIT'', risk_rule cj 2 ''Velocity Limit'' ''VELOCITY'',
          risk_rule cj 3 ''BIN Blacklist'' ''BLACKLIST''])]"

definition risk_route :: "cjson \<Rightarrow> string \<times> string \<Rightarrow> string \<Rightarrow> 'a risk_svc_scheme \<Rightarrow> (int \<times> string \<times> json) \<times> 'a risk_svc_scheme" where
  "risk_route cj mp buffer s =
     (if mp = (''POST'', ''/risk/evaluate'') then
        (case body_of buffer of
           None \<Rightarrow> ((400, ''Bad Request'', risk_refusal cj ''no_body''), s)
         | Some body \<Rightarrow>
             (case cJSON_Parse cj body of
                None \<Rightarrow> ((400, ''Bad Request'', risk_refusal cj ''invalid_json''), s)
              | Some request \<Rightarrow> let (j, s) = evaluate_risk cj request s in ((200, ''OK'', j), s)))
      else if mp = (''GET'', ''/health'') then
        let (now, s) = time_null s in
        ((200, ''OK'', JObject [(''status'', JString ''healthy''), (''service'', JString ''risk-service''), (''timestamp'', num now)]), s)
      else if mp = (''GET'', ''/metrics'') then let (j, s) = risk_metrics s in ((200, ''OK'', j), s)
      else if mp = (''GET'', ''/risk/rules'') then ((200, ''OK'', risk_rules cj (rs_config s)), s)
      else ((404, ''Not Found'', JObject [(''error'', JString ''not_found'')]), s))"

definition risk_handle_request :: "cjson \<Rightarrow> string \<times> string \<Rightarrow> string \<Rightarrow> 'a risk_svc_scheme \<Rightarrow> 'a risk_svc_scheme" where
  \<comment> \<open>the bytes of the one \<open>read\<close>; none when it failed or the peer closed\<close>
  "risk_handle_request cj junk bytes s =
     (if bytes = [] then s
      else
        let buffer = cstr (take 4095 bytes);
            ((code, why, j), s) = risk_route cj (request_line junk buffer) buffer s
        in send_response cj code why (Some j) s)"

definition risk_load_config :: "'a risk_svc_scheme \<Rightarrow> 'a risk_svc_scheme" where
  "risk_load_config s =
     s\<lparr>rs_config := \<lparr>rc_port = env_int s ''PORT'' 8081, max_amount = env_int s ''RISK_MAX_AMOUNT'' 10000,
         velocity_limit = env_int s ''RISK_VELOCITY_LIMIT'' 20, velocity_window_sec = env_int s ''RISK_VELOCITY_WINDOW'' 60,
         rc_db_uri = env_str s ''DB_URI'' ''postgresql://localhost:5432/risk_db'' 512\<rparr>\<rparr>"

definition empty_slot :: velocity_entry where
  "empty_slot = \<lparr>ve_pan = [], window_start = 0, ve_count = 0, last_seen = 0\<rparr>"

definition risk_main_init :: "'a risk_svc_scheme \<Rightarrow> 'a risk_svc_scheme" where
  \<comment> \<open>\<open>load_config\<close> and the cleared table, before the accept loop\<close>
  "risk_main_init s = (risk_load_config s)\<lparr>g_velocity_table := (\<lambda>_. empty_slot)\<rparr>"

fun risk_main_loop :: "cjson \<Rightarrow> ((string \<times> string) \<times> string) list \<Rightarrow> 'a risk_svc_scheme \<Rightarrow> 'a risk_svc_scheme" where
  \<comment> \<open>the accepted connections in turn\<close>
  "risk_main_loop cj [] s = s"
| "risk_main_loop cj ((junk, bytes) # rs) s = risk_main_loop cj rs (risk_handle_request cj junk bytes s)"

definition risk_main ::
    "cjson \<Rightarrow> bool \<times> bool \<times> bool \<Rightarrow> ((string \<times> string) \<times> string) list \<Rightarrow> 'a risk_svc_scheme \<Rightarrow> int option \<times> 'a risk_svc_scheme" where
  \<comment> \<open>the exit status, if the program ends before it serves; a failing \<open>accept\<close> is skipped\<close>
  "risk_main cj n rs s =
     (let s = risk_main_init s in
      case svc_listen n of Some rc \<Rightarrow> (Some rc, s) | None \<Rightarrow> (None, risk_main_loop cj rs s))"

subsection \<open>The velocity limit\<close>

fun velocity_run :: "string list \<Rightarrow> 'a risk_svc_scheme \<Rightarrow> int list \<times> 'a risk_svc_scheme" where
  "velocity_run [] s = ([], s)"
| "velocity_run (p # ps) s =
     (let (r, s) = check_velocity_limit p s; (rs, s) = velocity_run ps s in (r # rs, s))"

definition slots_agree :: "string set \<Rightarrow> int set \<Rightarrow> string list \<Rightarrow> (nat \<Rightarrow> velocity_entry) \<Rightarrow> bool" where
  \<comment> \<open>the slots of the card numbers \<open>P\<close> after the requests \<open>past\<close>, with windows opened at times in \<open>T\<close>\<close>
  "slots_agree P T past tab \<longleftrightarrow> (\<forall>p \<in> P. let e = tab (hash_pan p) in
     if p \<in> set past then ve_pan e = p \<and> ve_count e = int (count_list past p) \<and> window_start e \<in> T
     else ve_pan e = [])"

definition verdict :: "int \<Rightarrow> nat \<Rightarrow> int" where
  \<comment> \<open>of the \<open>n\<close>-th request with a card number in a window\<close>
  "verdict limit n = (if n = 1 \<or> int n \<le> limit then 0 else - 1)"

lemma count_past: "p \<in> set past \<Longrightarrow> 0 < count_list past p"
  by (metis count_list_0_iff gr0I)

lemma check_velocity_step:
  assumes "slots_agree P T past (g_velocity_table s)" "p \<in> P" "p \<noteq> []" "length p < 20" "inj_on hash_pan P"
    and "time_src s (time_calls s) \<in> T" "\<forall>t \<in> T. \<forall>t' \<in> T. t - t' < velocity_window_sec (rs_config s)"
    and "check_velocity_limit p s = (r, s')"
  shows "r = verdict (velocity_limit (rs_config s)) (count_list (past @ [p]) p)"
    and "slots_agree P T (past @ [p]) (g_velocity_table s')"
    and "rs_config s' = rs_config s" "time_src s' = time_src s" "time_calls s' = Suc (time_calls s)"
proof -
  let ?e = "g_velocity_table s (hash_pan p)" and ?now = "time_src s (time_calls s)"
  have c: "clip 20 p = p" using assms(4) by (simp add: clip_def)
  have e: "if p \<in> set past then ve_pan ?e = p \<and> ve_count ?e = int (count_list past p) \<and> window_start ?e \<in> T else ve_pan ?e = []"
    using assms(1,2) by (simp add: slots_agree_def Let_def)
  have w: "?now - window_start ?e < velocity_window_sec (rs_config s)" if "p \<in> set past"
    using e that assms(6,7) by auto
  have n: "p \<in> set past \<Longrightarrow> 0 < count_list past p" "p \<notin> set past \<Longrightarrow> count_list past p = 0"
    by (auto simp: count_past)
  show "r = verdict (velocity_limit (rs_config s)) (count_list (past @ [p]) p)"
    using e w n assms(3,8)
    by (auto simp: check_velocity_limit_def time_null_def verdict_def Let_def split: if_splits)
  show "rs_config s' = rs_config s" "time_src s' = time_src s" "time_calls s' = Suc (time_calls s)"
    using assms(8) by (auto simp: check_velocity_limit_def time_null_def count_rs_def Let_def split: if_splits)
  have upd: "\<exists>e'. g_velocity_table s' = (g_velocity_table s)(hash_pan p := e') \<and> ve_pan e' = p \<and>
      ve_count e' = int (count_list (past @ [p]) p) \<and> window_start e' \<in> T"
    using e w n c assms(3,6,8)
    by (auto simp: check_velocity_limit_def time_null_def count_rs_def Let_def split: if_splits)
  then obtain e' where e': "g_velocity_table s' = (g_velocity_table s)(hash_pan p := e')" "ve_pan e' = p"
    "ve_count e' = int (count_list (past @ [p]) p)" "window_start e' \<in> T" by blast
  have "hash_pan q = hash_pan p \<Longrightarrow> q \<in> P \<Longrightarrow> q = p" for q using assms(2,5) by (auto dest: inj_onD)
  then show "slots_agree P T (past @ [p]) (g_velocity_table s')"
    using assms(1) e' unfolding slots_agree_def e'(1) Let_def by (auto simp: fun_upd_apply)
qed

lemma velocity_run_verdicts:
  assumes "slots_agree P T past (g_velocity_table s)" "set ps \<subseteq> P" "\<forall>p \<in> P. p \<noteq> [] \<and> length p < 20" "inj_on hash_pan P"
    and "\<forall>i < length ps. time_src s (time_calls s + i) \<in> T"
    and "\<forall>t \<in> T. \<forall>t' \<in> T. t - t' < velocity_window_sec (rs_config s)"
  shows "fst (velocity_run ps s) =
    map (\<lambda>i. verdict (velocity_limit (rs_config s)) (count_list (past @ take (Suc i) ps) (ps ! i))) [0..<length ps]"
  using assms
proof (induction ps arbitrary: past s)
  case (Cons p ps)
  obtain r s' where ch: "check_velocity_limit p s = (r, s')" by force
  have now: "time_src s (time_calls s) \<in> T" using Cons.prems(5) [rule_format, of 0] by simp
  have p: "p \<in> P" "p \<noteq> []" "length p < 20" using Cons.prems(2,3) by auto
  note st = check_velocity_step [OF Cons.prems(1) p Cons.prems(4) now Cons.prems(6) ch]
  have "fst (velocity_run ps s') =
      map (\<lambda>i. verdict (velocity_limit (rs_config s')) (count_list ((past @ [p]) @ take (Suc i) ps) (ps ! i))) [0..<length ps]"
    by (rule Cons.IH [OF st(2)]) (use Cons.prems st(3-5) in \<open>auto simp: less_Suc_eq_0_disj\<close>)
  then show ?case
    using ch st(1,3) by (simp add: case_prod_beta map_upt_Suc del: upt_Suc)
qed simp

text \<open>
  C33. The velocity limit of the risk service: from the cleared table, over requests whose card
  numbers have 1 to 19 characters and occupy different slots and whose times lie within one window,
  a request is refused exactly when its card number has occurred more than \<open>velocity_limit\<close> times
  so far and it is not the first one.
\<close>

theorem service_velocity_limit:
  assumes "g_velocity_table s = (\<lambda>_. empty_slot)"
    and "\<forall>p \<in> set ps. p \<noteq> [] \<and> length p < 20" and "inj_on hash_pan (set ps)"
    and "\<forall>i < length ps. \<forall>j < length ps.
      time_src s (time_calls s + i) - time_src s (time_calls s + j) < velocity_window_sec (rs_config s)"
  shows "fst (velocity_run ps s) =
    map (\<lambda>i. verdict (velocity_limit (rs_config s)) (count_list (take (Suc i) ps) (ps ! i))) [0..<length ps]"
proof -
  have "slots_agree (set ps) ((\<lambda>i. time_src s (time_calls s + i)) ` {..<length ps}) [] (g_velocity_table s)"
    by (simp add: slots_agree_def assms(1) empty_slot_def)
  from velocity_run_verdicts [OF this order_refl assms(2,3)] assms(4) show ?thesis by auto
qed

text \<open>
  A card number that does not fit the table is never recognised again: its stored copy has 19
  characters. Nor is an empty one, whose slot counts as free.
\<close>

definition slots_short :: "'a risk_svc_scheme \<Rightarrow> bool" where
  "slots_short s \<longleftrightarrow> (\<forall>i. length (ve_pan (g_velocity_table s i)) < 20)"

lemma slots_short_velocity: "slots_short s \<Longrightarrow> slots_short (snd (check_velocity_limit p s))"
  by (auto simp: slots_short_def check_velocity_limit_def time_null_def count_rs_def clip_def Let_def) metis

lemma service_velocity_evaded:
  assumes "slots_short s" and "length p \<ge> 20 \<or> p = []"
  shows "fst (check_velocity_limit p s) = 0"
proof -
  have "ve_pan (g_velocity_table s (hash_pan p)) = [] \<or> ve_pan (g_velocity_table s (hash_pan p)) \<noteq> p"
    using assms(2) assms(1) [unfolded slots_short_def, rule_format, of "hash_pan p"] by auto
  then show ?thesis by (simp add: check_velocity_limit_def time_null_def Let_def)
qed

subsection \<open>Decisions and counters\<close>

definition risk_books :: "risk_counters \<Rightarrow> bool" where
  "risk_books c \<longleftrightarrow> g_total_evaluations c = g_approved_evaluations c + g_declined_evaluations c \<and>
     g_declined_evaluations c = g_velocity_blocks c + g_amount_blocks c + g_blacklist_blocks c"

lemma evaluate_risk_books: "risk_books (rs_counters s) \<Longrightarrow> risk_books (rs_counters (snd (evaluate_risk cj request s)))"
  by (simp add: evaluate_risk_def check_amount_limit_def check_blacklist_def check_velocity_limit_def time_null_def
      count_rs_def risk_books_def rs_inc_defs Let_def case_prod_beta)

lemma send_response_risk [simp]:
  "rs_counters (send_response cj code why resp s) = rs_counters s"
  "g_velocity_table (send_response cj code why resp s) = g_velocity_table s"
  for s :: "'a risk_svc_scheme"
  by (simp_all add: send_response_def emit_def Let_def split: option.split)

lemma risk_route_state:
  "(\<exists>n. snd (risk_route cj mp b s) = s\<lparr>time_calls := n\<rparr>) \<or>
   (\<exists>body req. body_of b = Some body \<and> cJSON_Parse cj body = Some req \<and>
      snd (risk_route cj mp b s) = snd (evaluate_risk cj req s))"
proof -
  have same: "\<exists>n. s = s\<lparr>time_calls := n\<rparr>" "\<exists>n. s\<lparr>time_calls := Suc (time_calls s)\<rparr> = s\<lparr>time_calls := n\<rparr>"
    by (rule exI [of _ "time_calls s"], simp) blast
  show ?thesis
  proof (cases "mp = (''POST'', ''/risk/evaluate'')")
    case True
    show ?thesis
    proof (cases "body_of b")
      case None
      with True same show ?thesis by (simp add: risk_route_def)
    next
      case (Some body)
      with True same show ?thesis
        by (cases "cJSON_Parse cj body") (simp_all add: risk_route_def case_prod_beta)
    qed
  next
    case False
    then show ?thesis
      using same by (simp add: risk_route_def risk_metrics_def time_null_def Let_def case_prod_beta)
  qed
qed

lemma risk_handle_state:
  "bytes \<noteq> [] \<Longrightarrow> \<exists>code why j mp b. risk_handle_request cj junk bytes s = send_response cj code why j (snd (risk_route cj mp b s))"
  unfolding risk_handle_request_def Let_def case_prod_beta by (simp only: if_False) (intro exI, rule refl)

lemma risk_request_books:
  assumes "risk_books (rs_counters s)"
  shows "risk_books (rs_counters (risk_handle_request cj junk bytes s))"
proof (cases "bytes = []")
  case False
  then obtain code why j mp b where "risk_handle_request cj junk bytes s = send_response cj code why j (snd (risk_route cj mp b s))"
    using risk_handle_state by blast
  then show ?thesis
    using risk_route_state [of cj mp b s] assms evaluate_risk_books [OF assms] by fastforce
qed (simp add: risk_handle_request_def assms)

lemma risk_service_books:
  "risk_books (rs_counters s) \<Longrightarrow> risk_books (rs_counters (risk_main_loop cj rs s))"
  by (induction cj rs s rule: risk_main_loop.induct) (simp_all add: risk_request_books)

text \<open>
  Whatever the service decides, its reply says that the payment is allowed: the constant
  \<open>cJSON_False\<close> is passed where a truth value is expected, and it is not 0.
\<close>

lemma risk_reply_flag:
  assumes "cjson_documented cj"
  shows "cJSON_GetObjectItem cj (risk_refusal cj why) ''allow'' = Some (JBool True)"
    and "cJSON_GetObjectItem cj (risk_declined cj why masked) ''allow'' = Some (JBool True)"
    and "cJSON_GetObjectItem cj (risk_approved cj masked) ''allow'' = Some (JBool True)"
proof -
  show "cJSON_GetObjectItem cj (risk_refusal cj why) ''allow'' = Some (JBool True)"
    unfolding risk_refusal_def by (rule cjson_member [OF assms]) (simp_all add: cjson_bools [OF assms])
  show "cJSON_GetObjectItem cj (risk_declined cj why masked) ''allow'' = Some (JBool True)"
    unfolding risk_declined_def by (rule cjson_member [OF assms]) (simp_all add: cjson_bools [OF assms])
  show "cJSON_GetObjectItem cj (risk_approved cj masked) ''allow'' = Some (JBool True)"
    unfolding risk_approved_def by (rule cjson_member [OF assms]) (simp_all add: cjson_bools [OF assms])
qed

lemma evaluate_risk_allows:
  assumes "cjson_documented cj"
  shows "cJSON_GetObjectItem cj (fst (evaluate_risk cj request s)) ''allow'' = Some (JBool True)"
  by (simp add: evaluate_risk_def risk_reply_flag [OF assms] Let_def case_prod_beta)

interpretation risk_http: http_service cj "risk_route cj" "\<lambda>(code, why, j). send_response cj code why (Some j)"
  "risk_handle_request cj" "risk_main_loop cj" "\<lambda>s :: 'a risk_svc_scheme. (g_velocity_table s, rs_counters s)"
  for cj
proof
  show "(g_velocity_table (snd (risk_route cj mp b s)), rs_counters (snd (risk_route cj mp b s))) =
      (g_velocity_table s, rs_counters s)"
    if "\<And>t. body_of b = Some t \<Longrightarrow> cJSON_Parse cj t = None" for mp b and s :: "'a risk_svc_scheme"
    using risk_route_state [of cj mp b s] that by fastforce
qed (simp_all add: risk_handle_request_def Let_def case_prod_beta split: prod.split)

subsection \<open>A concrete service\<close>

definition demo_risk_svc :: risk_svc where
  "demo_risk_svc = \<lparr>env_src = Map.empty, time_src = int, time_calls = 0, rand_src = (\<lambda>_. 0), rand_calls = 0,
     alloc_src = (\<lambda>_. True), allocs = 0, trace = [], metrics = metrics_zero,
     rs_config = \<lparr>rc_port = 8081, max_amount = 10000, velocity_limit = 2, velocity_window_sec = 60, rc_db_uri = []\<rparr>,
     g_velocity_table = (\<lambda>_. empty_slot), rs_counters = \<lparr>g_total_evaluations = 0, g_approved_evaluations = 0,
       g_declined_evaluations = 0, g_velocity_blocks = 0, g_amount_blocks = 0, g_blacklist_blocks = 0\<rparr>\<rparr>"

text \<open>Witness of C33: the third request with a card number is refused when the limit is 2.\<close>

theorem service_velocity_limit_witness:
  "fst (velocity_run [''4'', ''4'', ''5'', ''4''] demo_risk_svc) = [0, 0, 0, - 1]"
proof -
  have "hash_pan ''4'' = 52" "hash_pan ''5'' = 53" by (simp_all add: hash_pan_def MAX_VELOCITY_ENTRIES_def)
  then have inj: "inj_on hash_pan (set [''4'', ''4'', ''5'', ''4''])" by (simp add: inj_on_def)
  have "\<forall>i < 4. \<forall>j < 4. int i - int j < (60 :: int)" by auto
  with service_velocity_limit [of demo_risk_svc "[''4'', ''4'', ''5'', ''4'']", OF _ _ inj] show ?thesis
    by (simp add: demo_risk_svc_def upt_rec verdict_def numeral_eq_Suc)
qed

end
