(* ===== verification/Clearing_service.thy ===== *)
theory Clearing_service
  imports Service
begin

section \<open>The clearing service (microservices/clearing-service/src/main.c)\<close>

text \<open>
  The participant of the payment service's two-phase commit: a table of transactions that only
  grows, with the handlers for \<open>prepare\<close>, \<open>commit\<close>, \<open>abort\<close> and \<open>status\<close>. The list \<open>g_transactions\<close> holds
  the first \<open>g_transaction_count\<close> elements of the array; elements are written once and the array starts
  cleared, so a \<open>strncpy\<close> of one byte less than the field leaves a terminated string. The service
  handles one connection at a time, so its locks have no effect.
\<close>

record clearing_config =
  cc_port :: int
  simulate_failures :: int
  prepare_timeout_sec :: int
  commit_timeout_sec :: int
  cc_db_uri :: string

datatype ct_state = TXN_STATE_UNKNOWN | TXN_STATE_PREPARED | TXN_STATE_COMMITTED | TXN_STATE_ABORTED | TXN_STATE_TIMEOUT

record clearing_transaction =
  ct_txn_id :: string
  ct_pan :: string
  ct_amount :: string
  ct_currency :: string
  ct_merchant_id :: string
  ct_state :: ct_state
  ct_created_at :: int
  ct_updated_at :: int
  ct_error_message :: string
  ct_retry_count :: int

record clearing_counters =
  g_total_prepare_requests :: int
  g_successful_prepares :: int
  g_failed_prepares :: int
  g_total_commit_requests :: int
  g_successful_commits :: int
  g_failed_commits :: int
  g_total_abort_requests :: int

record clearing_svc = sys +
  cs_config :: clearing_config
  g_transactions :: "clearing_transaction list"
  cs_counters :: clearing_counters

definition MAX_CT :: nat where
  \<comment> \<open>\<open>MAX_TRANSACTIONS\<close>\<close>
  "MAX_CT = 10000"

definition count_cs :: "(clearing_counters \<Rightarrow> clearing_counters) \<Rightarrow> 'a clearing_svc_scheme \<Rightarrow> 'a clearing_svc_scheme" where
  "count_cs f s = s\<lparr>cs_counters := f (cs_counters s)\<rparr>"

definition inc_total_prepare :: "clearing_counters \<Rightarrow> clearing_counters" where
  "inc_total_prepare c = c\<lparr>g_total_prepare_requests := g_total_prepare_requests c + 1\<rparr>"
definition inc_ok_prepare :: "clearing_counters \<Rightarrow> clearing_counters" where
  "inc_ok_prepare c = c\<lparr>g_successful_prepares := g_successful_prepares c + 1\<rparr>"
definition inc_failed_prepare :: "clearing_counters \<Rightarrow> clearing_counters" where
  "inc_failed_prepare c = c\<lparr>g_failed_prepares := g_failed_prepares c + 1\<rparr>"
definition inc_total_commit :: "clearing_counters \<Rightarrow> clearing_counters" where
  "inc_total_commit c = c\<lparr>g_total_commit_requests := g_total_commit_requests c + 1\<rparr>"
definition inc_ok_commit :: "clearing_counters \<Rightarrow> clearing_counters" where
  "inc_ok_commit c = c\<lparr>g_successful_commits := g_successful_commits c + 1\<rparr>"
definition inc_failed_commit :: "clearing_counters \<Rightarrow> clearing_counters" where
  "inc_failed_commit c = c\<lparr>g_failed_commits := g_failed_commits c + 1\<rparr>"
definition inc_total_abort :: "clearing_counters \<Rightarrow> clearing_counters" where
  "inc_total_abort c = c\<lparr>g_total_abort_requests := g_total_abort_requests c + 1\<rparr>"

lemmas cs_inc_defs = inc_total_prepare_def inc_ok_prepare_def inc_failed_prepare_def inc_total_commit_def
  inc_ok_commit_def inc_failed_commit_def inc_total_abort_def

subsection \<open>The table\<close>

fun find_ct :: "string \<Rightarrow> clearing_transaction list \<Rightarrow> nat option" where
  \<comment> \<open>\<open>find_transaction\<close>: the position of the first match\<close>
  "find_ct tid [] = None"
| "find_ct tid (t # ts) = (if ct_txn_id t = tid then Some 0 else map_option Suc (find_ct tid ts))"

definition add_ct :: "string \<Rightarrow> 'a clearing_svc_scheme \<Rightarrow> clearing_transaction option \<times> 'a clearing_svc_scheme" where
  \<comment> \<open>\<open>add_transaction\<close>: the new last element, which the caller goes on to fill in\<close>
  "add_ct tid s =
     (if length (g_transactions s) \<ge> MAX_CT then (None, s)
      else
        let (now, s) = time_null s in
        (Some \<lparr>ct_txn_id = clip 128 tid, ct_pan = [], ct_amount = [], ct_currency = [], ct_merchant_id = [],
               ct_state = TXN_STATE_UNKNOWN, ct_created_at = now, ct_updated_at = now, ct_error_message = [], ct_retry_count = 0\<rparr>,
         s))"

definition set_ct :: "nat \<Rightarrow> ct_state \<Rightarrow> 'a clearing_svc_scheme \<Rightarrow> 'a clearing_svc_scheme" where
  \<comment> \<open>\<open>txn->state = ...; txn->updated_at = time(NULL)\<close>\<close>
  "set_ct i st s =
     (let (now, s) = time_null s in
      s\<lparr>g_transactions := (g_transactions s)[i := (g_transactions s ! i)\<lparr>ct_state := st, ct_updated_at := now\<rparr>]\<rparr>)"

definition simulate_network_delay :: "'a sys_scheme \<Rightarrow> 'a sys_scheme" where
  "simulate_network_delay s = (let (r, s) = c_rand s in emit (Usleep ((50 + r mod 150) * 1000)) s)"

definition should_simulate_failure :: "'a clearing_svc_scheme \<Rightarrow> bool \<times> 'a clearing_svc_scheme" where
  "should_simulate_failure s =
     (if simulate_failures (cs_config s) \<le> 0 then (False, s)
      else let (r, s) = c_rand s in (r mod 100 < simulate_failures (cs_config s), s))"

definition clearing_mask_pan :: "string \<Rightarrow> nat \<Rightarrow> string" where
  "clearing_mask_pan pan max_len =
     (let len = length pan in
      if len \<le> 10 \<or> max_len < len + 1 then take (max_len - 1) pan
      else take 6 pan @ replicate (len - 4 - 6) CHR ''*'' @ drop (len - 4) pan)"

subsection \<open>Handlers\<close>

definition cs_ok :: "cjson \<Rightarrow> string \<Rightarrow> json" where
  "cs_ok cj st = JObject [(''ok'', cJSON_CreateBool cj (cJSON_True cj)), (''status'', JString st)]"

definition cs_error :: "cjson \<Rightarrow> string \<Rightarrow> json" where
  "cs_error cj e = JObject [(''ok'', cJSON_CreateBool cj (cJSON_False cj)), (''error'', JString e)]"

definition handle_prepare :: "cjson \<Rightarrow> json \<Rightarrow> 'a clearing_svc_scheme \<Rightarrow> json \<times> 'a clearing_svc_scheme" where
  "handle_prepare cj request s =
     (let get = cJSON_GetObjectItem cj request in
      if \<not> cJSON_IsString (get ''txn_id'') \<or> \<not> cJSON_IsString (get ''pan'') \<or> \<not> cJSON_IsString (get ''amount'')
      then (cs_error cj ''missing_required_fields'', s)
      else
        let tid = valuestring (get ''txn_id'');
            currency = (if cJSON_IsString (get ''currency'') then valuestring (get ''currency'') else ''USD'');
            merchant = (if cJSON_IsString (get ''merchant_id'') then valuestring (get ''merchant_id'') else ''UNKNOWN'');
            s = simulate_network_delay (count_cs inc_total_prepare s);
            (fail, s) = should_simulate_failure s in
        if fail then (cs_error cj ''network_timeout'', count_cs inc_failed_prepare s)
        else
          (case find_ct tid (g_transactions s) of
             Some i \<Rightarrow>
               if ct_state (g_transactions s ! i) = TXN_STATE_PREPARED then (cs_ok cj ''already_prepared'', s)
               else (cs_error cj ''transaction_in_invalid_state'', s)
           | None \<Rightarrow>
               (case add_ct tid s of
                  (None, s) \<Rightarrow> (cs_error cj ''transaction_table_full'', s)
                | (Some t, s) \<Rightarrow>
                    let (now, s) = time_null s;
                        t = t\<lparr>ct_pan := clip 20 (valuestring (get ''pan'')), ct_amount := clip 16 (valuestring (get ''amount'')),
                              ct_currency := clip 4 currency, ct_merchant_id := clip 64 merchant,
                              ct_state := TXN_STATE_PREPARED, ct_updated_at := now\<rparr>
                    in (cs_ok cj ''prepared'', count_cs inc_ok_prepare (s\<lparr>g_transactions := g_transactions s @ [t]\<rparr>)))))"

definition handle_commit :: "cjson \<Rightarrow> json \<Rightarrow> 'a clearing_svc_scheme \<Rightarrow> json \<times> 'a clearing_svc_scheme" where
  "handle_commit cj request s =
     (let f = cJSON_GetObjectItem cj request ''txn_id'' in
      if \<not> cJSON_IsString f then (cs_error cj ''missing_txn_id'', s)
      else
        let tid = valuestring f; s = simulate_network_delay (count_cs inc_total_commit s);
            (fail, s) = should_simulate_failure s in
        if fail then (cs_error cj ''commit_failed'', count_cs inc_failed_commit s)
        else
          (case find_ct tid (g_transactions s) of
             None \<Rightarrow> (cs_error cj ''transaction_not_found'', s)
           | Some i \<Rightarrow>
               if ct_state (g_transactions s ! i) = TXN_STATE_COMMITTED then (cs_ok cj ''already_committed'', s)
               else if ct_state (g_transactions s ! i) \<noteq> TXN_STATE_PREPARED then (cs_error cj ''transaction_not_prepared'', s)
               else (cs_ok cj ''committed'', count_cs inc_ok_commit (set_ct i TXN_STATE_COMMITTED s))))"

definition handle_abort :: "cjson \<Rightarrow> json \<Rightarrow> 'a clearing_svc_scheme \<Rightarrow> json \<times> 'a clearing_svc_scheme" where
  "handle_abort cj request s =
     (let f = cJSON_GetObjectItem cj request ''txn_id'' in
      if \<not> cJSON_IsString f then (cs_error cj ''missing_txn_id'', s)
      else
        let s = count_cs inc_total_abort s in
        (case find_ct (valuestring f) (g_transactions s) of
           None \<Rightarrow> (cs_ok cj ''not_found_ok'', s)
         | Some i \<Rightarrow> (cs_ok cj ''aborted'', set_ct i TXN_STATE_ABORTED s)))"

fun state_str :: "ct_state \<Rightarrow> string" where
  "state_str TXN_STATE_PREPARED = ''PREPARED''"
| "state_str TXN_STATE_COMMITTED = ''COMMITTED''"
| "state_str TXN_STATE_ABORTED = ''ABORTED''"
| "state_str TXN_STATE_TIMEOUT = ''TIMEOUT''"
| "state_str TXN_STATE_UNKNOWN = ''UNKNOWN''"

definition handle_status :: "string \<Rightarrow> 'a clearing_svc_scheme \<Rightarrow> json" where
  "handle_status tid s =
     (case find_ct tid (g_transactions s) of
        None \<Rightarrow> JObject [(''status'', JString ''NOT_FOUND'')]
      | Some i \<Rightarrow>
          let t = g_transactions s ! i in
          JObject ([(''txn_id'', JString (ct_txn_id t)), (''status'', JString (state_str (ct_state t))),
             (''created_at'', num (ct_created_at t)), (''updated_at'', num (ct_updated_at t)),
             (''masked_pan'', JString (clearing_mask_pan (ct_pan t) 32)), (''amount'', JString (ct_amount t)),
             (''currency'', JString (ct_currency t))] @
             (if ct_error_message t \<noteq> [] then [(''error'', JString (ct_error_message t))] else [])))"

subsection \<open>Routes\<close>

definition cs_rate :: "string \<Rightarrow> int \<Rightarrow> int \<Rightarrow> (string \<times> json) list" where
  "cs_rate k part n = (if n > 0 then [(k, JNumber (part * 100) (nat n))] else [])"

definition clearing_metrics :: "'a clearing_svc_scheme \<Rightarrow> json \<times> 'a clearing_svc_scheme" where
  "clearing_metrics s =
     (let c = cs_counters s; (now, s') = time_null s in
      (JObject ([(''total_prepare_requests'', num (g_total_prepare_requests c)), (''successful_prepares'', num (g_successful_prepares c)),
          (''failed_prepares'', num (g_failed_prepares c)), (''total_commit_requests'', num (g_total_commit_requests c)),
          (''successful_commits'', num (g_successful_commits c)), (''failed_commits'', num (g_failed_commits c)),
          (''total_abort_requests'', num (g_total_abort_requests c))] @
          cs_rate ''prepare_success_rate_percent'' (g_successful_prepares c) (g_total_prepare_requests c) @
          cs_rate ''commit_success_rate_percent'' (g_successful_commits c) (g_total_commit_requests c) @
          [(''active_transactions'', num (int (length (g_transactions s)))), (''timestamp'', num now)]), s'))"

definition clearing_post ::
    "cjson \<Rightarrow> (json \<Rightarrow> 'a clearing_svc_scheme \<Rightarrow> json \<times> 'a clearing_svc_scheme) \<Rightarrow> string \<Rightarrow> 'a clearing_svc_scheme \<Rightarrow>
     (int \<times> string \<times> json option) \<times> 'a clearing_svc_scheme" where
  \<comment> \<open>without a body there is no reply at all\<close>
  "clearing_post cj h buffer s =
     (case body_of buffer of
        None \<Rightarrow> ((200, ''OK'', None), s)
      | Some body \<Rightarrow>
          (case cJSON_Parse cj body of
             None \<Rightarrow> ((400, ''Bad Request'', Some (cs_error cj ''invalid_json'')), s)
           | Some request \<Rightarrow> let (j, s) = h request s in ((200, ''OK'', Some j), s)))"

definition clearing_route ::
    "cjson \<Rightarrow> string \<times> string \<Rightarrow> string \<Rightarrow> 'a clearing_svc_scheme \<Rightarrow> (int \<times> string \<times> json option) \<times> 'a clearing_svc_scheme" where
  "clearing_route cj mp buffer s =
     (if mp = (''POST'', ''/clearing/prepare'') then clearing_post cj (handle_prepare cj) buffer s
      else if mp = (''POST'', ''/clearing/commit'') then clearing_post cj (handle_commit cj) buffer s
      else if mp = (''POST'', ''/clearing/abort'') then clearing_post cj (handle_abort cj) buffer s
      else if fst mp = ''GET'' \<and> strncmp_eq (snd mp) ''/clearing/status/'' then
        ((200, ''OK'', Some (handle_status (drop 17 (snd mp)) s)), s)
      else if mp = (''GET'', ''/health'') then
        let (now, s) = time_null s in
        ((200, ''OK'', Some (JObject [(''status'', JString ''healthy''), (''service'', JString ''clearing-service''), (''timestamp'', num now)])), s)
      else if mp = (''GET'', ''/metrics'') then let (j, s) = clearing_metrics s in ((200, ''OK'', Some j), s)
      else ((404, ''Not Found'', Some (JObject [(''error'', JString ''not_found'')])), s))"

definition clearing_handle_request ::
    "cjson \<Rightarrow> string \<times> string \<Rightarrow> string \<Rightarrow> 'a clearing_svc_scheme \<Rightarrow> 'a clearing_svc_scheme" where
  "clearing_handle_request cj junk bytes s =
     (if bytes = [] then s
      else
        let buffer = cstr (take 4095 bytes);
            ((code, why, j), s) = clearing_route cj (request_line junk buffer) buffer s
        in send_response cj code why j s)"

definition clearing_load_config :: "'a clearing_svc_scheme \<Rightarrow> 'a clearing_svc_scheme" where
  "clearing_load_config s =
     s\<lparr>cs_config := \<lparr>cc_port = env_int s ''PORT'' 8082, simulate_failures = env_int s ''CLEARING_SIMULATE_FAILURES'' 0,
         prepare_timeout_sec = env_int s ''CLEARING_PREPARE_TIMEOUT'' 30, commit_timeout_sec = env_int s ''CLEARING_COMMIT_TIMEOUT'' 30,
         cc_db_uri = env_str s ''DB_URI'' ''postgresql://localhost:5432/clearing_db'' 512\<rparr>\<rparr>"

definition clearing_main_init :: "'a clearing_svc_scheme \<Rightarrow> 'a clearing_svc_scheme" where
  \<comment> \<open>the seed of \<open>rand\<close>, \<open>load_config\<close> and the cleared table, before the accept loop\<close>
  "clearing_main_init s = (clearing_load_config (snd (time_null s)))\<lparr>g_transactions := []\<rparr>"

fun clearing_main_loop :: "cjson \<Rightarrow> ((string \<times> string) \<times> string) list \<Rightarrow> 'a clearing_svc_scheme \<Rightarrow> 'a clearing_svc_scheme" where
  "clearing_main_loop cj [] s = s"
| "clearing_main_loop cj ((junk, bytes) # rs) s = clearing_main_loop cj rs (clearing_handle_request cj junk bytes s)"

definition clearing_main ::
    "cjson \<Rightarrow> bool \<times> bool \<times> bool \<Rightarrow> ((string \<times> string) \<times> string) list \<Rightarrow> 'a clearing_svc_scheme \<Rightarrow> int option \<times> 'a clearing_svc_scheme" where
  \<comment> \<open>the exit status, if the program ends before it serves; a failing \<open>accept\<close> is skipped\<close>
  "clearing_main cj n rs s =
     (let s = clearing_main_init s in
      case svc_listen n of Some rc \<Rightarrow> (Some rc, s) | None \<Rightarrow> (None, clearing_main_loop cj rs s))"

subsection \<open>The life of a transaction\<close>

datatype cs_op = Op_prepare json | Op_commit json | Op_abort json

fun cs_apply :: "cjson \<Rightarrow> cs_op \<Rightarrow> 'a clearing_svc_scheme \<Rightarrow> 'a clearing_svc_scheme" where
  "cs_apply cj (Op_prepare r) s = snd (handle_prepare cj r s)"
| "cs_apply cj (Op_commit r) s = snd (handle_commit cj r s)"
| "cs_apply cj (Op_abort r) s = snd (handle_abort cj r s)"

fun op_request :: "cs_op \<Rightarrow> json" where
  "op_request (Op_prepare r) = r" | "op_request (Op_commit r) = r" | "op_request (Op_abort r) = r"

definition ct_moves :: "ct_state \<Rightarrow> ct_state \<Rightarrow> bool" where
  "ct_moves a b \<longleftrightarrow> a = b \<or> a = TXN_STATE_PREPARED \<and> b = TXN_STATE_COMMITTED \<or>
     (a = TXN_STATE_PREPARED \<or> a = TXN_STATE_COMMITTED) \<and> b = TXN_STATE_ABORTED"

definition ct_later :: "clearing_transaction \<Rightarrow> clearing_transaction \<Rightarrow> bool" where
  \<comment> \<open>the same transaction later: only its state and the time of the change differ\<close>
  "ct_later t t' \<longleftrightarrow> ct_moves (ct_state t) (ct_state t') \<and>
     t' = t\<lparr>ct_state := ct_state t', ct_updated_at := ct_updated_at t'\<rparr>"

definition ct_evolves :: "clearing_transaction list \<Rightarrow> clearing_transaction list \<Rightarrow> bool" where
  "ct_evolves ts ts' \<longleftrightarrow> length ts \<le> length ts' \<and> (\<forall>i < length ts. ct_later (ts ! i) (ts' ! i))"

definition ct_live :: "clearing_transaction \<Rightarrow> bool" where
  "ct_live t \<longleftrightarrow> ct_state t \<in> {TXN_STATE_PREPARED, TXN_STATE_COMMITTED, TXN_STATE_ABORTED} \<and> ct_error_message t = []"

definition committed :: "clearing_transaction \<Rightarrow> bool" where
  "committed t \<longleftrightarrow> ct_state t = TXN_STATE_COMMITTED"

definition ct_ok :: "'a clearing_svc_scheme \<Rightarrow> bool" where
  "ct_ok s \<longleftrightarrow> (let ts = g_transactions s; c = cs_counters s in
     length ts \<le> MAX_CT \<and> (\<forall>t \<in> set ts. ct_live t) \<and>
     g_successful_prepares c = int (length ts) \<and>
     int (length (filter committed ts)) \<le> g_successful_commits c \<and>
     g_successful_prepares c + g_failed_prepares c \<le> g_total_prepare_requests c \<and>
     g_successful_commits c + g_failed_commits c \<le> g_total_commit_requests c)"

definition ids_distinct :: "'a clearing_svc_scheme \<Rightarrow> bool" where
  "ids_distinct s \<longleftrightarrow> distinct (map ct_txn_id (g_transactions s))"

definition short_id :: "cjson \<Rightarrow> cs_op \<Rightarrow> bool" where
  "short_id cj op \<longleftrightarrow> length (valuestring (cJSON_GetObjectItem cj (op_request op) ''txn_id'')) < 128"

lemma find_ct_Some: "find_ct tid ts = Some i \<Longrightarrow> i < length ts \<and> ct_txn_id (ts ! i) = tid"
  by (induction ts arbitrary: i) (auto split: if_splits)

lemma find_ct_None: "find_ct tid ts = None \<Longrightarrow> tid \<notin> ct_txn_id ` set ts"
  by (induction ts) (auto split: if_splits)

lemma ct_evolves_refl: "ct_evolves ts ts"
  by (simp add: ct_evolves_def ct_later_def ct_moves_def)

lemma ct_later_trans: "ct_later a b \<Longrightarrow> ct_later b c \<Longrightarrow> ct_later a c"
  unfolding ct_later_def ct_moves_def by (cases a; cases b; cases c) auto

lemma ct_evolves_trans: "ct_evolves a b \<Longrightarrow> ct_evolves b c \<Longrightarrow> ct_evolves a c"
  unfolding ct_evolves_def using ct_later_trans by (meson less_le_trans order_trans)

lemma ct_evolves_set:
  "i < length ts \<Longrightarrow> ct_moves (ct_state (ts ! i)) st \<Longrightarrow> ct_evolves ts (ts[i := (ts ! i)\<lparr>ct_state := st, ct_updated_at := n\<rparr>])"
  by (auto simp: ct_evolves_def ct_later_def nth_list_update ct_moves_def)

lemma ct_evolves_add: "ct_evolves ts (ts @ [t])"
  by (auto simp: ct_evolves_def ct_later_def ct_moves_def nth_append)

lemma delay_fields [simp]:
  "g_transactions (simulate_network_delay s) = g_transactions s" "cs_counters (simulate_network_delay s) = cs_counters s"
  "cs_config (simulate_network_delay s) = cs_config s"
  "g_transactions (snd (should_simulate_failure s)) = g_transactions s" "cs_counters (snd (should_simulate_failure s)) = cs_counters s"
  for s :: "'a clearing_svc_scheme"
  by (simp_all add: simulate_network_delay_def should_simulate_failure_def c_rand_def emit_def Let_def)

lemma count_cs_fields [simp]: "g_transactions (count_cs f s) = g_transactions s" "cs_counters (count_cs f s) = f (cs_counters s)"
  by (simp_all add: count_cs_def)

lemma set_ct_fields [simp]:
  "g_transactions (set_ct i st s) = (g_transactions s)[i := (g_transactions s ! i)\<lparr>ct_state := st, ct_updated_at := time_src s (time_calls s)\<rparr>]"
  "cs_counters (set_ct i st s) = cs_counters s"
  by (simp_all add: set_ct_def time_null_def)

lemma filter_update_le:
  "i < length ts \<Longrightarrow> \<not> P x \<Longrightarrow> length (filter P (ts[i := x])) \<le> length (filter P ts)"
  "i < length ts \<Longrightarrow> length (filter P (ts[i := x])) \<le> Suc (length (filter P ts))"
  by (induction ts arbitrary: i) (auto simp: less_Suc_eq_0_disj nth_Cons' split: nat.splits)

lemma prepare_keeps:
  assumes "ct_ok s"
  shows "ct_ok (snd (handle_prepare cj r s))"
    and "ct_evolves (g_transactions s) (g_transactions (snd (handle_prepare cj r s)))"
    and "ids_distinct s \<Longrightarrow> short_id cj (Op_prepare r) \<Longrightarrow> ids_distinct (snd (handle_prepare cj r s))"
proof -
  let ?id = "valuestring (cJSON_GetObjectItem cj r ''txn_id'')"
  show "ct_ok (snd (handle_prepare cj r s))"
    using assms
    by (auto simp: handle_prepare_def add_ct_def time_null_def ct_ok_def cs_inc_defs ct_live_def committed_def Let_def case_prod_beta
        split: option.split)
  show "ct_evolves (g_transactions s) (g_transactions (snd (handle_prepare cj r s)))"
    by (auto simp: handle_prepare_def add_ct_def time_null_def ct_evolves_refl ct_evolves_add Let_def case_prod_beta split: option.split)
  show "ids_distinct s \<Longrightarrow> short_id cj (Op_prepare r) \<Longrightarrow> ids_distinct (snd (handle_prepare cj r s))"
    using find_ct_None [of ?id "g_transactions s"]
    by (auto simp: handle_prepare_def add_ct_def time_null_def ids_distinct_def short_id_def clip_def Let_def case_prod_beta split: option.split)
qed

lemma set_ct_keeps:
  assumes "ct_ok s" "i < length (g_transactions s)" "st = TXN_STATE_ABORTED \<or> st = TXN_STATE_COMMITTED"
  shows "length (g_transactions (set_ct i st s)) \<le> MAX_CT" "\<forall>t \<in> set (g_transactions (set_ct i st s)). ct_live t"
    "int (length (filter committed (g_transactions (set_ct i st s)))) \<le>
       g_successful_commits (cs_counters s) + (if st = TXN_STATE_COMMITTED then 1 else 0)"
proof -
  let ?t = "(g_transactions s ! i)\<lparr>ct_state := st, ct_updated_at := time_src s (time_calls s)\<rparr>"
  have "ct_live (g_transactions s ! i)" using assms(1,2) by (simp add: ct_ok_def Let_def)
  then have "ct_live ?t" using assms(3) by (auto simp: ct_live_def)
  with assms(1) show "\<forall>t \<in> set (g_transactions (set_ct i st s)). ct_live t"
    using set_update_subset_insert [of "g_transactions s" i ?t] by (auto simp: ct_ok_def Let_def)
  show "length (g_transactions (set_ct i st s)) \<le> MAX_CT" using assms(1) by (simp add: ct_ok_def Let_def)
  show "int (length (filter committed (g_transactions (set_ct i st s)))) \<le>
       g_successful_commits (cs_counters s) + (if st = TXN_STATE_COMMITTED then 1 else 0)"
    using filter_update_le [OF assms(2), of committed ?t] assms(1,3) by (auto simp: ct_ok_def committed_def Let_def)
qed

lemma set_ct_ids: "i < length (g_transactions s) \<Longrightarrow> ids_distinct (set_ct i st s) = ids_distinct s"
  by (simp add: ids_distinct_def map_update) (metis list_update_id map_update nth_map)

lemma commit_effect:
  fixes s :: "'a clearing_svc_scheme"
  defines "s0 \<equiv> snd (should_simulate_failure (simulate_network_delay (count_cs inc_total_commit s)))"
  shows "snd (handle_commit cj r s) \<in> {s, s0, count_cs inc_failed_commit s0} \<or>
    (\<exists>i < length (g_transactions s). ct_state (g_transactions s ! i) = TXN_STATE_PREPARED \<and>
       snd (handle_commit cj r s) = count_cs inc_ok_commit (set_ct i TXN_STATE_COMMITTED s0))"
proof -
  have "g_transactions s0 = g_transactions s" by (simp add: s0_def)
  then show ?thesis
    by (simp add: handle_commit_def Let_def case_prod_beta s0_def [symmetric] split: option.split)
      (metis find_ct_Some)
qed

lemma abort_effect:
  fixes s :: "'a clearing_svc_scheme"
  shows "snd (handle_abort cj r s) \<in> {s, count_cs inc_total_abort s} \<or>
    (\<exists>i < length (g_transactions s). snd (handle_abort cj r s) = set_ct i TXN_STATE_ABORTED (count_cs inc_total_abort s))"
  by (simp add: handle_abort_def Let_def split: option.split) (metis find_ct_Some)

definition ct_kept :: "'a clearing_svc_scheme \<Rightarrow> 'a clearing_svc_scheme \<Rightarrow> bool" where
  "ct_kept s s' \<longleftrightarrow> ct_ok s' \<and> ct_evolves (g_transactions s) (g_transactions s') \<and> (ids_distinct s \<longrightarrow> ids_distinct s')"

lemma ct_kept_same: "ct_ok s' \<Longrightarrow> g_transactions s' = g_transactions s \<Longrightarrow> ct_kept s s'"
  by (simp add: ct_kept_def ct_evolves_refl ids_distinct_def)

lemma commit_keeps: "ct_ok s \<Longrightarrow> ct_kept s (snd (handle_commit cj r s))"
proof -
  assume ok: "ct_ok s"
  let ?s0 = "snd (should_simulate_failure (simulate_network_delay (count_cs inc_total_commit s)))"
  have same: "ct_kept s s" "ct_kept s ?s0" "ct_kept s (count_cs inc_failed_commit ?s0)"
    using ok by (auto intro!: ct_kept_same simp: ct_ok_def cs_inc_defs Let_def)
  moreover have "ct_kept s (count_cs inc_ok_commit (set_ct i TXN_STATE_COMMITTED ?s0))"
    if i: "i < length (g_transactions s)" "ct_state (g_transactions s ! i) = TXN_STATE_PREPARED" for i
  proof -
    have "ct_ok ?s0" "i < length (g_transactions ?s0)" using same(2) i(1) by (simp_all add: ct_kept_def)
    note k = set_ct_keeps [OF this, of TXN_STATE_COMMITTED]
    have "ct_ok (count_cs inc_ok_commit (set_ct i TXN_STATE_COMMITTED ?s0))"
      using k ok by (simp add: ct_ok_def cs_inc_defs Let_def)
    moreover have "ids_distinct s \<Longrightarrow> ids_distinct (count_cs inc_ok_commit (set_ct i TXN_STATE_COMMITTED ?s0))"
      using set_ct_ids [of i ?s0 TXN_STATE_COMMITTED] i(1) by (simp add: ids_distinct_def)
    ultimately show ?thesis using i by (simp add: ct_kept_def ct_evolves_set ct_moves_def)
  qed
  ultimately show ?thesis using commit_effect [of cj r s] by auto
qed

lemma abort_keeps: "ct_ok s \<Longrightarrow> ct_kept s (snd (handle_abort cj r s))"
proof -
  assume ok: "ct_ok s"
  let ?s0 = "count_cs inc_total_abort s"
  have same: "ct_kept s s" "ct_kept s ?s0" using ok by (auto intro!: ct_kept_same simp: ct_ok_def cs_inc_defs Let_def)
  moreover have "ct_kept s (set_ct i TXN_STATE_ABORTED ?s0)" if i: "i < length (g_transactions s)" for i
  proof -
    have o: "ct_ok ?s0" "i < length (g_transactions ?s0)" using same(2) i by (simp_all add: ct_kept_def)
    note k = set_ct_keeps [OF o, of TXN_STATE_ABORTED]
    have "ct_ok (set_ct i TXN_STATE_ABORTED ?s0)" using k o(1) by (simp add: ct_ok_def cs_inc_defs Let_def)
    moreover have "ct_live (g_transactions s ! i)" using ok i by (simp add: ct_ok_def Let_def)
    moreover have "ids_distinct s \<Longrightarrow> ids_distinct (set_ct i TXN_STATE_ABORTED ?s0)"
      using set_ct_ids [of i ?s0 TXN_STATE_ABORTED] i by (simp add: ids_distinct_def)
    ultimately show ?thesis using i by (auto simp: ct_kept_def ct_live_def ct_moves_def intro!: ct_evolves_set)
  qed
  ultimately show ?thesis using abort_effect [of cj r s] by auto
qed

lemma apply_keeps:
  assumes "ct_ok s" "short_id cj op"
  shows "ct_kept s (cs_apply cj op s)"
  using assms prepare_keeps [OF assms(1), of cj] commit_keeps [OF assms(1), of cj] abort_keeps [OF assms(1), of cj]
  by (cases op) (auto simp: ct_kept_def)

lemma ct_kept_trans: "ct_kept a b \<Longrightarrow> ct_kept b c \<Longrightarrow> ct_kept a c"
  by (auto simp: ct_kept_def intro: ct_evolves_trans)

text \<open>
  C31. The life of the transactions of the clearing service, over any sequence of prepare, commit and
  abort requests with identifiers of fewer than 128 characters: an entry is never removed and its
  identity never changes; its state is one of PREPARED, COMMITTED and ABORTED and moves only from
  PREPARED to COMMITTED, or to ABORTED, which is final; an identifier occurs at most once in the table,
  which stays within its capacity; and the counters agree with the table. (An abort also overrides a
  commit.)
\<close>

theorem clearing_service_protocol:
  assumes "ct_ok s" "ids_distinct s" "\<forall>op \<in> set ops. short_id cj op"
  shows "ct_ok (fold (cs_apply cj) ops s) \<and> ids_distinct (fold (cs_apply cj) ops s) \<and>
    ct_evolves (g_transactions s) (g_transactions (fold (cs_apply cj) ops s))"
proof -
  have "ct_kept s (fold (cs_apply cj) ops s)"
    using assms(1,3)
  proof (induction ops arbitrary: s)
    case (Cons op ops)
    have k: "ct_kept s (cs_apply cj op s)" using Cons.prems by (intro apply_keeps) simp_all
    then have "ct_kept (cs_apply cj op s) (fold (cs_apply cj) ops (cs_apply cj op s))"
      using Cons by (simp add: ct_kept_def)
    with k show ?case by (auto intro: ct_kept_trans)
  qed (simp add: ct_kept_same)
  with assms(2) show ?thesis by (simp add: ct_kept_def)
qed

subsection \<open>Replies\<close>

lemma clearing_reply_flag:
  assumes "cjson_documented cj"
  shows "cJSON_GetObjectItem cj (cs_ok cj st) ''ok'' = Some (JBool True)"
    and "cJSON_GetObjectItem cj (cs_error cj e) ''ok'' = Some (JBool True)"
proof -
  show "cJSON_GetObjectItem cj (cs_ok cj st) ''ok'' = Some (JBool True)"
    unfolding cs_ok_def by (rule cjson_member [OF assms]) (simp_all add: cjson_bools [OF assms])
  show "cJSON_GetObjectItem cj (cs_error cj e) ''ok'' = Some (JBool True)"
    unfolding cs_error_def by (rule cjson_member [OF assms]) (simp_all add: cjson_bools [OF assms])
qed

lemma clearing_replies_ok:
  assumes "cjson_documented cj"
  shows "cJSON_GetObjectItem cj (fst (handle_prepare cj r s)) ''ok'' = Some (JBool True)"
    and "cJSON_GetObjectItem cj (fst (handle_commit cj r s)) ''ok'' = Some (JBool True)"
    and "cJSON_GetObjectItem cj (fst (handle_abort cj r s)) ''ok'' = Some (JBool True)"
  by (simp_all add: handle_prepare_def handle_commit_def handle_abort_def clearing_reply_flag [OF assms]
      Let_def case_prod_beta split: option.split)

lemma send_response_clearing [simp]:
  "g_transactions (send_response cj code why resp s) = g_transactions s"
  "cs_counters (send_response cj code why resp s) = cs_counters s"
  for s :: "'a clearing_svc_scheme"
  by (simp_all add: send_response_def emit_def Let_def split: option.split)

lemma clearing_post_refused:
  "(\<And>t. body_of b = Some t \<Longrightarrow> cJSON_Parse cj t = None) \<Longrightarrow> snd (clearing_post cj h b s) = s"
  by (simp add: clearing_post_def split: option.split)

interpretation clearing_http: http_service cj "clearing_route cj" "\<lambda>(code, why, j). send_response cj code why j"
  "clearing_handle_request cj" "clearing_main_loop cj" "\<lambda>s :: 'a clearing_svc_scheme. (g_transactions s, cs_counters s)"
  for cj
proof
  show "(g_transactions (snd (clearing_route cj mp b s)), cs_counters (snd (clearing_route cj mp b s))) =
      (g_transactions s, cs_counters s)"
    if "\<And>t. body_of b = Some t \<Longrightarrow> cJSON_Parse cj t = None" for mp b and s :: "'a clearing_svc_scheme"
    by (simp add: clearing_route_def clearing_post_refused [OF that] clearing_metrics_def time_null_def Let_def case_prod_beta)
qed (simp_all add: clearing_handle_request_def Let_def case_prod_beta split: prod.split)

subsection \<open>A concrete service\<close>

definition demo_clearing_svc :: clearing_svc where
  "demo_clearing_svc = \<lparr>env_src = Map.empty, time_src = int, time_calls = 0, rand_src = (\<lambda>_. 0), rand_calls = 0,
     alloc_src = (\<lambda>_. True), allocs = 0, trace = [], metrics = metrics_zero,
     cs_config = \<lparr>cc_port = 8082, simulate_failures = 0, prepare_timeout_sec = 30, commit_timeout_sec = 30, cc_db_uri = []\<rparr>,
     g_transactions = [], cs_counters = \<lparr>g_total_prepare_requests = 0, g_successful_prepares = 0, g_failed_prepares = 0,
       g_total_commit_requests = 0, g_successful_commits = 0, g_failed_commits = 0, g_total_abort_requests = 0\<rparr>\<rparr>"

definition demo_clearing_request :: json where
  "demo_clearing_request = JObject [(''txn_id'', JString ''t''), (''pan'', JString ''4''), (''amount'', JString ''1.00'')]"

text \<open>Witness of C31: prepare, commit and then abort of the same transaction, which ends ABORTED.\<close>

theorem clearing_service_protocol_witness:
  "let s = fold (cs_apply demo_cjson) [Op_prepare demo_clearing_request, Op_commit demo_clearing_request, Op_abort demo_clearing_request]
       demo_clearing_svc
   in ct_ok s \<and> ids_distinct s \<and> map ct_state (g_transactions s) = [TXN_STATE_ABORTED]"
proof -
  let ?ops = "[Op_prepare demo_clearing_request, Op_commit demo_clearing_request, Op_abort demo_clearing_request]"
  have "ct_ok demo_clearing_svc" "ids_distinct demo_clearing_svc" by (simp_all add: demo_clearing_svc_def ct_ok_def ids_distinct_def)
  moreover have "\<forall>op \<in> set ?ops. short_id demo_cjson op"
    by (simp add: short_id_def demo_cjson_def demo_clearing_request_def)
  ultimately have "ct_ok (fold (cs_apply demo_cjson) ?ops demo_clearing_svc)" "ids_distinct (fold (cs_apply demo_cjson) ?ops demo_clearing_svc)"
    using clearing_service_protocol [of demo_clearing_svc ?ops demo_cjson] by blast+
  moreover have "map ct_state (g_transactions (fold (cs_apply demo_cjson) ?ops demo_clearing_svc)) = [TXN_STATE_ABORTED]"
    by code_simp
  ultimately show ?thesis by (simp add: Let_def)
qed

end
