(* ===== verification/Payment_service.thy ===== *)
theory Payment_service
  imports Risk_service Clearing_service
begin

section \<open>The payment service (microservices/payment-service/src/main.c)\<close>

text \<open>
  The orchestrator: it validates an authorization request, asks the risk service and runs prepare
  and commit on the clearing service. libcurl is a parameter: \<open>curl_perform\<close> gives for a URL, the
  posted text and the state of the network whether the transfer ended with \<open>CURLE_OK\<close>, the response
  code and the pieces of the body, which go through the write callback one by one; it gives
  \<^const>\<open>None\<close> when \<open>curl_easy_init\<close> fails. \<open>uninit\<close> is what the one byte of \<open>malloc(1)\<close> and the memory
  behind it look like as a string when nothing has been received. \<open>ps_posts\<close> records the calls of \<open>http_post_json\<close>
  with their results.
\<close>

record pay_config =
  pc_port :: int
  risk_service_url :: string
  clearing_service_url :: string
  ledger_service_url :: string
  pc_db_uri :: string
  max_threads :: int
  pc_queue_capacity :: int

record payment_request =
  pr_request_id :: string
  pr_pan :: string
  pr_amount :: string
  pr_currency :: string
  pr_merchant_id :: string
  pr_timestamp :: int

record http_response =
  hr_data :: "string option"
  hr_size :: nat

record post =
  post_url :: string
  post_json :: string
  post_rc :: int
  post_data :: "string option"

record 'n curl =
  curl_perform :: "string \<Rightarrow> string \<Rightarrow> 'n \<Rightarrow> (bool \<times> int \<times> string list) option \<times> 'n"
  uninit :: string

record pay_counters =
  g_total_requests :: int
  g_approved_requests :: int
  g_declined_requests :: int

record 'n pay_svc = sys +
  ps_config :: pay_config
  ps_net :: 'n
  ps_posts :: "post list"
  ps_counters :: pay_counters

subsection \<open>The HTTP client\<close>

definition http_response_callback :: "string \<Rightarrow> http_response \<Rightarrow> 'a sys_scheme \<Rightarrow> nat \<times> http_response \<times> 'a sys_scheme" where
  "http_response_callback contents r s =
     (case malloc s of
        (None, s) \<Rightarrow> (0, r, s)
      | (Some _, s) \<Rightarrow>
          (length contents,
           r\<lparr>hr_data := Some (take (hr_size r) (case hr_data r of None \<Rightarrow> [] | Some d \<Rightarrow> d) @ contents),
             hr_size := hr_size r + length contents\<rparr>, s))"

fun deliver :: "string list \<Rightarrow> http_response \<Rightarrow> 'a sys_scheme \<Rightarrow> bool \<times> http_response \<times> 'a sys_scheme" where
  \<comment> \<open>libcurl stops with an error when the callback does not take the whole piece\<close>
  "deliver [] r s = (True, r, s)"
| "deliver (c # cs) r s =
     (let (n, r, s) = http_response_callback c r s in if n \<noteq> length c then (False, r, s) else deliver cs r s)"

definition http_post_json ::
    "'n curl \<Rightarrow> string \<Rightarrow> string \<Rightarrow> ('n, 'a) pay_svc_scheme \<Rightarrow> int \<times> string option \<times> ('n, 'a) pay_svc_scheme" where
  \<comment> \<open>the response is \<open>{0}\<close> at every call\<close>
  "http_post_json cu url json s =
     (let (answer, net) = curl_perform cu url json (ps_net s); s = s\<lparr>ps_net := net\<rparr>;
          (rc, d, s) =
            (case answer of
               None \<Rightarrow> (- 1, None, s)
             | Some (curle_ok, code, chunks) \<Rightarrow>
                 let (p, s) = malloc s;
                     (taken, r, s) = deliver chunks \<lparr>hr_data = map_option (\<lambda>_. uninit cu) p, hr_size = 0\<rparr> s
                 in (if curle_ok \<and> taken \<and> code = 200 then 0 else - 1, hr_data r, s))
      in (rc, d, s\<lparr>ps_posts := ps_posts s @ [\<lparr>post_url = url, post_json = json, post_rc = rc, post_data = d\<rparr>]\<rparr>))"

definition reply_flag :: "cjson \<Rightarrow> string \<Rightarrow> string option \<Rightarrow> bool" where
  \<comment> \<open>the boolean member of the parsed reply; \<open>cJSON_Parse(NULL)\<close> is null\<close>
  "reply_flag cj field d =
     (case d of
        None \<Rightarrow> False
      | Some t \<Rightarrow>
          (case cJSON_Parse cj (cstr t) of
             None \<Rightarrow> False
           | Some j \<Rightarrow> cJSON_GetObjectItem cj j field = Some (JBool True)))"

subsection \<open>Validation\<close>

fun validate_loop :: "int \<Rightarrow> bool \<Rightarrow> string \<Rightarrow> int option" where
  \<comment> \<open>over the characters from the last to the first\<close>
  "validate_loop acc alt [] = Some acc"
| "validate_loop acc alt (c # cs) =
     (if code_of c < 48 \<or> code_of c > 57 then None
      else
        let digit = code_of c - 48; digit = (if alt then (if digit * 2 > 9 then digit * 2 - 9 else digit * 2) else digit)
        in validate_loop (acc + digit) (\<not> alt) cs)"

definition validate_luhn :: "string \<Rightarrow> bool" where
  "validate_luhn pan = (case validate_loop 0 False (rev pan) of None \<Rightarrow> False | Some acc \<Rightarrow> acc mod 10 = 0)"

definition payment_mask_pan :: "string \<Rightarrow> nat \<Rightarrow> string" where
  "payment_mask_pan pan max_len =
     (let len = length pan in
      if len \<le> 10 \<or> max_len < len + 1 then take (max_len - 1) pan
      else take 6 pan @ replicate (len - 4 - 6) CHR ''*'' @ drop (len - 4) pan)"

definition amount_refused :: "string \<Rightarrow> bool" where
  \<comment> \<open>\<open>amount <= 0.0 || amount > 10000.0\<close>; both comparisons fail for a NaN\<close>
  "amount_refused t = (atof t \<noteq> Nan \<and> (\<not> exceeds (atof t) 0 \<or> exceeds (atof t) 10000))"

subsection \<open>The calls to the other services\<close>

definition risk_request :: "payment_request \<Rightarrow> json" where
  "risk_request req = JObject [(''pan'', JString (pr_pan req)), (''amount'', JString (pr_amount req)),
     (''currency'', JString (pr_currency req)), (''merchant_id'', JString (pr_merchant_id req))]"

definition clearing_request :: "string \<Rightarrow> payment_request \<Rightarrow> json" where
  "clearing_request tid req = JObject [(''txn_id'', JString tid), (''pan'', JString (pr_pan req)), (''amount'', JString (pr_amount req)),
     (''currency'', JString (pr_currency req)), (''merchant_id'', JString (pr_merchant_id req))]"

definition risk_url :: "('n, 'a) pay_svc_scheme \<Rightarrow> string" where
  "risk_url s = clip 512 (risk_service_url (ps_config s) @ ''/risk/evaluate'')"

definition prepare_url :: "('n, 'a) pay_svc_scheme \<Rightarrow> string" where
  "prepare_url s = clip 512 (clearing_service_url (ps_config s) @ ''/clearing/prepare'')"

definition commit_url :: "('n, 'a) pay_svc_scheme \<Rightarrow> string" where
  "commit_url s = clip 512 (clearing_service_url (ps_config s) @ ''/clearing/commit'')"

definition call_risk_service :: "cjson \<Rightarrow> 'n curl \<Rightarrow> payment_request \<Rightarrow> ('n, 'a) pay_svc_scheme \<Rightarrow> int \<times> ('n, 'a) pay_svc_scheme" where
  "call_risk_service cj cu req s =
     (case cJSON_Print cj (risk_request req) of
        None \<Rightarrow> (- 1, s)
      | Some text \<Rightarrow>
          let (result, d, s) = http_post_json cu (risk_url s) text s in
          if result \<noteq> 0 then (- 1, s)
          else (if reply_flag cj ''allow'' d then 0 else - 1, s))"

definition call_clearing_service ::
    "cjson \<Rightarrow> 'n curl \<Rightarrow> string \<Rightarrow> payment_request \<Rightarrow> ('n, 'a) pay_svc_scheme \<Rightarrow> int \<times> ('n, 'a) pay_svc_scheme" where
  "call_clearing_service cj cu tid req s =
     (case cJSON_Print cj (clearing_request tid req) of
        None \<Rightarrow> (- 1, s)
      | Some text \<Rightarrow>
          let (result, d, s) = http_post_json cu (prepare_url s) text s in
          if result \<noteq> 0 then (- 1, s)
          else if \<not> reply_flag cj ''ok'' d then (- 1, s)
          else
            let (result, d, s) = http_post_json cu (commit_url s) text s in
            if result \<noteq> 0 then (- 1, s)
            else (if reply_flag cj ''ok'' d then 0 else - 1, s))"

definition svc_declined :: "string \<Rightarrow> string \<Rightarrow> json" where
  "svc_declined why tid = JObject [(''status'', JString ''DECLINED''), (''reason'', JString why), (''txn_id'', JString tid)]"

definition svc_txn_id :: "payment_request \<Rightarrow> int \<Rightarrow> string" where
  "svc_txn_id req now = clip 128 (''visa_'' @ pr_request_id req @ ''_'' @ show_int now)"

definition svc_approved :: "string \<Rightarrow> int \<Rightarrow> json" where
  "svc_approved tid now = JObject [(''status'', JString ''APPROVED''), (''txn_id'', JString tid), (''timestamp'', num now)]"

definition process_authorization :: "cjson \<Rightarrow> 'n curl \<Rightarrow> payment_request \<Rightarrow> ('n, 'a) pay_svc_scheme \<Rightarrow> json \<times> ('n, 'a) pay_svc_scheme" where
  "process_authorization cj cu req s =
     (let (now, s) = time_null s; tid = svc_txn_id req now in
      if \<not> validate_luhn (pr_pan req) then (svc_declined ''invalid_pan'' tid, s)
      else if amount_refused (pr_amount req) then (svc_declined ''invalid_amount'' tid, s)
      else
        let (rc, s) = call_risk_service cj cu req s in
        if rc \<noteq> 0 then (svc_declined ''risk_declined'' tid, s)
        else
          let (rc, s) = call_clearing_service cj cu tid req s in
          if rc \<noteq> 0 then (svc_declined ''clearing_failed'' tid, s)
          else
            let (now, s) = time_null s in (svc_approved tid now, s))"

subsection \<open>Routes\<close>

definition field_text :: "cjson \<Rightarrow> json \<Rightarrow> string \<Rightarrow> nat \<Rightarrow> string" where
  \<comment> \<open>\<open>if (cJSON_IsString(f)) strncpy(req.f, f->valuestring, sizeof(req.f) - 1)\<close> on a cleared field\<close>
  "field_text cj j k n = (let f = cJSON_GetObjectItem cj j k in if cJSON_IsString f then clip n (valuestring f) else [])"

definition payment_request_of :: "cjson \<Rightarrow> json \<Rightarrow> int \<Rightarrow> payment_request" where
  "payment_request_of cj j now =
     \<lparr>pr_request_id = field_text cj j ''request_id'' 128, pr_pan = field_text cj j ''pan'' 20,
      pr_amount = field_text cj j ''amount'' 16, pr_currency = field_text cj j ''currency'' 4,
      pr_merchant_id = field_text cj j ''merchant_id'' 64, pr_timestamp = now\<rparr>"

definition count_ps :: "(pay_counters \<Rightarrow> pay_counters) \<Rightarrow> ('n, 'a) pay_svc_scheme \<Rightarrow> ('n, 'a) pay_svc_scheme" where
  "count_ps f s = s\<lparr>ps_counters := f (ps_counters s)\<rparr>"

definition inc_total_requests :: "pay_counters \<Rightarrow> pay_counters" where
  "inc_total_requests c = c\<lparr>g_total_requests := g_total_requests c + 1\<rparr>"

definition count_outcome :: "cjson \<Rightarrow> json \<Rightarrow> pay_counters \<Rightarrow> pay_counters" where
  "count_outcome cj j c =
     (let status = cJSON_GetObjectItem cj j ''status'' in
      if \<not> cJSON_IsString status then c
      else if valuestring status = ''APPROVED'' then c\<lparr>g_approved_requests := g_approved_requests c + 1\<rparr>
      else c\<lparr>g_declined_requests := g_declined_requests c + 1\<rparr>)"

definition svc_refusal :: "string \<Rightarrow> json" where
  "svc_refusal why = JObject [(''status'', JString ''DECLINED''), (''reason'', JString why)]"

definition authorize :: "cjson \<Rightarrow> 'n curl \<Rightarrow> json \<Rightarrow> ('n, 'a) pay_svc_scheme \<Rightarrow> json \<times> ('n, 'a) pay_svc_scheme" where
  "authorize cj cu j s =
     (let (now, s) = time_null s;
          (resp, s) = process_authorization cj cu (payment_request_of cj j now) s
      in (resp, count_ps (count_outcome cj resp) s))"

definition payment_metrics :: "('n, 'a) pay_svc_scheme \<Rightarrow> json \<times> ('n, 'a) pay_svc_scheme" where
  "payment_metrics s =
     (let c = ps_counters s; (now, s) = time_null s in
      (JObject [(''total_requests'', num (g_total_requests c)), (''approved_requests'', num (g_approved_requests c)),
         (''declined_requests'', num (g_declined_requests c)), (''timestamp'', num now)], s))"

definition payment_route ::
    "cjson \<Rightarrow> 'n curl \<Rightarrow> string \<times> string \<Rightarrow> string \<Rightarrow> ('n, 'a) pay_svc_scheme \<Rightarrow> (int \<times> string \<times> json) \<times> ('n, 'a) pay_svc_scheme" where
  "payment_route cj cu mp buffer s =
     (if fst mp = ''POST'' \<and> strncmp_eq (snd mp) ''/payments/authorize'' then
        (case body_of buffer of
           None \<Rightarrow> ((400, ''Bad Request'', svc_refusal ''no_body''), s)
         | Some body \<Rightarrow>
             (case cJSON_Parse cj body of
                None \<Rightarrow> ((400, ''Bad Request'', svc_refusal ''invalid_json''), s)
              | Some j \<Rightarrow> let (resp, s) = authorize cj cu j s in ((200, ''OK'', resp), s)))
      else if mp = (''GET'', ''/health'') then
        let (now, s) = time_null s in
        ((200, ''OK'', JObject [(''status'', JString ''healthy''), (''timestamp'', num now)]), s)
      else if mp = (''GET'', ''/metrics'') then let (j, s) = payment_metrics s in ((200, ''OK'', j), s)
      else ((404, ''Not Found'', JObject [(''error'', JString ''not_found'')]), s))"

definition payment_handle_request ::
    "cjson \<Rightarrow> 'n curl \<Rightarrow> string \<times> string \<Rightarrow> string \<Rightarrow> ('n, 'a) pay_svc_scheme \<Rightarrow> ('n, 'a) pay_svc_scheme" where
  "payment_handle_request cj cu junk bytes s =
     (if bytes = [] then s
      else
        let buffer = cstr (take 4095 bytes);
            ((code, why, j), s) = payment_route cj cu (request_line junk buffer) buffer (count_ps inc_total_requests s)
        in send_response cj code why (Some j) s)"

definition payment_load_config :: "('n, 'a) pay_svc_scheme \<Rightarrow> ('n, 'a) pay_svc_scheme" where
  "payment_load_config s =
     s\<lparr>ps_config := \<lparr>pc_port = env_int s ''PORT'' 8080,
         risk_service_url = env_str s ''RISK_SERVICE_URL'' ''http://localhost:8081'' 256,
         clearing_service_url = env_str s ''CLEARING_SERVICE_URL'' ''http://localhost:8082'' 256,
         ledger_service_url = env_str s ''LEDGER_SERVICE_URL'' ''http://localhost:8083'' 256,
         pc_db_uri = env_str s ''DB_URI'' ''postgresql://localhost:5432/payments'' 512,
         max_threads = env_int s ''MAX_THREADS'' 10, pc_queue_capacity = env_int s ''QUEUE_CAPACITY'' 100\<rparr>\<rparr>"

fun payment_main_loop ::
    "cjson \<Rightarrow> 'n curl \<Rightarrow> ((string \<times> string) \<times> string) list \<Rightarrow> ('n, 'a) pay_svc_scheme \<Rightarrow> ('n, 'a) pay_svc_scheme" where
  "payment_main_loop cj cu [] s = s"
| "payment_main_loop cj cu ((junk, bytes) # rs) s = payment_main_loop cj cu rs (payment_handle_request cj cu junk bytes s)"

definition payment_main ::
    "cjson \<Rightarrow> 'n curl \<Rightarrow> bool \<times> bool \<times> bool \<Rightarrow> ((string \<times> string) \<times> string) list \<Rightarrow> ('n, 'a) pay_svc_scheme \<Rightarrow> int option \<times> ('n, 'a) pay_svc_scheme" where
  \<comment> \<open>the exit status, if the program ends before it serves; a failing \<open>accept\<close> is skipped\<close>
  "payment_main cj cu n rs s =
     (let s = payment_load_config s in
      case svc_listen n of Some rc \<Rightarrow> (Some rc, s) | None \<Rightarrow> (None, payment_main_loop cj cu rs s))"

subsection \<open>Authorization\<close>

lemma mask_copies_agree:
  "clearing_mask_pan p n = svc_mask_pan p n" "payment_mask_pan p n = svc_mask_pan p n" "0 < n \<Longrightarrow> mask_pan p n out = svc_mask_pan p n"
  by (simp_all add: clearing_mask_pan_def payment_mask_pan_def svc_mask_pan_def mask_pan_def clip_def Let_def)





definition status_of :: "json \<Rightarrow> string" where
  "status_of j = (case j of JObject ms \<Rightarrow> valuestring (map_of ms ''status'') | _ \<Rightarrow> [])"

lemma status_replies [simp]:
  "status_of (svc_declined why tid) = ''DECLINED''" "status_of (svc_approved tid now) = ''APPROVED''"
  by (simp_all add: status_of_def svc_declined_def svc_approved_def)

lemma time_null_posts [simp]: "ps_posts (snd (time_null s)) = ps_posts s"
  by (simp add: time_null_def)

definition agreed :: "cjson \<Rightarrow> string \<Rightarrow> post \<Rightarrow> bool" where
  "agreed cj field p \<longleftrightarrow> post_rc p = 0 \<and> reply_flag cj field (post_data p)"










subsection \<open>The three services together\<close>

text \<open>
  C34. The replies with which the other services refuse read as consent, when cJSON behaves as documented. The handlers
  mark a refusal with \<open>cJSON_AddBoolToObject(..., cJSON_False)\<close>, and the constant \<open>cJSON_False\<close> is 1: the object of a
  declined risk evaluation and the object of a clearing error carry a true flag, as does every reply of \<open>evaluate_risk\<close>,
  \<open>handle_prepare\<close> and \<open>handle_commit\<close>, whatever the request and the state of the service; and a post of the payment service that
  brings back the text of such a reply counts as agreed to. This is about the replies: as the services are, no post
  reaches these handlers (\<open>service_posts_reach_no_handler\<close>).
\<close>

theorem service_refusals_read_as_consent:
  fixes r :: "'a risk_svc_scheme" and c :: "'b clearing_svc_scheme"
  assumes "cjson_documented cj" "post_rc p = 0" "post_data p = Some t"
  shows "cJSON_GetObjectItem cj (risk_declined cj why m) ''allow'' = Some (JBool True) \<and>
    cJSON_GetObjectItem cj (cs_error cj e) ''ok'' = Some (JBool True) \<and>
    (cJSON_Parse cj (cstr t) = Some (fst (evaluate_risk cj q r)) \<longrightarrow> agreed cj ''allow'' p) \<and>
    (cJSON_Parse cj (cstr t) \<in> {Some (fst (handle_prepare cj q c)), Some (fst (handle_commit cj q c))} \<longrightarrow> agreed cj ''ok'' p)"
  using assms(2,3) evaluate_risk_allows [OF assms(1), of q r] clearing_replies_ok [OF assms(1), of q c]
    risk_reply_flag [OF assms(1)] clearing_reply_flag [OF assms(1)]
  by (auto simp: agreed_def reply_flag_def)

definition payment_decisions :: "('n, 'a) pay_svc_scheme \<Rightarrow> post list \<times> int \<times> int" where
  "payment_decisions s = (ps_posts s, g_approved_requests (ps_counters s), g_declined_requests (ps_counters s))"

lemma payment_decisions_send [simp]: "payment_decisions (send_response cj code why r s) = payment_decisions s"
  by (simp add: payment_decisions_def send_response_def emit_def Let_def split: option.split)

lemma payment_route_refused:
  assumes "\<And>t. body_of b = Some t \<Longrightarrow> cJSON_Parse cj t = None"
  shows "payment_decisions (snd (payment_route cj cu mp b s)) = payment_decisions s"
  using assms
  by (auto simp: payment_route_def payment_metrics_def payment_decisions_def time_null_def Let_def case_prod_beta split: option.split)

interpretation payment_http: http_service cj "\<lambda>mp b s. payment_route cj cu mp b (count_ps inc_total_requests s)"
  "\<lambda>(code, why, j). send_response cj code why (Some j)" "payment_handle_request cj cu" "payment_main_loop cj cu" payment_decisions
  for cj and cu :: "'n curl"
proof
  show "payment_decisions (snd (payment_route cj cu mp b (count_ps inc_total_requests s))) = payment_decisions s"
    if "\<And>t. body_of b = Some t \<Longrightarrow> cJSON_Parse cj t = None" for mp b and s :: "('n, 'a) pay_svc_scheme"
    using payment_route_refused [OF that, of b cu mp "count_ps inc_total_requests s"]
    by (simp add: payment_decisions_def count_ps_def inc_total_requests_def)
qed (simp_all add: payment_handle_request_def Let_def case_prod_beta split: prod.split)

text \<open>
  C35. No POST reaches a handler of any of the three services: the end of the headers is searched as
  eight characters with backslashes, and the body is taken four characters into them, so that what is
  parsed starts with a backslash. Whatever requests arrive, the velocity table and the counters of the
  risk service, the transactions and the counters of the clearing service and the decisions of the
  payment service stay as they are, and the payment service posts nothing.
\<close>

theorem service_posts_reach_no_handler:
  assumes "cjson_documented cj"
  shows "g_velocity_table (risk_main_loop cj rs r) = g_velocity_table r \<and> rs_counters (risk_main_loop cj rs r) = rs_counters r \<and>
    g_transactions (clearing_main_loop cj rs c) = g_transactions c \<and> cs_counters (clearing_main_loop cj rs c) = cs_counters c \<and>
    payment_decisions (payment_main_loop cj cu rs p) = payment_decisions p"
  using risk_http.loop_keeps [OF assms, of rs r] clearing_http.loop_keeps [OF assms, of rs c]
    payment_http.loop_keeps [OF assms, of cu rs p] by blast

lemma service_mains_idle:
  \<comment> \<open>the three programs from their start\<close>
  assumes "cjson_documented cj"
  shows "g_velocity_table (snd (risk_main cj n rs r)) = (\<lambda>_. empty_slot)"
    and "g_transactions (snd (clearing_main cj n rs c)) = []"
    and "payment_decisions (snd (payment_main cj cu n rs p)) = payment_decisions p"
  using risk_http.loop_keeps [OF assms, of rs "risk_main_init r"] clearing_http.loop_keeps [OF assms, of rs "clearing_main_init c"]
    payment_http.loop_keeps [OF assms, of cu rs "payment_load_config p"]
  by (simp_all add: risk_main_def clearing_main_def payment_main_def risk_main_init_def clearing_main_init_def payment_load_config_def
      payment_decisions_def Let_def split: option.split)

subsection \<open>A concrete service\<close>

definition demo_pay_svc :: "unit pay_svc" where
  "demo_pay_svc = \<lparr>env_src = Map.empty, time_src = int, time_calls = 0, rand_src = (\<lambda>_. 0), rand_calls = 0,
     alloc_src = (\<lambda>_. True), allocs = 0, trace = [], metrics = metrics_zero,
     ps_config = \<lparr>pc_port = 8080, risk_service_url = ''r'', clearing_service_url = ''c'', ledger_service_url = [],
       pc_db_uri = [], max_threads = 10, pc_queue_capacity = 100\<rparr>,
     ps_net = (), ps_posts = [], ps_counters = \<lparr>g_total_requests = 0, g_approved_requests = 0, g_declined_requests = 0\<rparr>\<rparr>"

definition demo_curl :: "unit curl" where
  \<comment> \<open>every service refuses\<close>
  "demo_curl = \<lparr>curl_perform = (\<lambda>url t net.
       (Some (True, 200, [if url = ''r/risk/evaluate'' then ''R'' else if url = ''c/clearing/prepare'' then ''P'' else ''C'']), net)),
     uninit = []\<rparr>"


lemma demo_urls: "risk_url demo_pay_svc = ''r/risk/evaluate''" "prepare_url demo_pay_svc = ''c/clearing/prepare''"
  "commit_url demo_pay_svc = ''c/clearing/commit''"
  by (simp_all add: risk_url_def prepare_url_def commit_url_def demo_pay_svc_def clip_def)



text \<open>Witness of C34: the error reply to a prepare request without members.\<close>

theorem service_refusals_read_as_consent_witness:
  "fst (handle_prepare demo_cjson JNull demo_clearing_svc) = cs_error demo_cjson ''missing_required_fields'' \<and>
   agreed demo_cjson ''ok'' \<lparr>post_url = ''c/clearing/prepare'', post_json = ''{}'', post_rc = 0, post_data = Some ''P''\<rparr>"
proof -
  have e: "fst (handle_prepare demo_cjson JNull demo_clearing_svc) = cs_error demo_cjson ''missing_required_fields''"
    by (simp add: handle_prepare_def demo_cjson_def)
  have "cJSON_Parse demo_cjson (cstr ''P'') = Some (cs_error demo_cjson ''missing_required_fields'')"
    by (simp add: cs_error_def demo_cjson_def cstr_def)
  with e service_refusals_read_as_consent [OF demo_cjson_documented,
      of "\<lparr>post_url = ''c/clearing/prepare'', post_json = ''{}'', post_rc = 0, post_data = Some ''P''\<rparr>" "''P''" "[]" "[]" "[]"
        JNull demo_risk_svc demo_clearing_svc]
  show ?thesis by simp
qed

text \<open>Witness of C35.\<close>

theorem service_posts_reach_no_handler_witness:
  "let rs = [(([], []), ''POST /clearing/prepare HTTP/1.1 {}'')] in
   g_velocity_table (risk_main_loop demo_cjson rs demo_risk_svc) = g_velocity_table demo_risk_svc \<and>
   g_transactions (clearing_main_loop demo_cjson rs demo_clearing_svc) = [] \<and>
   payment_decisions (payment_main_loop demo_cjson demo_curl rs demo_pay_svc) = ([], 0, 0)"
  using service_posts_reach_no_handler [OF demo_cjson_documented, of "[(([], []), ''POST /clearing/prepare HTTP/1.1 {}'')]"
      demo_risk_svc demo_clearing_svc demo_curl demo_pay_svc]
  by (simp add: demo_clearing_svc_def demo_pay_svc_def payment_decisions_def del: risk_main_loop.simps clearing_main_loop.simps
      payment_main_loop.simps)

end
