(* ===== verification/Spec2Isabelle.thy ===== *)
theory Spec2Isabelle
  imports Lifecycle Risk_race Logging Loadgen Payment_service
begin

text \<open>
  Verification of mini-visa: a payment server in C (server/), three HTTP services that split the same
  work (microservices/), and a load generator (client/).

  \<^bold>\<open>The program.\<close> \<open>main\<close> reads the configuration, connects to PostgreSQL, creates a thread pool and
  runs the accept loop. Each accepted connection becomes a job; a worker runs \<open>handler_job\<close>, which cuts
  the bytes into lines, answers the GET routes itself, and takes JSON lines and the bodies of \<open>POST /secure/tx\<close> through the
  payment pipeline: parse, Luhn check, amount check, velocity limit, then a two-phase commit of a
  coordinator over the database participant and the clearing participant. When the commit fails a
  reversal is queued, which a background thread performs. Counters are global; log lines go to
  \<open>stderr\<close>. The three services (payment, risk, clearing) do a similar authorization over HTTP and JSON.

  \<^bold>\<open>How it is modelled.\<close> The state is passed explicitly. What the process shares is the record \<open>sys\<close>:
  environment, readings of the clock, draws of \<open>rand\<close>, outcomes of allocations (all sources that the
  theorems quantify over), the counters, and the trace of observable effects. Components extend it
  with their globals. The heap objects that matter (transactions, participant contexts, connections, jobs, reversal
  tasks, connection contexts) are maps from addresses, so that a use after \<open>free\<close> is a \<open>Fault\<close> event
  and a linked list is its pointers. Threads are step relations: \<open>tp_step\<close> (pool), \<open>net_step\<close>
  (accept loop and pool), \<open>rev_step\<close> (reversal thread and those who enqueue), \<open>cb_reach\<close> (users of the breaker), \<open>load_step\<close>
  (load generator), and \<open>server_step\<close> for the server as a whole. libpq, PostgreSQL, cJSON and libcurl are parameters: records of functions,
  with what is relied on stated as named predicates (\<open>cjson_documented\<close> and the database laws of \<open>Db\<close>), each met by a concrete instance.

  \<^bold>\<open>The theories\<close>, in the order of the import graph, with the sources they model:

  \<^item> \<open>Prelude\<close>: C strings, buffers (\<open>clip\<close>), decimal text, \<open>strtol\<close>, \<open>atoi\<close>, \<open>strstr\<close>, and their facts.
  \<^item> \<open>Metrics\<close> (metrics.c), \<open>Sys\<close> (the process state).
  \<^item> \<open>Coordinator\<close> (transaction_coordinator.c): the table of active transactions, begin, register,
    commit, abort, the transaction log. \<open>txn_commit\<close> refines the abstract two-phase commit protocol
    (C1); its log lines follow the state machine; a transaction is retired exactly once. Locales: \<open>keyed_table\<close> for the table
    and \<open>twopc_participants\<close> for what participants promise.
  \<^item> \<open>Card\<close>, \<open>Amount\<close> (checks of handler.c), \<open>Iso8583\<close> (iso8583.c), \<open>Logging\<close> (log.c): Luhn against its
    definition, the amount as an exact rational, the parser as member lookup, log lines that read back.
  \<^item> \<open>Clearing\<close> (clearing_participant.c): circuit breaker, retries, callbacks. \<open>Db\<close>, \<open>Db_participant\<close>
    (db.c, db_participant.c): idempotent insert, the participant as a state machine.
    \<open>Participants\<close>: both meet the coordinator's contract; everything a payment's commit sends to the two of them.
  \<^item> \<open>Risk\<close> (risk.c): the velocity table counts exactly, one call at a time. \<open>Risk_race\<close>: the same code cut at its accesses to
    the table, which the sources do not lock; no schedule leaves the table, one call alone is \<open>risk_evaluate\<close>, and one schedule of overlapping calls evades the limit.
  \<^item> \<open>Queues\<close>: linked lists and the locales \<open>fifo_queue\<close>, \<open>fifo_server\<close>. \<open>Threadpool\<close> (threadpool.c) interprets
    them; no job is lost, run twice or left with every worker asleep. \<open>Reversal\<close> (reversal.c).
  \<^item> \<open>Frames\<close> (what an operation leaves alone: contexts, request counters, database connections other than the thread's own), \<open>Payment\<close>, \<open>Payment_flow\<close>, \<open>Availability\<close> (handler.c, the pipeline): one answer per request,
    an approval only after both commits, line and POST end in the same state, and what the error paths do with freed contexts. That approvals
    occur is shown on an example database only: the participant passes libpq a pointer for which it documents nothing.
  \<^item> \<open>Handler\<close>, \<open>Connection\<close> (handler.c, the connection): framing, routes, token, bodies, \<open>write_all\<close>; a
    worker serves its connections until one overruns the buffer, which ends the process; what the buffer handling really does.
  \<^item> \<open>Net\<close> (config.c, net.c), \<open>Server\<close> (main.c, ledger.c, clearing.c): every accepted connection is accounted for from
    the configuration to the shutdown; the components start from the states their theorems assume.
  \<^item> \<open>System\<close>, \<open>System_inv\<close>, \<open>Lifecycle\<close>: the composition. One state holds the accept loop and the pool of \<open>Net\<close>, every
    worker's coordinator, slot and connection, the velocity table and the queue of reversals; a step is a connection, a worker at the lock, the start of
    a job, one \<open>read\<close> with everything up to the next, an attempt of the reversal thread, or the shutdown. The invariant carries the
    statements of \<open>Connection\<close>, \<open>Net\<close> and \<open>Reversal\<close> through every interleaving, from \<open>main_start\<close> to \<open>main_stop\<close>.
  \<^item> \<open>Service\<close>, \<open>Risk_service\<close>, \<open>Clearing_service\<close>, \<open>Payment_service\<close> (the three \<open>main.c\<close> under
    microservices/): the locale \<open>http_service\<close> holds what they share and is interpreted by each.
  \<^item> \<open>Loadgen\<close> (client/loadgen.c): counters and percentiles, with the rounding of doubles written out.

  \<^bold>\<open>Properties.\<close> The main theorems carry identifiers C1 to C40 in the text before them. C1 to C17 are
  the two-phase commit and the payment pipeline around it, with the whole server (C5, C6), pool, start and reversals;
  then the participants, the wake-up of workers, the checks of a request, the parser, the log,
  the load report, the POST body and the secure routes, the services, and at the end the behaviours that differ from what the
  sources mean to do: payments taken from a refused request (C30), refusals that read as consent, POST requests that reach no handler, a
  schedule that evades the velocity limit, lines handled twice, a size that wraps around, freed contexts and a freed identifier that are read.

  \<^bold>\<open>Integers, bounds and loops.\<close> Counters and latencies are 64-bit words, \<open>atoi\<close> wraps to 32 bits as in C, and
  sizes that could wrap are compared as the source compares them (\<open>after_lines\<close> writes the wrap-around out).
  Loops are structural or have a measure; the walks along linked lists of \<open>Reversal\<close> are \<open>partial_function\<close>s
  in the option type, and the theorems show that they return on every reachable queue. The queue of the pool is read with its
  own size as the bound, and the invariant shows that this is its length. The results of \<open>read\<close> and \<open>write\<close> are lists, so a
  connection is as long as its list; \<open>write_all\<close> returns \<^const>\<open>None\<close> when the list ends before the loop does.

  \<^bold>\<open>Not modelled.\<close> The mutexes as objects: critical sections are single steps. In \<open>System\<close> the threads interleave at the reads, the pool's lock and the
  reversal queue, not inside a request; what happens inside \<open>risk.c\<close>, which takes no lock, is in \<open>Risk_race\<close>. Text written to \<open>stderr\<close> with \<open>perror\<close> and
  \<open>fprintf\<close>, and the lines \<open>printf\<close> writes in the services. Socket options and timeouts, the listen backlog,
  \<open>localtime_r\<close> and \<open>strftime\<close>. After a fault the C program has no defined behaviour; the model continues as if the access had had no effect, except that an
  access beyond a connection's buffer ends the process (\<open>Killed\<close> in \<open>Handler\<close>, \<open>sv_dead\<close> in \<open>System\<close>).
  Wall-clock time and rate in the load generator's report. The getters of \<open>metrics.c\<close>, which are the record's selectors, and the headers' prototypes. Shell
  scripts, tests, build and deployment files and the SQL schema hold no logic of the C program.
\<close>

end
